(* ===== verification/Prelude.thy ===== *)
theory Prelude
  imports "HOL-Library.Word"
begin

text \<open>
  Shared vocabulary of the development: the bit syntax, the machine word types the crate uses,
  the theorem collections the components register their facts in, and the facts about words and
  lists that more than one component needs.
\<close>

unbundle bit_operations_syntax

subsection \<open>Names\<close>

text \<open>
  \<open>usize\<close> is the 64-bit size type of the platforms tokio supports; \<open>tid\<close> identifies an
  operating system thread (\<open>ThreadId\<close>).
\<close>

type_synonym usize = "64 word"
type_synonym tid = nat

named_theorems bits "facts about the packed words of the crate"
named_theorems view_simps "facts about views and the primitive memory operations"
named_theorems step_defs "definitions of the atomic steps"

subsection \<open>Words\<close>

text \<open>The simplifier writes \<open>NOT 1\<close> as \<open>- 2\<close>; the collection states the facts in that form.\<close>

lemma minus_two_eq: "(- 2 :: 'w::len word) = NOT 1"
  by simp

lemma even_and_minus_two [bits]: "even (w AND - 2)" for w :: "'w::len word"
  unfolding minus_two_eq by (simp only: even_and_iff even_not_iff) simp

lemma and_minus_two_of_even [bits]: "even w \<Longrightarrow> w AND - 2 = w" for w :: "'w::len word"
  unfolding minus_two_eq
  by (rule bit_word_eqI) (metis bit_0 bit_and_iff bit_not_iff bit_1_iff possible_bit_def
    bit_imp_possible_bit)

lemma or_one_and_minus_two [bits]: "(w OR 1) AND - 2 = w AND - 2" for w :: "'w::len word"
  unfolding minus_two_eq by (rule bit_word_eqI) (auto simp: bit_simps)

lemma and_one_eq_zero_iff [bits]: "w AND 1 = 0 \<longleftrightarrow> even w" for w :: "'w::len word"
  by (simp add: and_one_eq even_iff_mod_2_eq_zero)

lemma odd_or_one [bits]: "odd (w OR 1)" for w :: "'w::len word"
  by (simp add: even_or_iff)

lemma or_one_nonzero [bits]: "w OR 1 \<noteq> 0" for w :: "'w::len word"
  using odd_or_one [of w] by auto

lemma and_minus_two_or_one [bits]: "odd w \<Longrightarrow> (w AND - 2) OR 1 = w" for w :: "'w::len word"
  unfolding minus_two_eq
  by (rule bit_word_eqI) (auto simp: bit_simps bit_0)

subsection \<open>Lists\<close>

lemma nth_append_last [simp]: "(xs @ [x]) ! length xs = x"
  by simp

lemma nth_append_old: "i < length xs \<Longrightarrow> (xs @ ys) ! i = xs ! i"
  by (simp add: nth_append)

end
