(* ===== verification/Thread_State.thy ===== *)
theory Thread_State
  imports Prelude
begin

text \<open>
  The epoch ids of \<open>src/src/rcu_core/epoch.rs\<close> and the packed thread state of
  \<open>src/src/rcu_core/thread_state.rs\<close>.

  \<open>EpochId\<close> is \<open>u32\<close>, or \<open>u8\<close> under the feature \<open>test_mode\<close>; the definitions are generic in the
  width \<open>'w\<close> and so cover both. The encoded state has the width of the epoch id.
\<close>

subsection \<open>Epoch ids\<close>

definition EPOCH_ID_MIN :: "'w::len word" where
  "EPOCH_ID_MIN = 2"

definition EPOCH_ID_MAX :: "'w::len word" where
  "EPOCH_ID_MAX = - 1 - 1"

text \<open>The epoch id valid for use: even and not zero.\<close>

definition valid_epoch :: "'w::len word \<Rightarrow> bool" where
  "valid_epoch e \<longleftrightarrow> even e \<and> e \<noteq> 0"

text \<open>The initial epoch id of \<open>QsReadMostlyData::new\<close>.\<close>

definition initial_epoch :: "'w::len word" where
  "initial_epoch = EPOCH_ID_MIN + 2"

subsection \<open>Thread states\<close>

record 'e thread_state =
  last_seen_epoch_id :: 'e
  is_busy :: bool

definition NONE_ENCODED_VALUE :: "'w::len word" where
  "NONE_ENCODED_VALUE = 0"

definition decode :: "'w::len word \<Rightarrow> 'w word thread_state option" where
  "decode encoded =
     (if encoded = NONE_ENCODED_VALUE then None
      else Some \<lparr>last_seen_epoch_id = encoded AND NOT 1, is_busy = (encoded AND 1 \<noteq> 0)\<rparr>)"

definition encode :: "'w::len word thread_state \<Rightarrow> 'w word" where
  "encode st = last_seen_epoch_id st OR (if is_busy st then 1 else 0)"

text \<open>The two \<open>debug_assert\<close>s of \<open>encode\<close>: the epoch id is even, the result is not the vacant value.\<close>

definition encode_asserts :: "'w::len word thread_state \<Rightarrow> bool" where
  "encode_asserts st \<longleftrightarrow> last_seen_epoch_id st AND 1 = 0 \<and> encode st \<noteq> NONE_ENCODED_VALUE"

text \<open>The update of \<open>on_thread_park\<close>: \<open>fetch_and(!1)\<close> clears the busy bit.\<close>

definition clear_busy :: "'w::len word \<Rightarrow> 'w word" where
  "clear_busy w = w AND NOT 1"

lemmas state_defs = decode_def encode_def NONE_ENCODED_VALUE_def clear_busy_def

lemma encode_asserts_iff:
  "encode_asserts st \<longleftrightarrow> even (last_seen_epoch_id st) \<and> (is_busy st \<or> last_seen_epoch_id st \<noteq> 0)"
  by (auto simp: encode_asserts_def state_defs bits)

lemma decode_encode:
  "encode_asserts st \<Longrightarrow> decode (encode st) = Some st"
  by (cases st) (auto simp: encode_asserts_iff state_defs bits)

lemma encode_decode: "decode w = Some st \<Longrightarrow> encode st = w"
  by (auto simp: state_defs bits split: if_splits)

lemma decode_eq_None_iff: "decode w = None \<longleftrightarrow> w = NONE_ENCODED_VALUE"
  by (simp add: decode_def)

lemma decode_Some_asserts: "decode w = Some st \<Longrightarrow> encode_asserts st"
  by (auto simp: encode_asserts_iff state_defs bits split: if_splits)

lemma decode_busy:
  "even e \<Longrightarrow> decode (encode \<lparr>last_seen_epoch_id = e, is_busy = True\<rparr>)
     = Some \<lparr>last_seen_epoch_id = e, is_busy = True\<rparr>"
  by (rule decode_encode) (simp add: encode_asserts_iff)

lemma decode_clear_busy:
  assumes "decode w = Some st" and "last_seen_epoch_id st \<noteq> 0"
  shows "decode (clear_busy w) = Some (st\<lparr>is_busy := False\<rparr>)"
  using assms by (auto simp: state_defs bits split: if_splits)

end
