(* ===== verification/Weak_Memory.thy ===== *)
theory Weak_Memory
  imports Prelude
begin

text \<open>
  The operational memory the crate's atomics run on: a view machine for the fragment of the C++20
  memory model (which Rust adopts) that the crate uses.

  Every location keeps the list of the messages written to it, in modification order; a message
  is a value and the view it carries. A view maps each location to the index of the newest message
  that is known. Each thread has three views: \<open>vcur\<close> (what happens before its next operation),
  \<open>vacq\<close> (what an acquire fence would add: views of the messages read with relaxed loads) and
  \<open>vrel\<close> (what its last release fence published, carried by relaxed stores). A load may return any
  message that is not older than \<open>vcur\<close> allows; a store appends. A read-modify-write reads the
  last message and its message inherits the view of the one it read, which is the release sequence.
  An SC fence exchanges views with the global view \<open>scv\<close>. Locks hand views over through \<open>lv\<close>.

  Stores append at the end of the modification order. Every location of the crate has its
  writers ordered by happens-before (an owner thread, or a mutex) or is written by
  read-modify-write operations only, so the modification order is the execution order. Load
  buffering (a load reading from a store that is later in its own thread's dependency order) is not
  in the machine, as in every model without out-of-thin-air values.
\<close>

subsection \<open>Views\<close>

type_synonym 'l view = "'l \<Rightarrow> nat"

definition at :: "'l \<Rightarrow> nat \<Rightarrow> 'l view" where
  "at x i = (\<lambda>y. if y = x then i else 0)"

lemma at_apply [simp]: "at x i y = (if y = x then i else 0)"
  by (simp add: at_def)

lemma at_le_iff [view_simps]: "at x i \<le> V \<longleftrightarrow> i \<le> V x"
  by (auto simp: le_fun_def)

lemma sup_nat_eq_max [simp]: "sup a b = max a b" for a b :: nat
  by (simp add: sup_nat_def)

subsection \<open>State\<close>

record 'l tview =
  vcur :: "'l view"
  vacq :: "'l view"
  vrel :: "'l view"

type_synonym ('l, 'v) msg = "'v \<times> 'l view"

record ('l, 'k, 'v) wmem =
  hist :: "'l \<Rightarrow> ('l, 'v) msg list"
  tv :: "tid \<Rightarrow> 'l tview"
  scv :: "'l view"
  lv :: "'k \<Rightarrow> 'l view"

text \<open>\<open>core::sync::atomic::Ordering\<close>.\<close>

datatype ordering = Relaxed | Acquire | Release | AcqRel | SeqCst

fun acquires :: "ordering \<Rightarrow> bool" where
  "acquires Relaxed = False"
| "acquires Acquire = True"
| "acquires Release = False"
| "acquires AcqRel = True"
| "acquires SeqCst = True"

fun releases :: "ordering \<Rightarrow> bool" where
  "releases Relaxed = False"
| "releases Acquire = False"
| "releases Release = True"
| "releases AcqRel = True"
| "releases SeqCst = True"

definition last_ix :: "('l, 'k, 'v) wmem \<Rightarrow> 'l \<Rightarrow> nat" where
  "last_ix m x = length (hist m x) - 1"

definition mval :: "('l, 'k, 'v) wmem \<Rightarrow> 'l \<Rightarrow> nat \<Rightarrow> 'v" where
  "mval m x i = fst (hist m x ! i)"

definition mview :: "('l, 'k, 'v) wmem \<Rightarrow> 'l \<Rightarrow> nat \<Rightarrow> 'l view" where
  "mview m x i = snd (hist m x ! i)"

abbreviation cur :: "('l, 'k, 'v) wmem \<Rightarrow> tid \<Rightarrow> 'l view" where
  "cur m t \<equiv> vcur (tv m t)"

subsection \<open>Primitive operations\<close>

definition readable :: "tid \<Rightarrow> 'l \<Rightarrow> nat \<Rightarrow> ('l, 'k, 'v) wmem \<Rightarrow> bool" where
  "readable t x i m \<longleftrightarrow> cur m t x \<le> i \<and> i < length (hist m x)"

definition load :: "ordering \<Rightarrow> tid \<Rightarrow> 'l \<Rightarrow> nat \<Rightarrow> ('l, 'k, 'v) wmem \<Rightarrow> ('l, 'k, 'v) wmem" where
  "load ord t x i m =
     (let v = tv m t; w = sup (at x i) (mview m x i)
      in m\<lparr>tv := (tv m)(t :=
           \<lparr>vcur = sup (vcur v) (if acquires ord then w else at x i),
            vacq = sup (vacq v) w, vrel = vrel v\<rparr>)\<rparr>)"

definition store :: "ordering \<Rightarrow> tid \<Rightarrow> 'l \<Rightarrow> 'v \<Rightarrow> ('l, 'k, 'v) wmem \<Rightarrow> ('l, 'k, 'v) wmem" where
  "store ord t x a m =
     (let v = tv m t; i = length (hist m x); c = sup (vcur v) (at x i);
          w = (if releases ord then c else sup (vrel v) (at x i))
      in m\<lparr>hist := (hist m)(x := hist m x @ [(a, w)]),
           tv := (tv m)(t := \<lparr>vcur = c, vacq = sup (vacq v) (at x i), vrel = vrel v\<rparr>)\<rparr>)"

definition rmw :: "ordering \<Rightarrow> tid \<Rightarrow> 'l \<Rightarrow> 'v \<Rightarrow> ('l, 'k, 'v) wmem \<Rightarrow> ('l, 'k, 'v) wmem" where
  "rmw ord t x a m =
     (let v = tv m t; i = length (hist m x); r = mview m x (last_ix m x);
          c = sup (vcur v) (sup (at x i) (if acquires ord then r else at x (last_ix m x)));
          w = sup r (if releases ord then c else sup (vrel v) (at x i))
      in m\<lparr>hist := (hist m)(x := hist m x @ [(a, w)]),
           tv := (tv m)(t := \<lparr>vcur = c, vacq = sup (vacq v) (sup (at x i) r), vrel = vrel v\<rparr>)\<rparr>)"

definition fence_sc :: "tid \<Rightarrow> ('l, 'k, 'v) wmem \<Rightarrow> ('l, 'k, 'v) wmem" where
  "fence_sc t m =
     (let c = sup (scv m) (vacq (tv m t))
      in m\<lparr>scv := c, tv := (tv m)(t := \<lparr>vcur = c, vacq = c, vrel = c\<rparr>)\<rparr>)"

definition fence_acq :: "tid \<Rightarrow> ('l, 'k, 'v) wmem \<Rightarrow> ('l, 'k, 'v) wmem" where
  "fence_acq t m = m\<lparr>tv := (tv m)(t := (tv m t)\<lparr>vcur := vacq (tv m t)\<rparr>)\<rparr>"

text \<open>Taking a lock learns what its previous holders published; releasing it publishes.\<close>

definition lk_acq :: "tid \<Rightarrow> 'k \<Rightarrow> ('l, 'k, 'v) wmem \<Rightarrow> ('l, 'k, 'v) wmem" where
  "lk_acq t k m =
     m\<lparr>tv := (tv m)(t := (tv m t)\<lparr>vcur := sup (cur m t) (lv m k),
                               vacq := sup (vacq (tv m t)) (lv m k)\<rparr>)\<rparr>"

definition lk_rel :: "tid \<Rightarrow> 'k \<Rightarrow> ('l, 'k, 'v) wmem \<Rightarrow> ('l, 'k, 'v) wmem" where
  "lk_rel t k m = m\<lparr>lv := (lv m)(k := sup (lv m k) (cur m t))\<rparr>"

lemmas prim_defs = load_def store_def rmw_def fence_sc_def fence_acq_def lk_acq_def lk_rel_def

subsection \<open>What each operation changes\<close>

lemma hist_load [view_simps]: "hist (load ord t x i m) = hist m"
  and hist_fence_sc [view_simps]: "hist (fence_sc t m) = hist m"
  and hist_fence_acq [view_simps]: "hist (fence_acq t m) = hist m"
  and hist_lk_acq [view_simps]: "hist (lk_acq t k m) = hist m"
  and hist_lk_rel [view_simps]: "hist (lk_rel t k m) = hist m"
  by (simp_all add: prim_defs Let_def)

lemma scv_prims [view_simps]:
  "scv (load ord t x i m) = scv m" "scv (store ord t x a m) = scv m" "scv (rmw ord t x a m) = scv m"
  "scv (fence_acq t m) = scv m" "scv (lk_acq t k m) = scv m" "scv (lk_rel t k m) = scv m"
  by (simp_all add: prim_defs Let_def)

lemma lv_prims [view_simps]:
  "lv (load ord t x i m) = lv m" "lv (store ord t x a m) = lv m" "lv (rmw ord t x a m) = lv m"
  "lv (fence_acq t m) = lv m" "lv (fence_sc t m) = lv m" "lv (lk_acq t k m) = lv m"
  "lv (lk_rel t k m) j = (if j = k then sup (lv m k) (cur m t) else lv m j)"
  by (simp_all add: prim_defs Let_def)

lemma scv_fence_sc [view_simps]: "scv (fence_sc t m) = sup (scv m) (vacq (tv m t))"
  by (simp add: fence_sc_def Let_def)

lemma cur_fence_sc [view_simps]:
  "cur (fence_sc t m) u = (if u = t then sup (scv m) (vacq (tv m t)) else cur m u)"
  by (simp add: fence_sc_def Let_def)

lemma cur_load [view_simps]:
  "cur (load ord t x i m) u =
     (if u = t then sup (cur m t) (if acquires ord then sup (at x i) (mview m x i) else at x i)
      else cur m u)"
  by (simp add: load_def Let_def)

lemma cur_store [view_simps]:
  "cur (store ord t x a m) u = (if u = t then sup (cur m t) (at x (length (hist m x))) else cur m u)"
  by (simp add: store_def Let_def)

lemma cur_rmw [view_simps]:
  "cur (rmw ord t x a m) u =
     (if u = t then sup (cur m t) (sup (at x (length (hist m x)))
        (if acquires ord then mview m x (last_ix m x) else at x (last_ix m x))) else cur m u)"
  by (simp add: rmw_def Let_def)

lemma cur_lk_acq [view_simps]:
  "cur (lk_acq t k m) u = (if u = t then sup (cur m t) (lv m k) else cur m u)"
  by (simp add: lk_acq_def)

lemma cur_fence_acq [view_simps]:
  "cur (fence_acq t m) u = (if u = t then vacq (tv m t) else cur m u)"
  by (simp add: fence_acq_def)

lemma tv_lk_rel [view_simps]: "tv (lk_rel t k m) = tv m"
  by (simp add: lk_rel_def)

lemma hist_store [view_simps]:
  "hist (store ord t x a m) y =
     (if y = x then hist m x @ [(a, if releases ord then sup (cur m t) (at x (length (hist m x)))
                                    else sup (vrel (tv m t)) (at x (length (hist m x))))]
      else hist m y)"
  by (simp add: store_def Let_def)

definition rmw_view :: "ordering \<Rightarrow> tid \<Rightarrow> 'l \<Rightarrow> ('l, 'k, 'v) wmem \<Rightarrow> 'l view" where
  "rmw_view ord t x m = sup (mview m x (last_ix m x))
     (if releases ord
      then sup (cur m t) (sup (at x (length (hist m x)))
             (if acquires ord then mview m x (last_ix m x) else at x (last_ix m x)))
      else sup (vrel (tv m t)) (at x (length (hist m x))))"

lemma hist_rmw [view_simps]:
  "hist (rmw ord t x a m) y = (if y = x then hist m x @ [(a, rmw_view ord t x m)] else hist m y)"
  by (simp add: rmw_def rmw_view_def Let_def)

subsection \<open>Well-formed memories\<close>

text \<open>
  No view points past the end of a location's history, a message's view not past the message
  itself, and a thread's views are nested.
\<close>

definition bounded :: "('l, 'k, 'v) wmem \<Rightarrow> 'l view \<Rightarrow> bool" where
  "bounded m V \<longleftrightarrow> (\<forall>x. V x \<le> last_ix m x)"

definition wf_mem :: "('l, 'k, 'v) wmem \<Rightarrow> bool" where
  "wf_mem m \<longleftrightarrow>
     (\<forall>t. vrel (tv m t) \<le> cur m t \<and> cur m t \<le> vacq (tv m t) \<and> bounded m (vacq (tv m t))) \<and>
     bounded m (scv m) \<and> (\<forall>k. bounded m (lv m k)) \<and>
     (\<forall>x i. i < length (hist m x) \<longrightarrow> bounded m (mview m x i) \<and> mview m x i x \<le> i)"

lemma bounded_sup [simp]: "bounded m (sup V W) \<longleftrightarrow> bounded m V \<and> bounded m W"
  by (auto simp: bounded_def)

lemma bounded_at [simp]: "bounded m (at x i) \<longleftrightarrow> i \<le> last_ix m x"
  by (auto simp: bounded_def)

lemma bounded_mono: "V \<le> W \<Longrightarrow> bounded m W \<Longrightarrow> bounded m V"
  by (auto simp: bounded_def le_fun_def intro: order_trans)

lemma wf_memD:
  assumes "wf_mem m"
  shows "vrel (tv m t) \<le> cur m t" and "cur m t \<le> vacq (tv m t)" and "bounded m (vacq (tv m t))"
    and "bounded m (cur m t)" and "bounded m (vrel (tv m t))" and "bounded m (scv m)"
    and "bounded m (lv m k)" and "i < length (hist m x) \<Longrightarrow> bounded m (mview m x i)"
    and "i < length (hist m x) \<Longrightarrow> mview m x i x \<le> i"
  using assms by (auto simp: wf_mem_def intro: bounded_mono order_trans)

lemma last_ix_less: "hist m x \<noteq> [] \<Longrightarrow> last_ix m x < length (hist m x)"
  by (simp add: last_ix_def)

text \<open>A step between memories keeps old messages and only adds knowledge.\<close>

definition grows :: "('l, 'k, 'v) wmem \<Rightarrow> ('l, 'k, 'v) wmem \<Rightarrow> bool" where
  "grows m m' \<longleftrightarrow>
     (\<forall>t. cur m t \<le> cur m' t \<and> vacq (tv m t) \<le> vacq (tv m' t)) \<and> scv m \<le> scv m' \<and> (\<forall>k. lv m k \<le> lv m' k) \<and>
     (\<forall>x. \<exists>ys. hist m' x = hist m x @ ys)"

lemma grows_refl [simp]: "grows m m"
  by (simp add: grows_def)

lemma grows_trans [trans]: "grows m1 m2 \<Longrightarrow> grows m2 m3 \<Longrightarrow> grows m1 m3"
  unfolding grows_def by (metis append.assoc order_trans)

lemma growsD:
  assumes "grows m m'"
  shows "cur m t \<le> cur m' t" and "scv m \<le> scv m'" and "lv m k \<le> lv m' k"
    and "length (hist m x) \<le> length (hist m' x)" and "last_ix m x \<le> last_ix m' x"
    and "i < length (hist m x) \<Longrightarrow> hist m' x ! i = hist m x ! i"
    and "i < length (hist m x) \<Longrightarrow> mval m' x i = mval m x i"
    and "i < length (hist m x) \<Longrightarrow> mview m' x i = mview m x i"
    and "bounded m V \<Longrightarrow> bounded m' V" and "vacq (tv m t) \<le> vacq (tv m' t)"
proof -
  have ext: "\<exists>ys. hist m' x = hist m x @ ys" for x
    using assms by (auto simp: grows_def)
  show old: "i < length (hist m x) \<Longrightarrow> hist m' x ! i = hist m x ! i" for x i
    using ext [of x] by (auto simp: nth_append)
  show le: "length (hist m x) \<le> length (hist m' x)" for x
    using ext [of x] by auto
  show "last_ix m x \<le> last_ix m' x" for x
    using le [of x] by (simp add: last_ix_def diff_le_mono)
  then show "bounded m V \<Longrightarrow> bounded m' V"
    by (auto simp: bounded_def intro: order_trans)
  show "i < length (hist m x) \<Longrightarrow> mval m' x i = mval m x i"
    and "i < length (hist m x) \<Longrightarrow> mview m' x i = mview m x i"
    by (simp_all add: mval_def mview_def old)
qed (use assms in \<open>auto simp: grows_def\<close>)

lemma grows_load [view_simps]: "grows m (load ord t x i m)"
  by (auto simp: grows_def view_simps prim_defs Let_def le_fun_def)

lemma grows_store [view_simps]: "grows m (store ord t x a m)"
  by (auto simp: grows_def view_simps prim_defs Let_def le_fun_def)

lemma grows_rmw [view_simps]: "grows m (rmw ord t x a m)"
  by (auto simp: grows_def view_simps prim_defs Let_def le_fun_def)

lemma grows_lk_acq [view_simps]: "grows m (lk_acq t k m)"
  by (auto simp: grows_def view_simps prim_defs Let_def le_fun_def)

lemma grows_lk_rel [view_simps]: "grows m (lk_rel t k m)"
  by (auto simp: grows_def view_simps prim_defs Let_def le_fun_def)

lemma grows_fence_acq [view_simps]: "wf_mem m \<Longrightarrow> grows m (fence_acq t m)"
  by (auto simp: grows_def view_simps fence_acq_def dest: wf_memD(2))

lemma grows_fence_sc [view_simps]: "wf_mem m \<Longrightarrow> grows m (fence_sc t m)"
  by (auto simp: grows_def view_simps fence_sc_def Let_def intro: le_supI2 dest: wf_memD(2))

subsection \<open>Every operation keeps the memory well formed\<close>

lemma wf_memI:
  assumes "\<And>t. vrel (tv m t) \<le> cur m t" and "\<And>t. cur m t \<le> vacq (tv m t)"
    and "\<And>t. bounded m (vacq (tv m t))" and "bounded m (scv m)" and "\<And>k. bounded m (lv m k)"
    and "\<And>x i. i < length (hist m x) \<Longrightarrow> bounded m (mview m x i)"
    and "\<And>x i. i < length (hist m x) \<Longrightarrow> mview m x i x \<le> i"
  shows "wf_mem m"
  using assms by (auto simp: wf_mem_def)

lemma wf_same_hist:
  assumes wf: "wf_mem m" and h: "hist m' = hist m"
    and t: "\<And>u. vrel (tv m' u) \<le> cur m' u" "\<And>u. cur m' u \<le> vacq (tv m' u)"
      "\<And>u. bounded m (vacq (tv m' u))"
    and o: "bounded m (scv m')" "\<And>k. bounded m (lv m' k)"
  shows "wf_mem m'"
proof -
  have "bounded m' = bounded m" "mview m' = mview m"
    by (simp_all add: fun_eq_iff bounded_def last_ix_def mview_def h)
  then show ?thesis
    using assms wf_memD(8, 9) [OF wf] by (intro wf_memI) auto
qed

lemma wf_load [view_simps]:
  assumes wf: "wf_mem m" and i: "i < length (hist m x)"
  shows "wf_mem (load ord t x i m)"
proof -
  have "i \<le> last_ix m x"
    using i by (simp add: last_ix_def)
  then show ?thesis
    using wf_memD [OF wf] i
    by (intro wf_same_hist [OF wf])
       (auto simp: view_simps load_def Let_def intro: le_supI1 le_supI2)
qed

lemma wf_append:
  assumes wf: "wf_mem m"
    and h: "\<And>y. hist m' y = (if y = x then hist m x @ [(a, w)] else hist m y)"
    and w: "bounded m' w" "w x \<le> length (hist m x)"
    and t: "\<And>u. vrel (tv m' u) \<le> cur m' u" "\<And>u. cur m' u \<le> vacq (tv m' u)"
      "\<And>u. bounded m' (vacq (tv m' u))"
    and o: "scv m' = scv m" "lv m' = lv m"
  shows "wf_mem m'"
proof (rule wf_memI)
  have le: "last_ix m y \<le> last_ix m' y" for y
    by (simp add: last_ix_def h)
  have b: "bounded m V \<Longrightarrow> bounded m' V" for V
    by (auto simp: bounded_def intro: order_trans [OF _ le])
  show "bounded m' (scv m')" and "bounded m' (lv m' k)" for k
    by (simp_all add: o b wf_memD [OF wf])
  show "bounded m' (mview m' y i)" if "i < length (hist m' y)" for y i
    using that w(1) wf_memD(8) [OF wf, of i y]
    by (auto simp: h mview_def nth_append less_Suc_eq split: if_splits intro: b)
  show "mview m' y i y \<le> i" if "i < length (hist m' y)" for y i
    using that w(2) wf_memD(9) [OF wf, of i y]
    by (auto simp: h mview_def nth_append less_Suc_eq split: if_splits)
qed (use t in auto)

lemma wf_store [view_simps]:
  assumes wf: "wf_mem m"
  shows "wf_mem (store ord t x a m)"
proof (rule wf_append [OF wf, of _ x])
  let ?m = "store ord t x a m"
  have b: "bounded m V \<Longrightarrow> bounded ?m V" for V
    by (rule growsD(9) [OF grows_store])
  have n: "last_ix ?m x = length (hist m x)"
    by (simp add: last_ix_def view_simps)
  show "hist ?m y = (if y = x then hist m x @ [(a, if releases ord
      then sup (cur m t) (at x (length (hist m x)))
      else sup (vrel (tv m t)) (at x (length (hist m x))))] else hist m y)" for y
    by (simp add: view_simps)
  show "bounded ?m (if releases ord then sup (cur m t) (at x (length (hist m x)))
      else sup (vrel (tv m t)) (at x (length (hist m x))))"
    by (simp add: n b wf_memD [OF wf])
  have "cur m t x \<le> length (hist m x)" "vrel (tv m t) x \<le> length (hist m x)"
    using wf_memD(4, 5) [OF wf, of t] by (auto simp: bounded_def last_ix_def intro: order_trans)
  then show "(if releases ord then sup (cur m t) (at x (length (hist m x)))
      else sup (vrel (tv m t)) (at x (length (hist m x)))) x \<le> length (hist m x)"
    by simp
  show "bounded ?m (vacq (tv ?m u))" for u
    using n b wf_memD [OF wf] by (simp add: store_def Let_def)
qed (use wf_memD [OF wf] in \<open>auto simp: store_def Let_def intro: le_supI1\<close>)

lemma wf_rmw [view_simps]:
  assumes wf: "wf_mem m" and ne: "hist m x \<noteq> []"
  shows "wf_mem (rmw ord t x a m)"
proof (rule wf_append [OF wf, of _ x])
  let ?m = "rmw ord t x a m"
  have b: "bounded m V \<Longrightarrow> bounded ?m V" for V
    by (rule growsD(9) [OF grows_rmw])
  have n: "last_ix ?m x = length (hist m x)" "last_ix m x \<le> length (hist m x)"
    by (simp_all add: last_ix_def view_simps)
  have r: "bounded ?m (mview m x (last_ix m x))"
    by (rule b, rule wf_memD [OF wf], rule last_ix_less, rule ne)
  show "hist ?m y = (if y = x then hist m x @ [(a, rmw_view ord t x m)] else hist m y)" for y
    by (simp add: view_simps)
  show "bounded ?m (rmw_view ord t x m)"
    by (simp add: rmw_view_def n r b wf_memD [OF wf])
  show "bounded ?m (vacq (tv ?m u))" for u
    using n r b wf_memD [OF wf] by (simp add: rmw_def Let_def)
  have "mview m x (last_ix m x) x \<le> last_ix m x"
    using wf_memD(8) [OF wf last_ix_less [OF ne]] by (simp add: bounded_def)
  moreover have "cur m t x \<le> last_ix m x" "vrel (tv m t) x \<le> last_ix m x"
    using wf_memD(4, 5) [OF wf, of t] by (simp_all add: bounded_def)
  ultimately show "rmw_view ord t x m x \<le> length (hist m x)"
    using n(2) by (simp add: rmw_view_def)
  show "cur ?m u \<le> vacq (tv ?m u)" for u
    using wf_memD(2) [OF wf] n(2) \<open>mview m x (last_ix m x) x \<le> last_ix m x\<close>
    by (auto simp: rmw_def Let_def le_fun_def intro: max.coboundedI1 max.coboundedI2)
qed (use wf_memD [OF wf] in \<open>auto simp: rmw_def Let_def intro: le_supI1\<close>)

lemma wf_fence_sc [view_simps]:
  assumes "wf_mem m"
  shows "wf_mem (fence_sc t m)"
  using wf_memD [OF assms] by (intro wf_same_hist [OF assms]) (auto simp: fence_sc_def Let_def)

lemma wf_fence_acq [view_simps]:
  assumes "wf_mem m"
  shows "wf_mem (fence_acq t m)"
  using wf_memD [OF assms]
  by (intro wf_same_hist [OF assms]) (auto simp: fence_acq_def intro: order_trans)

lemma wf_lk_acq [view_simps]:
  assumes "wf_mem m"
  shows "wf_mem (lk_acq t k m)"
  using wf_memD [OF assms] by (intro wf_same_hist [OF assms]) (auto simp: lk_acq_def intro: le_supI1)

lemma wf_lk_rel [view_simps]:
  assumes "wf_mem m"
  shows "wf_mem (lk_rel t k m)"
  using wf_memD [OF assms] by (intro wf_same_hist [OF assms]) (auto simp: lk_rel_def intro: le_supI1)

end
