(* ===== verification/Rcu_State.thy ===== *)
theory Rcu_State
  imports Thread_State Weak_Memory
begin

text \<open>
  The state the whole crate works on: the statics of \<open>rcu_core\<close> (as locations of the weak memory
  and as lock-protected fields), the threads with their position inside a runtime hook, and the
  running \<open>synchronize_rcu\<close> futures with their local variables. The field \<open>accs\<close> and the field
  \<open>call_view\<close> are auxiliary: no step reads them, they record what the theorems speak about.
\<close>

subsection \<open>Memory locations, values and locks\<close>

text \<open>
  \<open>LEpoch\<close> and \<open>LHasSub\<close> are the fields of \<open>QS_READ_MOSTLY_DATA\<close>; \<open>LSlot i\<close> and \<open>LLen\<close> the state word of
  slot \<open>i\<close> and the length of the storage slots buffer; \<open>LNum\<close> is \<open>NUM_NOTIFICATIONS\<close>; \<open>LStarted\<close> and
  \<open>LFinished\<close> the two grace period counters; \<open>LPtr b\<close> the pointer inside \<open>RcuBox\<close> number \<open>b\<close>.
  \<open>LClk t\<close> is private to thread \<open>t\<close>: its messages are the thread's accesses to protected data, so that
  a view of \<open>LClk t\<close> says which of these accesses happen before.
\<close>

datatype loc = LEpoch | LSlot nat | LLen | LHasSub | LNum | LStarted | LFinished | LPtr nat | LClk tid

datatype ('e, 'g) val =
    VEpoch (val_epoch: 'e)
  | VGp (val_gp: 'g)
  | VLen (val_len: nat)
  | VBool (val_bool: bool)
  | VNum (val_num: usize)
  | VPtr (val_ptr: nat)
  | VAccess

text \<open>
  \<open>LkSlots\<close>: the write lock of the storage slots; \<open>LkCurW\<close>, \<open>LkCurR\<close>: what the writers and the readers of
  the \<open>cur_data\<close> lock publish; \<open>LkInfoW\<close>, \<open>LkInfoR\<close>: the same for \<open>SUBSCRIBER_INFO\<close>; \<open>LkMutex\<close>:
  \<open>GP_SERIALIZATION_MUTEX\<close>; \<open>LkRstW\<close>, \<open>LkRstR\<close>: \<open>GP_COUNTERS_RESET_SYNC_LOCK\<close>; \<open>LkDone\<close>:
  \<open>GP_COUNTERS_RESET_DONE\<close>; \<open>LkTask o\<close>: the executor's hand-over of a suspended future to the thread
  that polls it next.
\<close>

datatype lock =
  LkSlots | LkCurW | LkCurR | LkInfoW | LkInfoR | LkMutex | LkRstW | LkRstR | LkDone | LkTask nat

subsection \<open>Threads\<close>

datatype hook = BeforePoll | Unpark | AfterPoll | Park | Stop

datatype notify_pc = NLoad | NAdd | NRead | NWrite | NClear

text \<open>
  Where a thread is: in the scheduler between two polls (\<open>Idle\<close>), asleep (\<open>Parked\<close>), inside a poll of a
  future (\<open>Polling\<close>), gone (\<open>Stopped\<close>), or inside a hook, before the atomic operation the constructor names.
\<close>

datatype 'e tpc =
    Idle | Parked | Polling | Stopped
  | StartFence hook | StartLoad hook | StartStore hook 'e
  | AfterLoad 'e | AfterStore 'e 'e
  | NotifyFence hook | Notifying hook notify_pc

text \<open>
  \<open>tslot\<close> is the thread local \<open>THREAD_STORAGE_SLOT\<close>; \<open>held\<close> the references obtained by \<open>RcuBox::read\<close>
  under the current guards, as box and message index; \<open>tops\<close> the futures being polled on the thread.
\<close>

record 'e thread =
  tpc :: "'e tpc"
  tslot :: "nat option"
  held :: "(nat \<times> nat) set"
  tops :: "nat set"

text \<open>One access to protected data: by whom, through which slot, to which version of which box,
  the access clock, and how many state words the slot had seen by then.\<close>

record access =
  a_tid :: tid
  a_slot :: nat
  a_box :: nat
  a_ts :: nat
  a_clk :: nat
  a_idx :: nat

subsection \<open>Futures\<close>

text \<open>The three calls of \<open>wait_for_running_threads_to_see_epoch_id\<close>.\<close>

datatype 'e wait = WNoOverflow 'e | WReset | WAfterReset

text \<open>\<open>EpochIdNotificationsSubscriber\<close>.\<close>

record subscriber =
  num_notifications_snapshot :: usize
  had_already_registered :: bool
  did_someone_consume_my_subscriber_info :: bool

datatype 'e opc =
    ONone | OReadLock | OInc
  | OLdrDrop | OLdrWrite | OLdrZeroStarted | OLdrZeroFinished | OLdrUnlock | OLdrNotify
  | OSlvListen | OSlvDrop | OSlvWait
  | OLock | OChk | OFinFence | OLoadStarted
  | OLoadEpoch | OSetEpoch 'e | OReset
  | OSub | OSnap | OFence | OTid | OScanBegin | OScan | OScanEnd bool
  | OPoll1 | OReady | OReg | ORegW bool bool | OPoll2 | OPend
  | ODrop bool | ODropInfo bool
  | OSetAfterReset | OPub | OUnlock | ORstDrop | OReturned | OFinished

record ('e, 'g) oper =
  opc :: "'e opc"
  attached :: "tid option"
  olds :: "(nat \<times> nat) set"
  call_view :: "loc view"
  my_gp_counter :: 'g
  gp_started_counter :: 'g
  wait_for :: "'e wait"
  subscr :: subscriber
  this_slot :: nat
  scan_pos :: nat
  scan_len :: nat

subsection \<open>The system\<close>

record ('e, 'g) sys =
  mem :: "(loc, lock, ('e, 'g) val) wmem"
  thr :: "tid \<Rightarrow> 'e thread"
  ops :: "nat \<Rightarrow> ('e, 'g) oper"
  free_slots :: "nat list"
  subscriber_info :: "(nat \<times> tid) option"
  info_writer :: "tid option"
  gp_mutex :: "nat option"
  rst_readers :: "nat set"
  rst_writer :: "nat option"
  rst_waiters :: "nat set"
  woken :: "nat set"
  old_data :: "(nat \<times> nat) set"
  freed :: "(nat \<times> nat) set"
  accs :: "access set"

type_synonym ('w, 'g) rcu = "('w word, 'g word) sys"

definition set_tpc :: "tid \<Rightarrow> 'e tpc \<Rightarrow> ('e, 'g) sys \<Rightarrow> ('e, 'g) sys" where
  "set_tpc t p s = s\<lparr>thr := (thr s)(t := (thr s t)\<lparr>tpc := p\<rparr>)\<rparr>"

definition set_tslot :: "tid \<Rightarrow> nat option \<Rightarrow> ('e, 'g) sys \<Rightarrow> ('e, 'g) sys" where
  "set_tslot t p s = s\<lparr>thr := (thr s)(t := (thr s t)\<lparr>tslot := p\<rparr>)\<rparr>"

definition upd_op ::
    "nat \<Rightarrow> (('e, 'g) oper \<Rightarrow> ('e, 'g) oper) \<Rightarrow> ('e, 'g) sys \<Rightarrow> ('e, 'g) sys" where
  "upd_op q f s = s\<lparr>ops := (ops s)(q := f (ops s q))\<rparr>"

definition set_opc :: "nat \<Rightarrow> 'e opc \<Rightarrow> ('e, 'g) sys \<Rightarrow> ('e, 'g) sys" where
  "set_opc q p s = upd_op q (\<lambda>r. r\<lparr>opc := p\<rparr>) s"

definition on_mem ::
    "((loc, lock, ('e, 'g) val) wmem \<Rightarrow> (loc, lock, ('e, 'g) val) wmem) \<Rightarrow>
     ('e, 'g) sys \<Rightarrow> ('e, 'g) sys" where
  "on_mem f s = s\<lparr>mem := f (mem s)\<rparr>"

lemmas upd_defs = set_tpc_def set_tslot_def upd_op_def set_opc_def on_mem_def

text \<open>\<open>this_thread_does_have_allocated_storage_slot\<close>, which is also \<open>is_rcu_tracked_thread\<close>.\<close>

definition is_rcu_tracked_thread :: "tid \<Rightarrow> ('e, 'g) sys \<Rightarrow> bool" where
  "is_rcu_tracked_thread t s \<longleftrightarrow> tslot (thr s t) \<noteq> None"

subsection \<open>The initial state\<close>

definition init_mem ::
    "'e \<Rightarrow> (nat \<Rightarrow> nat) \<Rightarrow> (loc, lock, ('e, 'g::zero) val) wmem" where
  "init_mem e0 addr =
     \<lparr>hist = (\<lambda>x. case x of
        LEpoch \<Rightarrow> [(VEpoch e0, \<lambda>_. 0)] | LSlot _ \<Rightarrow> [] | LLen \<Rightarrow> [(VLen 0, \<lambda>_. 0)]
      | LHasSub \<Rightarrow> [(VBool False, \<lambda>_. 0)] | LNum \<Rightarrow> [(VNum 0, \<lambda>_. 0)]
      | LStarted \<Rightarrow> [(VGp 0, \<lambda>_. 0)] | LFinished \<Rightarrow> [(VGp 0, \<lambda>_. 0)]
      | LPtr b \<Rightarrow> [(VPtr (addr b), \<lambda>_. 0)] | LClk _ \<Rightarrow> [(VAccess, \<lambda>_. 0)]),
      tv = (\<lambda>_. \<lparr>vcur = (\<lambda>_. 0), vacq = (\<lambda>_. 0), vrel = (\<lambda>_. 0)\<rparr>),
      scv = (\<lambda>_. 0), lv = (\<lambda>_ _. 0)\<rparr>"

definition init_oper :: "('e, 'g::zero) oper" where
  "init_oper = \<lparr>opc = ONone, attached = None, olds = {}, call_view = (\<lambda>_. 0), my_gp_counter = 0,
     gp_started_counter = 0, wait_for = WReset, subscr = \<lparr>num_notifications_snapshot = 0,
     had_already_registered = False, did_someone_consume_my_subscriber_info = False\<rparr>,
     this_slot = 0, scan_pos = 0, scan_len = 0\<rparr>"

text \<open>
  \<open>e0\<close> is the initial epoch id (\<open>initial_epoch\<close> in the crate; the loom tests start from others with
  \<open>epoch_id_set\<close>), \<open>addr b\<close> the address of the first allocation in box \<open>b\<close>.
\<close>

definition init_sys :: "'e \<Rightarrow> (nat \<Rightarrow> nat) \<Rightarrow> ('e, 'g::zero) sys" where
  "init_sys e0 addr =
     \<lparr>mem = init_mem e0 addr,
      thr = (\<lambda>_. \<lparr>tpc = Idle, tslot = None, held = {}, tops = {}\<rparr>),
      ops = (\<lambda>_. init_oper), free_slots = [], subscriber_info = None, info_writer = None,
      gp_mutex = None, rst_readers = {}, rst_writer = None, rst_waiters = {}, woken = {},
      old_data = {}, freed = {}, accs = {}\<rparr>"

end
