(* ===== verification/Hooks.thy ===== *)
theory Hooks
  imports Rcu_State
begin

text \<open>
  The runtime hooks of \<open>src/src/rcu_core/mod.rs\<close>, the thread's slot in
  \<open>src/src/rcu_core/per_thread_storage\<close> and the notifier of
  \<open>src/src/rcu_core/epoch_id_update_notifications.rs\<close>, one atomic operation at a time.

  Each hook is a function of the thread's position: it performs the atomic operation the thread is
  about to do and moves on, and is \<open>None\<close> where the hook has no such operation, blocks, or
  panics: an index out of bounds, an \<open>unwrap\<close> or a debug assertion that fails. The argument \<open>i\<close> resolves
  what the source leaves open: the index of the message a load returns, and, for the push of a new slot,
  whether the vector has to grow.
\<close>

subsection \<open>The slice of slots\<close>

text \<open>
  \<open>thread_storage_slot_get_all()[sl]\<close>: takes the read guard, loads the length of the slice with
  acquire ordering, checks the index, works on the slot and drops the guard. \<open>on_thread_unpark\<close> and
  \<open>on_after_task_poll\<close> index once and keep the guard over several accesses; here the later accesses index again,
  which allows the runs of the code and those in which the vector grows in between.
\<close>

definition with_slot ::
    "tid \<Rightarrow> nat \<Rightarrow> nat \<Rightarrow> (('e, 'g) sys \<Rightarrow> ('e, 'g) sys) \<Rightarrow> ('e, 'g) sys \<Rightarrow> ('e, 'g) sys option" where
  "with_slot t i sl body s =
     (let s1 = on_mem (lk_acq t LkCurW) s
      in if readable t LLen i (mem s1) \<and> sl < val_len (mval (mem s1) LLen i)
         then Some (on_mem (lk_rel t LkCurR) (body (on_mem (load Acquire t LLen i) s1)))
         else None)"

text \<open>The number of values of \<open>NonZeroU16\<close>, the type inside \<open>ThreadStorageSlotId\<close>.\<close>

definition max_slots :: nat where
  "max_slots = 65535"

text \<open>
  \<open>ThreadStorageSlots::alloc\<close> under the write lock: pop a free slot and overwrite its state, or push a
  new one. A push that fits publishes the new length with release ordering; one that does not takes
  the \<open>cur_data\<close> lock for writing while it replaces the buffer.
\<close>

definition alloc_from_free_slot ::
    "tid \<Rightarrow> nat \<Rightarrow> 'e \<Rightarrow> ('e, 'g) sys \<Rightarrow> ('e, 'g) sys" where
  "alloc_from_free_slot t sl a s =
     on_mem (store Release t (LSlot sl) (VEpoch a)) (s\<lparr>free_slots := butlast (free_slots s)\<rparr>)"

definition slots_len :: "('e, 'g) sys \<Rightarrow> nat" where
  "slots_len s = val_len (mval (mem s) LLen (last_ix (mem s) LLen))"

definition init_slot :: "nat \<Rightarrow> 'e \<Rightarrow> ('e, 'g) sys \<Rightarrow> ('e, 'g) sys" where
  "init_slot sl a s =
     on_mem (\<lambda>m. m\<lparr>hist := (hist m)(LSlot sl := hist m (LSlot sl) @ [(VEpoch a, \<lambda>_. 0)])\<rparr>) s"

definition alloc_no_free_slots ::
    "tid \<Rightarrow> bool \<Rightarrow> 'e \<Rightarrow> ('e, 'g) sys \<Rightarrow> ('e, 'g) sys" where
  "alloc_no_free_slots t grow a s =
     (let sl = slots_len s;
          s1 = (if grow then on_mem (\<lambda>m. lk_acq t LkCurR (lk_acq t LkCurW m)) s else s);
          s2 = on_mem (store Release t LLen (VLen (Suc sl))) (init_slot sl a s1)
      in if grow then on_mem (lk_rel t LkCurW) s2 else s2)"

definition alloc_slot ::
    "tid \<Rightarrow> bool \<Rightarrow> 'e \<Rightarrow> ('e, 'g) sys \<Rightarrow> ('e, 'g) sys option" where
  "alloc_slot t grow a s =
     (let s1 = on_mem (lk_acq t LkSlots) s
      in if free_slots s \<noteq> []
         then let sl = last (free_slots s)
              in Some (on_mem (lk_rel t LkSlots)
                   (set_tslot t (Some sl) (alloc_from_free_slot t sl a s1)))
         else if slots_len s < max_slots
         then Some (on_mem (lk_rel t LkSlots)
                (set_tslot t (Some (slots_len s)) (alloc_no_free_slots t grow a s1)))
         else None)"

text \<open>
  \<open>ThreadStorageSlots::dealloc\<close>, called by \<open>OwnedThreadStorageSlot::dealloc\<close>, with an index that is in bounds.
\<close>

definition dealloc_slot :: "tid \<Rightarrow> nat \<Rightarrow> ('w::len, 'g::len) rcu \<Rightarrow> ('w, 'g) rcu" where
  "dealloc_slot t sl s =
     on_mem (lk_rel t LkSlots)
       (set_tslot t None
         ((on_mem (\<lambda>m. store Release t (LSlot sl) (VEpoch NONE_ENCODED_VALUE) (lk_acq t LkSlots m)) s)
            \<lparr>free_slots := free_slots s @ [sl]\<rparr>))"

subsection \<open>Notifying the subscriber\<close>

fun after_hook :: "hook \<Rightarrow> 'e tpc" where
  "after_hook BeforePoll = Polling"
| "after_hook Unpark = Idle"
| "after_hook AfterPoll = Idle"
| "after_hook Park = Parked"
| "after_hook Stop = Stopped"

text \<open>
  \<open>thread_epoch_updated_notify_inner\<close>. \<open>NWrite\<close> takes the write lock, checks again, takes the waker out
  and wakes it; \<open>NClear\<close> resets the flag while the write lock is still held.
\<close>

fun thread_epoch_updated_notify_inner ::
    "bool \<Rightarrow> hook \<Rightarrow> notify_pc \<Rightarrow> tid \<Rightarrow> nat \<Rightarrow> ('e, 'g) sys \<Rightarrow> ('e, 'g) sys option" where
  "thread_epoch_updated_notify_inner skip h NLoad t i s =
     (if readable t LHasSub i (mem s)
      then Some (set_tpc t (if val_bool (mval (mem s) LHasSub i) then Notifying h NAdd else after_hook h)
                  (on_mem (load Relaxed t LHasSub i) s))
      else None)"
| "thread_epoch_updated_notify_inner skip h NAdd t i s =
     Some (set_tpc t (Notifying h NRead)
       (on_mem (rmw Release t LNum
          (VNum (val_num (mval (mem s) LNum (last_ix (mem s) LNum)) + 1))) s))"
| "thread_epoch_updated_notify_inner skip h NRead t i s =
     (if info_writer s = None
      then Some (set_tpc t
          (case subscriber_info s of
             None \<Rightarrow> after_hook h
           | Some (w, u) \<Rightarrow> if skip \<and> u = t then after_hook h else Notifying h NWrite)
          (on_mem (\<lambda>m. lk_rel t LkInfoR (lk_acq t LkInfoW m)) s))
      else None)"
| "thread_epoch_updated_notify_inner skip h NWrite t i s =
     (if info_writer s = None
      then let s1 = on_mem (\<lambda>m. lk_acq t LkInfoR (lk_acq t LkInfoW m)) s
           in (case subscriber_info s of
                 None \<Rightarrow> Some (set_tpc t (after_hook h) (on_mem (lk_rel t LkInfoW) s1))
               | Some (w, u) \<Rightarrow>
                   if skip \<and> u = t
                   then Some (set_tpc t (after_hook h) (on_mem (lk_rel t LkInfoW) s1))
                   else Some (set_tpc t (Notifying h NClear)
                          (s1\<lparr>subscriber_info := None, woken := insert w (woken s), info_writer := Some t\<rparr>)))
      else None)"
| "thread_epoch_updated_notify_inner skip h NClear t i s =
     Some (set_tpc t (after_hook h)
       ((on_mem (\<lambda>m. lk_rel t LkInfoW (store Relaxed t LHasSub (VBool False) m)) s)
          \<lparr>info_writer := None\<rparr>))"

subsection \<open>Steps that several hooks share\<close>

definition start_fence :: "hook \<Rightarrow> tid \<Rightarrow> ('e, 'g) sys \<Rightarrow> ('e, 'g) sys" where
  "start_fence h t s = set_tpc t (StartLoad h) (on_mem (fence_sc t) s)"

text \<open>The accessors of the epoch id, which simplification replaces by the atomic operations they are.\<close>

definition epoch_id_get ::
    "ordering \<Rightarrow> tid \<Rightarrow> nat \<Rightarrow> (loc, lock, ('e, 'g) val) wmem \<Rightarrow> (loc, lock, ('e, 'g) val) wmem" where
  [simp]: "epoch_id_get order t i = load order t LEpoch i"

definition epoch_id_set ::
    "'e \<Rightarrow> ordering \<Rightarrow> tid \<Rightarrow> (loc, lock, ('e, 'g) val) wmem \<Rightarrow> (loc, lock, ('e, 'g) val) wmem" where
  [simp]: "epoch_id_set new_value order t = store order t LEpoch (VEpoch new_value)"

definition this_thread_see_new_epoch_id ::
    "('e \<Rightarrow> 'e tpc) \<Rightarrow> tid \<Rightarrow> nat \<Rightarrow> ('e, 'g) sys \<Rightarrow> ('e, 'g) sys option" where
  "this_thread_see_new_epoch_id next_pc t i s =
     (if readable t LEpoch i (mem s)
      then Some (set_tpc t (next_pc (val_epoch (mval (mem s) LEpoch i)))
                  (on_mem (epoch_id_get Acquire t i) s))
      else None)"

text \<open>A store of an encoded state; \<open>encode\<close> checks its two debug assertions.\<close>

definition set_state ::
    "tid \<Rightarrow> nat \<Rightarrow> 'w::len word thread_state \<Rightarrow> 'w word tpc \<Rightarrow>
     ('w, 'g::len) rcu \<Rightarrow> ('w, 'g) rcu option" where
  "set_state t i st p s =
     (case tslot (thr s t) of
        None \<Rightarrow> None
      | Some sl \<Rightarrow>
          if encode_asserts st
          then with_slot t i sl
            (\<lambda>s. set_tpc t p (on_mem (store Release t (LSlot sl) (VEpoch (encode st))) s)) s
          else None)"

definition notify_fence :: "hook \<Rightarrow> tid \<Rightarrow> ('e, 'g) sys \<Rightarrow> ('e, 'g) sys" where
  "notify_fence h t s = set_tpc t (Notifying h NLoad) (on_mem (fence_sc t) s)"

abbreviation busy_state :: "'w::len word \<Rightarrow> 'w word thread_state" where
  "busy_state e \<equiv> \<lparr>last_seen_epoch_id = e, is_busy = True\<rparr>"

subsection \<open>The hooks\<close>

fun on_before_task_poll ::
    "'w::len word tpc \<Rightarrow> tid \<Rightarrow> nat \<Rightarrow> ('w, 'g::len) rcu \<Rightarrow> ('w, 'g) rcu option" where
  "on_before_task_poll Idle t i s =
     (if is_rcu_tracked_thread t s then Some (set_tpc t Polling s)
      else map_option (set_tpc t (StartFence BeforePoll)) (alloc_slot t (i \<noteq> 0) (encode (busy_state 0)) s))"
| "on_before_task_poll (StartFence BeforePoll) t i s = Some (start_fence BeforePoll t s)"
| "on_before_task_poll (StartLoad BeforePoll) t i s =
     this_thread_see_new_epoch_id (StartStore BeforePoll) t i s"
| "on_before_task_poll (StartStore BeforePoll e) t i s =
     set_state t i (busy_state e) (NotifyFence BeforePoll) s"
| "on_before_task_poll (NotifyFence BeforePoll) t i s = Some (notify_fence BeforePoll t s)"
| "on_before_task_poll (Notifying BeforePoll n) t i s =
     thread_epoch_updated_notify_inner False BeforePoll n t i s"
| "on_before_task_poll _ t i s = None"

fun on_thread_unpark ::
    "'w::len word tpc \<Rightarrow> tid \<Rightarrow> nat \<Rightarrow> ('w, 'g::len) rcu \<Rightarrow> ('w, 'g) rcu option" where
  "on_thread_unpark Parked t i s =
     (if \<not> is_rcu_tracked_thread t s then Some (set_tpc t Idle s)
      else set_state t i (busy_state 0) (StartFence Unpark) s)"
| "on_thread_unpark (StartFence Unpark) t i s = Some (start_fence Unpark t s)"
| "on_thread_unpark (StartLoad Unpark) t i s =
     this_thread_see_new_epoch_id (StartStore Unpark) t i s"
| "on_thread_unpark (StartStore Unpark e) t i s =
     set_state t i (busy_state e) (NotifyFence Unpark) s"
| "on_thread_unpark (NotifyFence Unpark) t i s = Some (notify_fence Unpark t s)"
| "on_thread_unpark (Notifying Unpark n) t i s =
     thread_epoch_updated_notify_inner False Unpark n t i s"
| "on_thread_unpark _ t i s = None"

text \<open>
  \<open>on_after_task_poll\<close> runs when the poll has returned, so no future is being polled on the thread and
  no read lock guard is alive on it: guards cannot outlive the poll they were created in. The \<open>unwrap\<close> and the
  debug assertion on the previous state come after the store; both are part of the step of the store.
\<close>

definition load_own_state ::
    "'w::len word \<Rightarrow> tid \<Rightarrow> nat \<Rightarrow> ('w, 'g::len) rcu \<Rightarrow> ('w, 'g) rcu option" where
  "load_own_state e t i s =
     (case tslot (thr s t) of
        None \<Rightarrow> None
      | Some sl \<Rightarrow>
          if readable t (LSlot sl) i (mem s)
          then Some (set_tpc t (AfterStore e (val_epoch (mval (mem s) (LSlot sl) i)))
                      (on_mem (load Relaxed t (LSlot sl) i) s))
          else None)"

fun on_after_task_poll ::
    "'w::len word tpc \<Rightarrow> tid \<Rightarrow> nat \<Rightarrow> ('w, 'g::len) rcu \<Rightarrow> ('w, 'g) rcu option" where
  "on_after_task_poll Polling t i s =
     (if held (thr s t) = {} \<and> tops (thr s t) = {}
      then this_thread_see_new_epoch_id AfterLoad t i s else None)"
| "on_after_task_poll (AfterLoad e) t i s = load_own_state e t i s"
| "on_after_task_poll (AfterStore e prev) t i s =
     (case decode prev of
        None \<Rightarrow> None
      | Some prev_state \<Rightarrow>
          if is_busy prev_state
          then set_state t i (busy_state e)
            (if last_seen_epoch_id prev_state \<noteq> e then NotifyFence AfterPoll else Idle) s
          else None)"
| "on_after_task_poll (NotifyFence AfterPoll) t i s = Some (notify_fence AfterPoll t s)"
| "on_after_task_poll (Notifying AfterPoll n) t i s =
     thread_epoch_updated_notify_inner False AfterPoll n t i s"
| "on_after_task_poll _ t i s = None"

definition clear_own_busy :: "tid \<Rightarrow> nat \<Rightarrow> ('w::len, 'g::len) rcu \<Rightarrow> ('w, 'g) rcu option" where
  "clear_own_busy t i s =
     (case tslot (thr s t) of
        None \<Rightarrow> None
      | Some sl \<Rightarrow> with_slot t i sl
          (\<lambda>s. set_tpc t (NotifyFence Park) (on_mem (\<lambda>m. rmw Relaxed t (LSlot sl)
             (VEpoch (clear_busy (val_epoch (mval m (LSlot sl) (last_ix m (LSlot sl)))))) m) s)) s)"

fun on_thread_park ::
    "'w::len word tpc \<Rightarrow> tid \<Rightarrow> nat \<Rightarrow> ('w, 'g::len) rcu \<Rightarrow> ('w, 'g) rcu option" where
  "on_thread_park Idle t i s =
     (if \<not> is_rcu_tracked_thread t s then Some (set_tpc t Parked s) else clear_own_busy t i s)"
| "on_thread_park (NotifyFence Park) t i s = Some (notify_fence Park t s)"
| "on_thread_park (Notifying Park n) t i s = thread_epoch_updated_notify_inner True Park n t i s"
| "on_thread_park _ t i s = None"

fun on_thread_stop ::
    "'w::len word tpc \<Rightarrow> tid \<Rightarrow> nat \<Rightarrow> ('w, 'g::len) rcu \<Rightarrow> ('w, 'g) rcu option" where
  "on_thread_stop Idle t i s =
     (case tslot (thr s t) of
        None \<Rightarrow> Some (set_tpc t Stopped s)
      | Some sl \<Rightarrow>
          if sl < slots_len s then Some (set_tpc t (NotifyFence Stop) (dealloc_slot t sl s)) else None)"
| "on_thread_stop (NotifyFence Stop) t i s = Some (notify_fence Stop t s)"
| "on_thread_stop (Notifying Stop n) t i s = thread_epoch_updated_notify_inner False Stop n t i s"
| "on_thread_stop _ t i s = None"

fun run_hook ::
    "hook \<Rightarrow> tid \<Rightarrow> nat \<Rightarrow> ('w::len, 'g::len) rcu \<Rightarrow> ('w, 'g) rcu option" where
  "run_hook BeforePoll t i s = on_before_task_poll (tpc (thr s t)) t i s"
| "run_hook Unpark t i s = on_thread_unpark (tpc (thr s t)) t i s"
| "run_hook AfterPoll t i s = on_after_task_poll (tpc (thr s t)) t i s"
| "run_hook Park t i s = on_thread_park (tpc (thr s t)) t i s"
| "run_hook Stop t i s = on_thread_stop (tpc (thr s t)) t i s"

end
