(* ===== verification/Synchronize.thy ===== *)
theory Synchronize
  imports Hooks
begin

text \<open>
  The futures of \<open>src/src/rcu_core/mod.rs\<close> (\<open>synchronize_rcu\<close> and the functions it awaits) and the subscriber
  of \<open>src/src/rcu_core/epoch_id_update_notifications.rs\<close>, one atomic operation at a time.

  Every step is taken by the thread \<open>t\<close> that polls the future \<open>q\<close>. \<open>i\<close> is the index of the message a
  load returns, \<open>wk\<close> the waker in the context of the current poll. A step is \<open>None\<close> where the future
  is not at that operation, or has to wait.
\<close>

subsection \<open>The grace period counters\<close>

definition gp_max :: "'g::len word" where
  "gp_max = - 1"

definition checked_add_one :: "'g::len word \<Rightarrow> 'g word option" where
  "checked_add_one v = (if v = gp_max then None else Some (v + 1))"

definition read_lock_reset ::
    "nat \<Rightarrow> tid \<Rightarrow> ('w::len, 'g::len) rcu \<Rightarrow> ('w, 'g) rcu option" where
  "read_lock_reset q t s =
     (if rst_writer s = None
      then Some (set_opc q OInc
             ((on_mem (lk_acq t LkRstW) s)\<lparr>rst_readers := insert q (rst_readers s)\<rparr>))
      else None)"

definition drop_read_guard ::
    "'w word opc \<Rightarrow> nat \<Rightarrow> tid \<Rightarrow> ('w::len, 'g::len) rcu \<Rightarrow> ('w, 'g) rcu" where
  "drop_read_guard p q t s =
     set_opc q p ((on_mem (lk_rel t LkRstR) s)\<lparr>rst_readers := rst_readers s - {q}\<rparr>)"

text \<open>
  \<open>GP_STARTED_COUNTER.try_update(Release, Relaxed, |v| v.checked_add(1))\<close>: succeeds on the last
  message, or fails on one that holds the maximum.
\<close>

definition inc_gp_started ::
    "nat \<Rightarrow> tid \<Rightarrow> nat \<Rightarrow> ('w::len, 'g::len) rcu \<Rightarrow> ('w, 'g) rcu option" where
  "inc_gp_started q t i s =
     (if readable t LStarted i (mem s)
      then (case checked_add_one (val_gp (mval (mem s) LStarted i)) of
              None \<Rightarrow> Some (set_opc q OSlvListen (on_mem (load Relaxed t LStarted i) s))
            | Some my \<Rightarrow>
                if i = last_ix (mem s) LStarted
                then Some (upd_op q (\<lambda>r. r\<lparr>opc := if my = gp_max then OLdrDrop else OLock,
                                          my_gp_counter := my\<rparr>)
                       (on_mem (rmw Release t LStarted (VGp my)) s))
                else None)
      else None)"

text \<open>The leader of a reset: it raised the counter to the maximum.\<close>

fun reset_leader ::
    "'w::len word opc \<Rightarrow> nat \<Rightarrow> tid \<Rightarrow> ('w, 'g::len) rcu \<Rightarrow> ('w, 'g) rcu option" where
  "reset_leader OLdrDrop q t s = Some (drop_read_guard OLdrWrite q t s)"
| "reset_leader OLdrWrite q t s =
     (if rst_writer s = None \<and> rst_readers s = {}
      then Some (set_opc q OLdrZeroStarted
             ((on_mem (\<lambda>m. lk_acq t LkRstR (lk_acq t LkRstW m)) s)\<lparr>rst_writer := Some q\<rparr>))
      else None)"
| "reset_leader OLdrZeroStarted q t s =
     Some (set_opc q OLdrZeroFinished (on_mem (store Relaxed t LStarted (VGp 0)) s))"
| "reset_leader OLdrZeroFinished q t s =
     Some (set_opc q OLdrUnlock (on_mem (store Relaxed t LFinished (VGp 0)) s))"
| "reset_leader OLdrUnlock q t s =
     Some (set_opc q OLdrNotify ((on_mem (lk_rel t LkRstW) s)\<lparr>rst_writer := None\<rparr>))"
| "reset_leader OLdrNotify q t s =
     Some (set_opc q OReadLock ((on_mem (lk_rel t LkDone) s)\<lparr>rst_waiters := {}\<rparr>))"
| "reset_leader _ q t s = None"

text \<open>A follower: it found the counter at the maximum, listens, lets the leader in and waits.\<close>

fun reset_follower ::
    "'w::len word opc \<Rightarrow> nat \<Rightarrow> tid \<Rightarrow> ('w, 'g::len) rcu \<Rightarrow> ('w, 'g) rcu option" where
  "reset_follower OSlvListen q t s =
     Some (set_opc q OSlvDrop
       ((on_mem (lk_acq t LkDone) s)\<lparr>rst_waiters := insert q (rst_waiters s)\<rparr>))"
| "reset_follower OSlvDrop q t s = Some (drop_read_guard OSlvWait q t s)"
| "reset_follower OSlvWait q t s =
     (if q \<notin> rst_waiters s then Some (set_opc q OReadLock (on_mem (lk_acq t LkDone) s)) else None)"
| "reset_follower _ q t s = None"

definition lock_gp_mutex ::
    "nat \<Rightarrow> tid \<Rightarrow> ('w::len, 'g::len) rcu \<Rightarrow> ('w, 'g) rcu option" where
  "lock_gp_mutex q t s =
     (if gp_mutex s = None
      then Some (set_opc q OChk ((on_mem (lk_acq t LkMutex) s)\<lparr>gp_mutex := Some q\<rparr>)) else None)"

definition check_gp_finished ::
    "nat \<Rightarrow> tid \<Rightarrow> nat \<Rightarrow> ('w::len, 'g::len) rcu \<Rightarrow> ('w, 'g) rcu option" where
  "check_gp_finished q t i s =
     (if readable t LFinished i (mem s)
      then Some (set_opc q
             (if my_gp_counter (ops s q) \<le> val_gp (mval (mem s) LFinished i)
              then OFinFence else OLoadStarted)
             (on_mem (load Relaxed t LFinished i) s))
      else None)"

definition load_gp_started ::
    "nat \<Rightarrow> tid \<Rightarrow> nat \<Rightarrow> ('w::len, 'g::len) rcu \<Rightarrow> ('w, 'g) rcu option" where
  "load_gp_started q t i s =
     (if readable t LStarted i (mem s)
      then Some (upd_op q (\<lambda>r. r\<lparr>opc := OLoadEpoch,
                                gp_started_counter := val_gp (mval (mem s) LStarted i)\<rparr>)
             (on_mem (load Acquire t LStarted i) s))
      else None)"

fun synchronize_rcu ::
    "'w::len word opc \<Rightarrow> nat \<Rightarrow> tid \<Rightarrow> nat \<Rightarrow> ('w, 'g::len) rcu \<Rightarrow> ('w, 'g) rcu option" where
  "synchronize_rcu OReadLock q t i s = read_lock_reset q t s"
| "synchronize_rcu OInc q t i s = inc_gp_started q t i s"
| "synchronize_rcu OLock q t i s = lock_gp_mutex q t s"
| "synchronize_rcu OChk q t i s = check_gp_finished q t i s"
| "synchronize_rcu OFinFence q t i s = Some (set_opc q OUnlock (on_mem (fence_acq t) s))"
| "synchronize_rcu OLoadStarted q t i s = load_gp_started q t i s"
| "synchronize_rcu OPub q t i s =
     Some (set_opc q OUnlock
       (on_mem (store Release t LFinished (VGp (gp_started_counter (ops s q)))) s))"
| "synchronize_rcu OUnlock q t i s =
     Some (set_opc q ORstDrop ((on_mem (lk_rel t LkMutex) s)\<lparr>gp_mutex := None\<rparr>))"
| "synchronize_rcu ORstDrop q t i s = Some (drop_read_guard OReturned q t s)"
| "synchronize_rcu p q t i s =
     (case reset_leader p q t s of None \<Rightarrow> reset_follower p q t s | Some s' \<Rightarrow> Some s')"

subsection \<open>Changing the epoch id\<close>

fun synchronize_rcu_serialized ::
    "'w::len word opc \<Rightarrow> nat \<Rightarrow> tid \<Rightarrow> nat \<Rightarrow> ('w, 'g::len) rcu \<Rightarrow> ('w, 'g) rcu option" where
  "synchronize_rcu_serialized OLoadEpoch q t i s =
     (if readable t LEpoch i (mem s)
      then let orig_epoch_id = val_epoch (mval (mem s) LEpoch i)
           in Some (set_opc q (if orig_epoch_id = EPOCH_ID_MAX then OReset else OSetEpoch orig_epoch_id)
                (on_mem (epoch_id_get Relaxed t i) s))
      else None)"
| "synchronize_rcu_serialized (OSetEpoch orig_epoch_id) q t i s =
     Some (upd_op q (\<lambda>r. r\<lparr>opc := OSub, wait_for := WNoOverflow (orig_epoch_id + 2)\<rparr>)
       (on_mem (epoch_id_set (orig_epoch_id + 2) Release t) s))"
| "synchronize_rcu_serialized OReset q t i s =
     Some (upd_op q (\<lambda>r. r\<lparr>opc := OSub, wait_for := WReset\<rparr>)
       (on_mem (epoch_id_set EPOCH_ID_MIN Relaxed t) s))"
| "synchronize_rcu_serialized OSetAfterReset q t i s =
     Some (upd_op q (\<lambda>r. r\<lparr>opc := OSub, wait_for := WAfterReset\<rparr>)
       (on_mem (epoch_id_set (EPOCH_ID_MIN + 2) Release t) s))"
| "synchronize_rcu_serialized _ q t i s = None"

subsection \<open>Waiting for the threads\<close>

text \<open>The predicate and the flag \<open>include_calling_thread\<close> of the three waits, and what follows them.\<close>

fun last_seen_epoch_id_predicate :: "'w::len word wait \<Rightarrow> 'w word \<Rightarrow> bool" where
  "last_seen_epoch_id_predicate (WNoOverflow new_epoch_id) e = (new_epoch_id \<le> e)"
| "last_seen_epoch_id_predicate WReset e = (e = EPOCH_ID_MIN)"
| "last_seen_epoch_id_predicate WAfterReset e = (e = EPOCH_ID_MIN + 2)"

fun include_calling_thread :: "'e wait \<Rightarrow> bool" where
  "include_calling_thread (WNoOverflow _) = True"
| "include_calling_thread WReset = False"
| "include_calling_thread WAfterReset = True"

fun after_wait :: "'e wait \<Rightarrow> 'e opc" where
  "after_wait (WNoOverflow _) = OPub"
| "after_wait WReset = OSetAfterReset"
| "after_wait WAfterReset = OPub"

text \<open>What the closure given to \<open>all\<close> returns for an encoded state.\<close>

definition slot_ok :: "'w::len word wait \<Rightarrow> 'w word \<Rightarrow> bool" where
  "slot_ok w encoded_state =
     (case decode encoded_state of
        None \<Rightarrow> True
      | Some st \<Rightarrow> if \<not> is_busy st then True else last_seen_epoch_id_predicate w (last_seen_epoch_id st))"

definition begin_scan ::
    "nat \<Rightarrow> tid \<Rightarrow> nat \<Rightarrow> ('w::len, 'g::len) rcu \<Rightarrow> ('w, 'g) rcu option" where
  "begin_scan q t i s =
     (let s1 = on_mem (lk_acq t LkCurW) s
      in if readable t LLen i (mem s1)
         then Some (upd_op q (\<lambda>r. r\<lparr>opc := OScan, scan_pos := 0, scan_len := val_len (mval (mem s1) LLen i)\<rparr>)
                (on_mem (load Acquire t LLen i) s1))
         else None)"

definition scan_slot ::
    "nat \<Rightarrow> tid \<Rightarrow> nat \<Rightarrow> ('w::len, 'g::len) rcu \<Rightarrow> ('w, 'g) rcu option" where
  "scan_slot q t i s =
     (let r = ops s q; sl = scan_pos r
      in if scan_len r \<le> sl then Some (set_opc q (OScanEnd True) s)
         else if \<not> include_calling_thread (wait_for r) \<and> sl = this_slot r
         then Some (upd_op q (\<lambda>r. r\<lparr>scan_pos := Suc sl\<rparr>) s)
         else if readable t (LSlot sl) i (mem s)
         then Some (upd_op q
                (\<lambda>r. if slot_ok (wait_for r) (val_epoch (mval (mem s) (LSlot sl) i))
                     then r\<lparr>scan_pos := Suc sl\<rparr> else r\<lparr>opc := OScanEnd False\<rparr>)
                (on_mem (load Acquire t (LSlot sl) i) s))
         else None)"

text \<open>The registration with the notifiers, and the two halves of \<open>subscribe_to_epoch_id_notifications\<close>.\<close>

definition subscribe_flag ::
    "nat \<Rightarrow> tid \<Rightarrow> ('w::len, 'g::len) rcu \<Rightarrow> ('w, 'g) rcu" where
  "subscribe_flag q t s = set_opc q OSnap (on_mem (store Relaxed t LHasSub (VBool True)) s)"

definition subscribe_snapshot ::
    "nat \<Rightarrow> tid \<Rightarrow> nat \<Rightarrow> ('w::len, 'g::len) rcu \<Rightarrow> ('w, 'g) rcu option" where
  "subscribe_snapshot q t i s =
     (if readable t LNum i (mem s)
      then Some (upd_op q (\<lambda>r. r\<lparr>opc := OFence,
               subscr := \<lparr>num_notifications_snapshot = val_num (mval (mem s) LNum i),
                 had_already_registered = False, did_someone_consume_my_subscriber_info = False\<rparr>\<rparr>)
             (on_mem (load Acquire t LNum i) s))
      else None)"

definition did_num_notifications_change_since_snapshot ::
    "'w word opc \<Rightarrow> nat \<Rightarrow> tid \<Rightarrow> nat \<Rightarrow> ('w::len, 'g::len) rcu \<Rightarrow> ('w, 'g) rcu option" where
  "did_num_notifications_change_since_snapshot p q t i s =
     (if readable t LNum i (mem s)
      then Some (set_opc q
             (if val_num (mval (mem s) LNum i) \<noteq> num_notifications_snapshot (subscr (ops s q))
              then OReady else p)
             (on_mem (load Relaxed t LNum i) s))
      else None)"

definition register_subscriber_info ::
    "nat \<Rightarrow> tid \<Rightarrow> nat \<Rightarrow> ('w::len, 'g::len) rcu \<Rightarrow> ('w, 'g) rcu option" where
  "register_subscriber_info q t wk s =
     (if info_writer s \<noteq> None then None
      else if had_already_registered (subscr (ops s q))
      then let s1 = on_mem (\<lambda>m. lk_rel t LkInfoR (lk_acq t LkInfoW m)) s
           in Some (case subscriber_info s of
                Some (w, u) \<Rightarrow> set_opc q (if u = t \<and> w = wk then OPoll2 else ORegW (u = t) (w = wk)) s1
              | None \<Rightarrow> upd_op q (\<lambda>r. r\<lparr>opc := ODrop False, subscr := (subscr r)
                          \<lparr>did_someone_consume_my_subscriber_info := True\<rparr>\<rparr>) s1)
      else Some (upd_op q (\<lambda>r. r\<lparr>opc := OPoll2, subscr := (subscr r)\<lparr>had_already_registered := True\<rparr>\<rparr>)
             ((on_mem (\<lambda>m. lk_rel t LkInfoW (lk_acq t LkInfoR (lk_acq t LkInfoW m))) s)
                \<lparr>subscriber_info := Some (wk, t)\<rparr>)))"

definition register_slow_path ::
    "bool \<Rightarrow> bool \<Rightarrow> nat \<Rightarrow> tid \<Rightarrow> nat \<Rightarrow> ('w::len, 'g::len) rcu \<Rightarrow> ('w, 'g) rcu option" where
  "register_slow_path is_tid_good is_waker_good q t wk s =
     (if info_writer s \<noteq> None then None
      else let s1 = on_mem (\<lambda>m. lk_rel t LkInfoW (lk_acq t LkInfoR (lk_acq t LkInfoW m))) s
           in Some (case subscriber_info s of
                Some (w, u) \<Rightarrow> set_opc q OPoll2 (s1\<lparr>subscriber_info :=
                  Some (if is_waker_good then w else wk, if is_tid_good then u else t)\<rparr>)
              | None \<Rightarrow> upd_op q (\<lambda>r. r\<lparr>opc := ODrop False, subscr := (subscr r)
                          \<lparr>did_someone_consume_my_subscriber_info := True\<rparr>\<rparr>) s1))"

text \<open>
  \<open>EpochIdNotificationsSubscriber::poll\<close>: check, register, check again, \<open>Pending\<close>. \<open>OReady\<close> is the fence of a
  check that found a notification, after which the poll is \<open>Ready\<close>.
\<close>

fun subscriber_poll ::
    "'w::len word opc \<Rightarrow> nat \<Rightarrow> tid \<Rightarrow> nat \<Rightarrow> nat \<Rightarrow> ('w, 'g::len) rcu \<Rightarrow> ('w, 'g) rcu option" where
  "subscriber_poll OPoll1 q t i wk s = did_num_notifications_change_since_snapshot OReg q t i s"
| "subscriber_poll OReg q t i wk s = register_subscriber_info q t wk s"
| "subscriber_poll (ORegW a b) q t i wk s = register_slow_path a b q t wk s"
| "subscriber_poll OPoll2 q t i wk s = did_num_notifications_change_since_snapshot OPend q t i s"
| "subscriber_poll OReady q t i wk s = Some (set_opc q (ODrop False) (on_mem (fence_acq t) s))"
| "subscriber_poll _ q t i wk s = None"

text \<open>\<open>Drop for EpochIdNotificationsSubscriber\<close>; \<open>b\<close> tells the \<open>break\<close> from the next round of the loop.\<close>

definition drop_subscriber_flag ::
    "bool \<Rightarrow> nat \<Rightarrow> tid \<Rightarrow> ('w::len, 'g::len) rcu \<Rightarrow> ('w, 'g) rcu" where
  "drop_subscriber_flag b q t s =
     set_opc q (ODropInfo b)
       (if did_someone_consume_my_subscriber_info (subscr (ops s q)) then s
        else on_mem (store Relaxed t LHasSub (VBool False)) s)"

definition drop_subscriber_info ::
    "bool \<Rightarrow> nat \<Rightarrow> tid \<Rightarrow> ('w::len, 'g::len) rcu \<Rightarrow> ('w, 'g) rcu option" where
  "drop_subscriber_info b q t s =
     (let p = (if b then after_wait (wait_for (ops s q)) else OSub)
      in if \<not> had_already_registered (subscr (ops s q)) then Some (set_opc q p s)
         else if info_writer s \<noteq> None then None
         else Some (set_opc q p
                ((on_mem (\<lambda>m. lk_rel t LkInfoW (lk_acq t LkInfoR (lk_acq t LkInfoW m))) s)
                   \<lparr>subscriber_info := None\<rparr>)))"

fun wait_for_running_threads_to_see_epoch_id ::
    "'w::len word opc \<Rightarrow> nat \<Rightarrow> tid \<Rightarrow> nat \<Rightarrow> nat \<Rightarrow> ('w, 'g::len) rcu \<Rightarrow> ('w, 'g) rcu option" where
  "wait_for_running_threads_to_see_epoch_id OSub q t i wk s = Some (subscribe_flag q t s)"
| "wait_for_running_threads_to_see_epoch_id OSnap q t i wk s = subscribe_snapshot q t i s"
| "wait_for_running_threads_to_see_epoch_id OFence q t i wk s =
     Some (set_opc q OTid (on_mem (fence_sc t) s))"
| "wait_for_running_threads_to_see_epoch_id OTid q t i wk s =
     (case tslot (thr s t) of
        None \<Rightarrow> None
      | Some sl \<Rightarrow> Some (upd_op q (\<lambda>r. r\<lparr>opc := OScanBegin, this_slot := sl\<rparr>) s))"
| "wait_for_running_threads_to_see_epoch_id OScanBegin q t i wk s = begin_scan q t i s"
| "wait_for_running_threads_to_see_epoch_id OScan q t i wk s = scan_slot q t i s"
| "wait_for_running_threads_to_see_epoch_id (OScanEnd b) q t i wk s =
     Some (set_opc q (if b then ODrop True else OPoll1) (on_mem (lk_rel t LkCurR) s))"
| "wait_for_running_threads_to_see_epoch_id OPoll1 q t i wk s = subscriber_poll OPoll1 q t i wk s"
| "wait_for_running_threads_to_see_epoch_id OReg q t i wk s = subscriber_poll OReg q t i wk s"
| "wait_for_running_threads_to_see_epoch_id (ORegW a b) q t i wk s = subscriber_poll (ORegW a b) q t i wk s"
| "wait_for_running_threads_to_see_epoch_id OPoll2 q t i wk s = subscriber_poll OPoll2 q t i wk s"
| "wait_for_running_threads_to_see_epoch_id OReady q t i wk s = subscriber_poll OReady q t i wk s"
| "wait_for_running_threads_to_see_epoch_id OPend q t i wk s = Some (set_opc q OPoll1 s)"
| "wait_for_running_threads_to_see_epoch_id (ODrop b) q t i wk s = Some (drop_subscriber_flag b q t s)"
| "wait_for_running_threads_to_see_epoch_id (ODropInfo b) q t i wk s = drop_subscriber_info b q t s"
| "wait_for_running_threads_to_see_epoch_id _ q t i wk s = None"

text \<open>One step of the whole future. The positions of the three functions are disjoint.\<close>

definition poll_op ::
    "nat \<Rightarrow> tid \<Rightarrow> nat \<Rightarrow> nat \<Rightarrow> ('w::len, 'g::len) rcu \<Rightarrow> ('w, 'g) rcu option" where
  "poll_op q t i wk s =
     (let p = opc (ops s q)
      in if attached (ops s q) = Some t \<and> tpc (thr s t) = Polling
         then (case synchronize_rcu p q t i s of
                 Some s' \<Rightarrow> Some s'
               | None \<Rightarrow> (case synchronize_rcu_serialized p q t i s of
                   Some s' \<Rightarrow> Some s'
                 | None \<Rightarrow> wait_for_running_threads_to_see_epoch_id p q t i wk s))
         else None)"

end
