(* ===== verification/Machine.thy ===== *)
theory Machine
  imports Synchronize
begin

text \<open>
  The whole system: any number of threads running hooks and polls, any number of \<open>synchronize_rcu\<close>
  futures that migrate between threads, and user code that reads, swaps and reclaims the data of any
  number of \<open>RcuBox\<close>es. One event is one atomic operation of one thread; a run is any sequence of
  events, so every interleaving and every outcome of a weakly ordered load is a run.
\<close>

subsection \<open>User code\<close>

text \<open>
  An access to protected data is recorded in the access clock of the thread: it is a message of the
  thread's private location \<open>LClk\<close>.
\<close>

definition record_access :: "tid \<Rightarrow> nat \<Rightarrow> nat \<Rightarrow> nat \<Rightarrow> ('e, 'g) sys \<Rightarrow> ('e, 'g) sys" where
  "record_access t sl b ts s =
     (on_mem (store Relaxed t (LClk t) VAccess) s)
       \<lparr>accs := insert \<lparr>a_tid = t, a_slot = sl, a_box = b, a_ts = ts,
          a_clk = length (hist (mem s) (LClk t)), a_idx = length (hist (mem s) (LSlot sl))\<rparr> (accs s)\<rparr>"

text \<open>
  \<open>RcuBox::read\<close> under a guard that \<open>rcu_read_lock\<close> gave to the closure: the thread must be tracked.
  The reference may be used until the guard is gone.
\<close>

definition rcu_box_read ::
    "tid \<Rightarrow> nat \<Rightarrow> nat \<Rightarrow> ('e, 'g) sys \<Rightarrow> ('e, 'g) sys option" where
  "rcu_box_read t b i s =
     (case tslot (thr s t) of
        None \<Rightarrow> None
      | Some sl \<Rightarrow>
          if tpc (thr s t) = Polling \<and> readable t (LPtr b) i (mem s)
          then let s1 = record_access t sl b i (on_mem (load Acquire t (LPtr b) i) s)
               in Some (s1\<lparr>thr := (thr s1)(t := (thr s1 t)\<lparr>held := insert (b, i) (held (thr s1 t))\<rparr>)\<rparr>)
          else None)"

definition use_reference ::
    "tid \<Rightarrow> nat \<Rightarrow> nat \<Rightarrow> ('e, 'g) sys \<Rightarrow> ('e, 'g) sys option" where
  "use_reference t b ts s =
     (case tslot (thr s t) of
        None \<Rightarrow> None
      | Some sl \<Rightarrow>
          if tpc (thr s t) = Polling \<and> (b, ts) \<in> held (thr s t)
          then Some (record_access t sl b ts s) else None)"

text \<open>Guards are dropped; only the references in \<open>keep\<close> have a guard that is still there.\<close>

definition drop_guards :: "tid \<Rightarrow> (nat \<times> nat) set \<Rightarrow> ('e, 'g) sys \<Rightarrow> ('e, 'g) sys option" where
  "drop_guards t keep s =
     (if tpc (thr s t) = Polling
      then Some (s\<lparr>thr := (thr s)(t := (thr s t)\<lparr>held := held (thr s t) \<inter> keep\<rparr>)\<rparr>) else None)"

text \<open>\<open>RcuBox::swap\<close>: the returned \<open>RcuBoxOldData\<close> owns the message that was replaced.\<close>

definition rcu_box_swap ::
    "tid \<Rightarrow> nat \<Rightarrow> nat \<Rightarrow> ('e, 'g) sys \<Rightarrow> ('e, 'g) sys option" where
  "rcu_box_swap t b new_value_ptr s =
     (if tpc (thr s t) = Polling \<or> tpc (thr s t) = Idle
      then Some ((on_mem (rmw AcqRel t (LPtr b) (VPtr new_value_ptr)) s)
             \<lparr>old_data := insert (b, last_ix (mem s) (LPtr b)) (old_data s)\<rparr>)
      else None)"

text \<open>
  \<open>RcuWaitable::wait\<close> on a tuple of old data objects: creates the \<open>synchronize_rcu\<close> future. A thread
  that owns an old data object knows of the swap that produced it.
\<close>

definition wait_call ::
    "nat \<Rightarrow> tid \<Rightarrow> (nat \<times> nat) set \<Rightarrow> ('w::len, 'g::len) rcu \<Rightarrow> ('w, 'g) rcu option" where
  "wait_call q t vs s =
     (if tpc (thr s t) = Polling \<and> opc (ops s q) = ONone \<and> vs \<subseteq> old_data s \<and>
         (\<forall>(b, ts) \<in> vs. ts < cur (mem s) t (LPtr b))
      then Some ((upd_op q (\<lambda>r. r\<lparr>opc := OReadLock, attached := Some t, olds := vs,
                   call_view := cur (mem s) t\<rparr>) s)
             \<lparr>old_data := old_data s - vs,
              thr := (thr s)(t := (thr s t)\<lparr>tops := insert q (tops (thr s t))\<rparr>)\<rparr>)
      else None)"

text \<open>The future returned: \<open>into_output\<close> takes back the allocations.\<close>

definition wait_return ::
    "nat \<Rightarrow> tid \<Rightarrow> ('w::len, 'g::len) rcu \<Rightarrow> ('w, 'g) rcu option" where
  "wait_return q t s =
     (if attached (ops s q) = Some t \<and> tpc (thr s t) = Polling \<and> opc (ops s q) = OReturned
      then Some ((upd_op q (\<lambda>r. r\<lparr>opc := OFinished, attached := None\<rparr>) s)
             \<lparr>freed := freed s \<union> olds (ops s q),
              thr := (thr s)(t := (thr s t)\<lparr>tops := tops (thr s t) - {q}\<rparr>)\<rparr>)
      else None)"

subsection \<open>Suspending and resuming futures\<close>

text \<open>The \<open>await\<close> points at which a poll of the future can return \<open>Pending\<close>.\<close>

definition await_point :: "'e opc \<Rightarrow> bool" where
  "await_point p \<longleftrightarrow> p = OReadLock \<or> p = OLdrWrite \<or> p = OSlvWait \<or> p = OLock \<or> p = OPend"

definition suspend :: "nat \<Rightarrow> tid \<Rightarrow> ('e, 'g) sys \<Rightarrow> ('e, 'g) sys option" where
  "suspend q t s =
     (if attached (ops s q) = Some t \<and> tpc (thr s t) = Polling \<and> await_point (opc (ops s q))
      then Some ((upd_op q (\<lambda>r. r\<lparr>attached := None\<rparr>) (on_mem (lk_rel t (LkTask q)) s))
             \<lparr>thr := (thr s)(t := (thr s t)\<lparr>tops := tops (thr s t) - {q}\<rparr>)\<rparr>)
      else None)"

definition resume :: "nat \<Rightarrow> tid \<Rightarrow> ('e, 'g) sys \<Rightarrow> ('e, 'g) sys option" where
  "resume q t s =
     (if attached (ops s q) = None \<and> tpc (thr s t) = Polling \<and> await_point (opc (ops s q))
      then Some ((upd_op q (\<lambda>r. r\<lparr>attached := Some t\<rparr>) (on_mem (lk_acq t (LkTask q)) s))
             \<lparr>thr := (thr s)(t := (thr s t)\<lparr>tops := insert q (tops (thr s t))\<rparr>)\<rparr>)
      else None)"

subsection \<open>Runs\<close>

datatype event =
    Hook hook tid nat
  | Poll nat tid nat nat
  | WaitCall nat tid "(nat \<times> nat) set"
  | WaitReturn nat tid
  | Suspend nat tid
  | Resume nat tid
  | Read tid nat nat
  | UseRef tid nat nat
  | DropGuards tid "(nat \<times> nat) set"
  | Swap tid nat nat

fun step :: "event \<Rightarrow> ('w::len, 'g::len) rcu \<Rightarrow> ('w, 'g) rcu option" where
  "step (Hook h t i) s = run_hook h t i s"
| "step (Poll q t i wk) s = poll_op q t i wk s"
| "step (WaitCall q t vs) s = wait_call q t vs s"
| "step (WaitReturn q t) s = wait_return q t s"
| "step (Suspend q t) s = suspend q t s"
| "step (Resume q t) s = resume q t s"
| "step (Read t b i) s = rcu_box_read t b i s"
| "step (UseRef t b ts) s = use_reference t b ts s"
| "step (DropGuards t keep) s = drop_guards t keep s"
| "step (Swap t b p) s = rcu_box_swap t b p s"

fun run :: "event list \<Rightarrow> ('w::len, 'g::len) rcu \<Rightarrow> ('w, 'g) rcu option" where
  "run [] s = Some s"
| "run (ev # evs) s = (case step ev s of None \<Rightarrow> None | Some s' \<Rightarrow> run evs s')"

text \<open>
  Start states: any valid epoch id; the width leaves room for \<open>MIN\<close>, \<open>MIN + 2\<close> and \<open>MAX\<close> to differ.
\<close>

definition start_ok :: "'w::len word \<Rightarrow> bool" where
  "start_ok e0 \<longleftrightarrow> 2 < LENGTH('w) \<and> valid_epoch e0"

inductive reachable :: "('w::len, 'g::len) rcu \<Rightarrow> bool" where
  init: "start_ok e0 \<Longrightarrow> reachable (init_sys e0 addr)"
| step: "reachable s \<Longrightarrow> step ev s = Some s' \<Longrightarrow> reachable s'"

lemma reachable_run: "reachable s \<Longrightarrow> run evs s = Some s' \<Longrightarrow> reachable s'"
  by (induction evs arbitrary: s) (auto split: option.splits intro: reachable.step)

end
