(* ===== verification/Thread_Inv.thy ===== *)
theory Thread_Inv
  imports Machine
begin

text \<open>
  What the hooks keep true of the threads, their slots and the state words in them. The clauses do
  not mention the futures. Most atomic operations of the crate leave everything the clauses speak
  about alone and only add knowledge; \<open>quiet\<close> says so once, and \<open>thread_inv_quiet\<close> handles all of
  them together.
\<close>

subsection \<open>Positions\<close>

text \<open>What the invariant needs to know of a thread's position.\<close>

datatype 'e pos = KIdle | KPolling | KStartFence | KStartLoad | KLoaded bool 'e | KParked | KGone

fun kind :: "'e tpc \<Rightarrow> 'e pos" where
  "kind Idle = KIdle"
| "kind Parked = KParked"
| "kind Polling = KPolling"
| "kind Stopped = KGone"
| "kind (StartFence _) = KStartFence"
| "kind (StartLoad _) = KStartLoad"
| "kind (StartStore _ e) = KLoaded True e"
| "kind (AfterLoad e) = KLoaded False e"
| "kind (AfterStore e _) = KLoaded False e"
| "kind (NotifyFence h) = (case h of Park \<Rightarrow> KParked | Stop \<Rightarrow> KGone | _ \<Rightarrow> KIdle)"
| "kind (Notifying h _) = (case h of Park \<Rightarrow> KParked | Stop \<Rightarrow> KGone | _ \<Rightarrow> KIdle)"

abbreviation tkind :: "('e, 'g) sys \<Rightarrow> tid \<Rightarrow> 'e pos" where
  "tkind s t \<equiv> kind (tpc (thr s t))"

text \<open>The positions a thread without a slot can be at.\<close>

fun unslotted :: "'e tpc \<Rightarrow> bool" where
  "unslotted Idle = True"
| "unslotted Parked = True"
| "unslotted Stopped = True"
| "unslotted (NotifyFence h) = (h = Stop)"
| "unslotted (Notifying h _) = (h = Stop)"
| "unslotted _ = False"

text \<open>Only the start hooks have the positions of the start sequence.\<close>

fun proper :: "'e tpc \<Rightarrow> bool" where
  "proper (StartFence h) = (h = BeforePoll \<or> h = Unpark)"
| "proper (StartLoad h) = (h = BeforePoll \<or> h = Unpark)"
| "proper (StartStore h _) = (h = BeforePoll \<or> h = Unpark)"
| "proper _ = True"

subsection \<open>State words\<close>

abbreviation word_at :: "('w::len, 'g::len) rcu \<Rightarrow> nat \<Rightarrow> nat \<Rightarrow> 'w word" where
  "word_at s sl k \<equiv> val_epoch (mval (mem s) (LSlot sl) k)"

abbreviation nwords :: "('e, 'g) sys \<Rightarrow> nat \<Rightarrow> nat" where
  "nwords s sl \<equiv> length (hist (mem s) (LSlot sl))"

abbreviation wview :: "('e, 'g) sys \<Rightarrow> nat \<Rightarrow> nat \<Rightarrow> loc view" where
  "wview s sl k \<equiv> mview (mem s) (LSlot sl) k"

abbreviation epoch_at :: "('e, 'g) sys \<Rightarrow> nat \<Rightarrow> 'e" where
  "epoch_at s j \<equiv> val_epoch (mval (mem s) LEpoch j)"

abbreviation nepochs :: "('e, 'g) sys \<Rightarrow> nat" where
  "nepochs s \<equiv> length (hist (mem s) LEpoch)"

abbreviation eview :: "('e, 'g) sys \<Rightarrow> nat \<Rightarrow> loc view" where
  "eview s j \<equiv> mview (mem s) LEpoch j"

definition word_busy :: "'w::len word \<Rightarrow> bool" where
  "word_busy w \<longleftrightarrow> (case decode w of None \<Rightarrow> False | Some st \<Rightarrow> is_busy st)"

definition word_seen :: "'w::len word \<Rightarrow> 'w word" where
  "word_seen w = w AND - 2"

lemma word_busy_iff: "word_busy w \<longleftrightarrow> odd w"
  by (auto simp: word_busy_def state_defs bits)

lemma word_busy_encode [simp]:
  "even e \<Longrightarrow> word_busy (encode (busy_state e))"
  "even e \<Longrightarrow> word_seen (encode (busy_state e)) = e"
  by (auto simp: word_busy_iff word_seen_def encode_def bits)

lemma not_word_busy_clear [simp]: "\<not> word_busy (clear_busy w)"
  by (simp add: word_busy_iff clear_busy_def bits)

lemma not_word_busy_none [simp]: "\<not> word_busy NONE_ENCODED_VALUE"
  by (simp add: word_busy_iff NONE_ENCODED_VALUE_def)

lemma slot_ok_cases:
  "slot_ok w x \<longleftrightarrow> \<not> word_busy x \<or> last_seen_epoch_id_predicate w (word_seen x)"
  by (auto simp: slot_ok_def word_busy_def word_seen_def decode_def)

subsection \<open>The clauses\<close>

text \<open>The length of the slice has value \<open>l\<close> in its message \<open>l\<close>, and exactly the slots below it exist.\<close>

definition inv_len :: "('e, 'g) sys \<Rightarrow> bool" where
  "inv_len s \<longleftrightarrow>
     hist (mem s) LLen \<noteq> [] \<and> (\<forall>l < length (hist (mem s) LLen). mval (mem s) LLen l = VLen l) \<and>
     (\<forall>sl. nwords s sl \<noteq> 0 \<longleftrightarrow> sl < last_ix (mem s) LLen) \<and>
     last_ix (mem s) LLen \<le> lv (mem s) LkSlots LLen"

text \<open>The other locations always have a message.\<close>

definition inv_nonempty :: "('e, 'g) sys \<Rightarrow> bool" where
  "inv_nonempty s \<longleftrightarrow>
     (\<forall>x \<in> {LEpoch, LHasSub, LNum, LStarted, LFinished} \<union> range LPtr \<union> range LClk. hist (mem s) x \<noteq> [])"

text \<open>Every epoch id is valid: the ones written and the ones a thread has loaded.\<close>

definition inv_epochs :: "('w::len, 'g::len) rcu \<Rightarrow> bool" where
  "inv_epochs s \<longleftrightarrow>
     (\<forall>j < nepochs s. valid_epoch (epoch_at s j)) \<and>
     (\<forall>t b e. tkind s t = KLoaded b e \<longrightarrow> valid_epoch e)"

text \<open>Slots have at most one owner and free slots none.\<close>

definition inv_owner :: "('e, 'g) sys \<Rightarrow> bool" where
  "inv_owner s \<longleftrightarrow>
     (\<forall>t sl. tslot (thr s t) = Some sl \<longrightarrow> sl < last_ix (mem s) LLen \<and> sl \<notin> set (free_slots s)) \<and>
     (\<forall>t u sl. tslot (thr s t) = Some sl \<and> tslot (thr s u) = Some sl \<longrightarrow> t = u) \<and>
     distinct (free_slots s) \<and> (\<forall>sl \<in> set (free_slots s). sl < last_ix (mem s) LLen) \<and>
     (\<forall>sl < last_ix (mem s) LLen. sl \<in> set (free_slots s) \<or> (\<exists>t. tslot (thr s t) = Some sl))"

definition inv_pos :: "('e, 'g) sys \<Rightarrow> bool" where
  "inv_pos s \<longleftrightarrow>
     (\<forall>t. (tslot (thr s t) = None \<longrightarrow> unslotted (tpc (thr s t))) \<and> proper (tpc (thr s t)) \<and>
          (tkind s t = KGone \<longrightarrow> tslot (thr s t) = None))"

text \<open>The last state word of a slot tells the position of its owner.\<close>

definition last_word_ok :: "'w::len word pos \<Rightarrow> 'w word \<Rightarrow> bool" where
  "last_word_ok k w \<longleftrightarrow>
     (case k of
        KIdle \<Rightarrow> word_busy w \<and> word_seen w \<noteq> 0
      | KPolling \<Rightarrow> word_busy w \<and> word_seen w \<noteq> 0
      | KStartFence \<Rightarrow> w = encode (busy_state 0)
      | KStartLoad \<Rightarrow> w = encode (busy_state 0)
      | KLoaded st _ \<Rightarrow> if st then w = encode (busy_state 0) else word_busy w \<and> word_seen w \<noteq> 0
      | KParked \<Rightarrow> \<not> word_busy w
      | KGone \<Rightarrow> False)"

definition inv_last :: "('w::len, 'g::len) rcu \<Rightarrow> bool" where
  "inv_last s \<longleftrightarrow>
     (\<forall>t sl. tslot (thr s t) = Some sl \<longrightarrow>
        last_word_ok (tkind s t) (word_at s sl (last_ix (mem s) (LSlot sl)))) \<and>
     (\<forall>sl \<in> set (free_slots s). \<not> word_busy (word_at s sl (last_ix (mem s) (LSlot sl)))) \<and>
     (\<forall>sl k. Suc k < nwords s sl \<and> \<not> word_busy (word_at s sl k) \<longrightarrow>
        word_at s sl (Suc k) = encode (busy_state 0))"

text \<open>The owner knows all words of its slot; for a free slot the write lock does.\<close>

definition knows_slot :: "('e, 'g) sys \<Rightarrow> loc view \<Rightarrow> nat \<Rightarrow> bool" where
  "knows_slot s V sl \<longleftrightarrow>
     last_ix (mem s) (LSlot sl) \<le> V (LSlot sl) \<and> sl < V LLen \<and> (\<forall>k < nwords s sl. wview s sl k \<le> V)"

definition inv_know :: "('e, 'g) sys \<Rightarrow> bool" where
  "inv_know s \<longleftrightarrow>
     (\<forall>t sl. tslot (thr s t) = Some sl \<longrightarrow> knows_slot s (cur (mem s) t) sl) \<and>
     (\<forall>sl \<in> set (free_slots s). knows_slot s (lv (mem s) LkSlots) sl)"

text \<open>
  Accesses: the version read is not older than what any earlier word of the slot published, and
  every later word published the access. An access after the last word is of the current owner.
\<close>

definition inv_accs :: "('w::len, 'g::len) rcu \<Rightarrow> bool" where
  "inv_accs s \<longleftrightarrow> (\<forall>a \<in> accs s.
     0 < a_idx a \<and> a_idx a \<le> nwords s (a_slot a) \<and>
     word_busy (word_at s (a_slot a) (a_idx a - 1)) \<and> a_clk a \<le> cur (mem s) (a_tid a) (LClk (a_tid a)) \<and>
     (\<forall>k < a_idx a. wview s (a_slot a) k (LPtr (a_box a)) \<le> a_ts a) \<and>
     (\<forall>k < nwords s (a_slot a). a_idx a \<le> k \<longrightarrow> a_clk a \<le> wview s (a_slot a) k (LClk (a_tid a))) \<and>
     (a_idx a = nwords s (a_slot a) \<longrightarrow> tslot (thr s (a_tid a)) = Some (a_slot a) \<and>
        (tkind s (a_tid a) = KPolling \<or> (\<exists>e. tkind s (a_tid a) = KLoaded False e))))"

definition inv_held :: "('e, 'g) sys \<Rightarrow> bool" where
  "inv_held s \<longleftrightarrow> (\<forall>t b ts. (b, ts) \<in> held (thr s t) \<longrightarrow>
     tkind s t = KPolling \<and>
     (\<exists>a \<in> accs s. a_tid a = t \<and> tslot (thr s t) = Some (a_slot a) \<and> a_box a = b \<and> a_ts a = ts \<and>
        a_idx a = nwords s (a_slot a)))"

text \<open>
  Where a published epoch id came from: a message the thread acquired, not older than any epoch
  message the earlier words of the slot knew.
\<close>

definition word_source :: "('w::len, 'g::len) rcu \<Rightarrow> nat \<Rightarrow> nat \<Rightarrow> nat \<Rightarrow> bool" where
  "word_source s sl k j \<longleftrightarrow>
     j < nepochs s \<and> epoch_at s j = word_seen (word_at s sl k) \<and> eview s j \<le> wview s sl k \<and>
     j \<le> wview s sl k LEpoch \<and> (\<forall>k0 < k. wview s sl k0 LEpoch \<le> j)"

definition inv_source :: "('w::len, 'g::len) rcu \<Rightarrow> bool" where
  "inv_source s \<longleftrightarrow>
     (\<forall>sl k. k < nwords s sl \<and> word_busy (word_at s sl k) \<and> word_seen (word_at s sl k) \<noteq> 0 \<longrightarrow>
        (\<exists>j. word_source s sl k j)) \<and>
     (\<forall>t sl b e. tslot (thr s t) = Some sl \<and> tkind s t = KLoaded b e \<longrightarrow>
        (\<exists>j < nepochs s. epoch_at s j = e \<and> eview s j \<le> cur (mem s) t \<and> j \<le> cur (mem s) t LEpoch \<and>
           (\<forall>k < nwords s sl. wview s sl k LEpoch \<le> j)))"

text \<open>
  A start word that the SC order does not know yet is the last word of its slot, and its owner is
  before its fence. The same holds of a new slot whose length update the SC order does not know.
\<close>

definition inv_fence :: "('w::len, 'g::len) rcu \<Rightarrow> bool" where
  "inv_fence s \<longleftrightarrow>
     (\<forall>sl k. k < nwords s sl \<and> word_at s sl k = encode (busy_state 0) \<and> scv (mem s) (LSlot sl) < k \<longrightarrow>
        k = last_ix (mem s) (LSlot sl) \<and> (\<exists>t. tslot (thr s t) = Some sl \<and> tkind s t = KStartFence)) \<and>
     (\<forall>sl < last_ix (mem s) LLen. scv (mem s) LLen \<le> sl \<longrightarrow>
        nwords s sl = 1 \<and> word_at s sl 0 = encode (busy_state 0) \<and>
        (\<exists>t. tslot (thr s t) = Some sl \<and> tkind s t = KStartFence))"

definition thread_inv :: "('w::len, 'g::len) rcu \<Rightarrow> bool" where
  "thread_inv s \<longleftrightarrow>
     wf_mem (mem s) \<and> inv_len s \<and> inv_nonempty s \<and> inv_epochs s \<and> inv_owner s \<and> inv_pos s \<and> inv_last s \<and>
     inv_know s \<and> inv_accs s \<and> inv_held s \<and> inv_source s \<and> inv_fence s"

lemmas inv_defs = inv_len_def inv_nonempty_def inv_epochs_def inv_owner_def inv_pos_def inv_last_def
  inv_know_def inv_accs_def inv_held_def inv_source_def inv_fence_def

lemma thread_invD:
  assumes "thread_inv s"
  shows "wf_mem (mem s)" and "inv_len s" and "inv_nonempty s" and "inv_epochs s" and "inv_owner s"
    and "inv_pos s" and "inv_last s" and "inv_know s" and "inv_accs s" and "inv_held s"
    and "inv_source s" and "inv_fence s"
  using assms by (auto simp: thread_inv_def)

subsection \<open>Steps that write no state word\<close>

text \<open>
  How a step that writes no state word moves a thread with a slot: not at all, into a poll,
  over the fence of the start sequence, or over the load of the epoch id.
\<close>

definition sees_epoch :: "('w::len, 'g::len) rcu \<Rightarrow> ('w, 'g) rcu \<Rightarrow> tid \<Rightarrow> 'w word \<Rightarrow> bool" where
  "sees_epoch s s' t e \<longleftrightarrow>
     (\<exists>j < nepochs s'. epoch_at s' j = e \<and> eview s' j \<le> cur (mem s') t \<and> j \<le> cur (mem s') t LEpoch \<and>
        cur (mem s) t LEpoch \<le> j)"

definition moves :: "('w::len, 'g::len) rcu \<Rightarrow> ('w, 'g) rcu \<Rightarrow> tid \<Rightarrow> nat \<Rightarrow> bool" where
  "moves s s' t sl \<longleftrightarrow>
     tkind s' t = tkind s t \<or>
     tkind s t = KIdle \<and> tkind s' t = KPolling \<or>
     tkind s t = KStartFence \<and> tkind s' t = KStartLoad \<and> cur (mem s) t \<le> scv (mem s') \<and>
       scv (mem s') \<le> cur (mem s') t \<or>
     (\<exists>e. (tkind s t = KStartLoad \<and> tkind s' t = KLoaded True e \<or>
           tkind s t = KPolling \<and> tkind s' t = KLoaded False e) \<and> sees_epoch s s' t e)"

text \<open>An access the current owner of a slot makes now.\<close>

definition new_access :: "('w::len, 'g::len) rcu \<Rightarrow> access \<Rightarrow> bool" where
  "new_access s a \<longleftrightarrow>
     tslot (thr s (a_tid a)) = Some (a_slot a) \<and> tkind s (a_tid a) = KPolling \<and>
     a_idx a = nwords s (a_slot a) \<and> a_clk a \<le> cur (mem s) (a_tid a) (LClk (a_tid a)) \<and>
     (\<forall>k < nwords s (a_slot a). wview s (a_slot a) k (LPtr (a_box a)) \<le> a_ts a)"

definition accessed :: "('e, 'g) sys \<Rightarrow> tid \<Rightarrow> nat \<Rightarrow> nat \<Rightarrow> bool" where
  "accessed s t b ts \<longleftrightarrow>
     (\<exists>a \<in> accs s. a_tid a = t \<and> tslot (thr s t) = Some (a_slot a) \<and> a_box a = b \<and> a_ts a = ts \<and>
        a_idx a = nwords s (a_slot a))"

definition quiet_thread :: "('w::len, 'g::len) rcu \<Rightarrow> ('w, 'g) rcu \<Rightarrow> tid \<Rightarrow> bool" where
  "quiet_thread s s' t \<longleftrightarrow>
     tslot (thr s' t) = tslot (thr s t) \<and> proper (tpc (thr s' t)) \<and>
     (tslot (thr s t) = None \<longrightarrow> unslotted (tpc (thr s' t))) \<and>
     (\<forall>sl. tslot (thr s t) = Some sl \<longrightarrow> moves s s' t sl) \<and>
     (\<forall>b ts. (b, ts) \<in> held (thr s' t) \<longrightarrow>
        tkind s' t = KPolling \<and> ((b, ts) \<in> held (thr s t) \<or> accessed s' t b ts))"

definition quiet :: "('w::len, 'g::len) rcu \<Rightarrow> ('w, 'g) rcu \<Rightarrow> bool" where
  "quiet s s' \<longleftrightarrow>
     wf_mem (mem s') \<and> grows (mem s) (mem s') \<and>
     hist (mem s') LLen = hist (mem s) LLen \<and>
     (\<forall>sl. hist (mem s') (LSlot sl) = hist (mem s) (LSlot sl)) \<and>
     free_slots s' = free_slots s \<and> (\<forall>j < nepochs s'. valid_epoch (epoch_at s' j)) \<and>
     accs s \<subseteq> accs s' \<and>
     (\<forall>a \<in> accs s'. a \<notin> accs s \<longrightarrow> new_access s' a \<and>
        (cur (mem s) (a_tid a) (LPtr (a_box a)) \<le> a_ts a \<or> accessed s (a_tid a) (a_box a) (a_ts a))) \<and>
     (\<forall>t. quiet_thread s s' t)"

lemma knows_slot_mono:
  assumes "knows_slot s V sl" and "V \<le> W"
    and "hist (mem s') (LSlot sl) = hist (mem s) (LSlot sl)"
  shows "knows_slot s' W sl"
proof -
  have "V (LSlot sl) \<le> W (LSlot sl)" and "V LLen \<le> W LLen"
    using assms(2) by (simp_all add: le_fun_def)
  moreover have "last_ix (mem s') (LSlot sl) = last_ix (mem s) (LSlot sl)" "wview s' sl = wview s sl"
    by (simp_all add: fun_eq_iff last_ix_def mview_def assms(3))
  ultimately show ?thesis
    using assms by (auto simp: knows_slot_def intro: order_trans)
qed

lemma unslotted_kind: "unslotted p \<Longrightarrow> kind p \<in> {KIdle, KParked, KGone}"
  by (cases p) auto

lemma inv_heldI:
  "(\<And>t b ts. (b, ts) \<in> held (thr s t) \<Longrightarrow> tkind s t = KPolling \<and> accessed s t b ts) \<Longrightarrow> inv_held s"
  by (auto simp: inv_held_def accessed_def)

lemma inv_heldD:
  "inv_held s \<Longrightarrow> (b, ts) \<in> held (thr s t) \<Longrightarrow> tkind s t = KPolling \<and> accessed s t b ts"
  by (auto simp: inv_held_def accessed_def)

lemma owner_knows:
  assumes "thread_inv s" and "tslot (thr s t) = Some sl"
  shows "last_ix (mem s) (LSlot sl) \<le> cur (mem s) t (LSlot sl)" and "sl < cur (mem s) t LLen"
    and "k < nwords s sl \<Longrightarrow> wview s sl k \<le> cur (mem s) t"
    and "k < nwords s sl \<Longrightarrow> wview s sl k x \<le> cur (mem s) t x"
    and "sl < last_ix (mem s) LLen" and "nwords s sl \<noteq> 0" and "sl \<notin> set (free_slots s)"
proof -
  show "last_ix (mem s) (LSlot sl) \<le> cur (mem s) t (LSlot sl)" and "sl < cur (mem s) t LLen"
    and le: "k < nwords s sl \<Longrightarrow> wview s sl k \<le> cur (mem s) t"
    using thread_invD(8) [OF assms(1)] assms(2) by (auto simp: inv_know_def knows_slot_def)
  show "k < nwords s sl \<Longrightarrow> wview s sl k x \<le> cur (mem s) t x"
    by (rule le_funD, rule le)
  show l: "sl < last_ix (mem s) LLen" and "sl \<notin> set (free_slots s)"
    using thread_invD(5) [OF assms(1)] assms(2) by (auto simp: inv_owner_def)
  then show "nwords s sl \<noteq> 0"
    using thread_invD(2) [OF assms(1)] by (simp add: inv_len_def)
qed

lemma thread_inv_quiet:
  assumes inv: "thread_inv s" and q: "quiet s s'"
  shows "thread_inv s'"
proof -
  note D = thread_invD [OF inv]
  have g: "grows (mem s) (mem s')" and wf: "wf_mem (mem s')"
    and acs: "accs s \<subseteq> accs s'" and acn: "\<And>a. a \<in> accs s' \<Longrightarrow> a \<notin> accs s \<Longrightarrow> new_access s' a"
    and fr: "free_slots s' = free_slots s"
    and val: "\<And>j. j < nepochs s' \<Longrightarrow> valid_epoch (epoch_at s' j)"
    and hL: "hist (mem s') LLen = hist (mem s) LLen"
    and hS: "\<And>sl. hist (mem s') (LSlot sl) = hist (mem s) (LSlot sl)"
    and qt: "\<And>t. quiet_thread s s' t"
    using q by (auto simp: quiet_def)
  have ts: "\<And>t. tslot (thr s' t) = tslot (thr s t)"
    and hd: "\<And>t b ts. (b, ts) \<in> held (thr s' t) \<Longrightarrow> tkind s' t = KPolling \<and>
           ((b, ts) \<in> held (thr s t) \<or> accessed s' t b ts)"
    and mv: "\<And>t sl. tslot (thr s t) = Some sl \<Longrightarrow> moves s s' t sl"
    and un: "\<And>t. tslot (thr s t) = None \<Longrightarrow> unslotted (tpc (thr s' t))"
    and pr: "\<And>t. proper (tpc (thr s' t))"
    using qt by (simp_all add: quiet_thread_def)
  have same: "mval (mem s') LLen = mval (mem s) LLen"
    "\<And>sl. mval (mem s') (LSlot sl) = mval (mem s) (LSlot sl)" "\<And>sl. wview s' sl = wview s sl"
    "last_ix (mem s') LLen = last_ix (mem s) LLen"
    "\<And>sl. last_ix (mem s') (LSlot sl) = last_ix (mem s) (LSlot sl)"
    by (simp_all add: fun_eq_iff mval_def mview_def last_ix_def hL hS)
  note same = same hL hS ts fr
  have cle: "cur (mem s) t \<le> cur (mem s') t" and lle: "lv (mem s) k \<le> lv (mem s') k"
    and sle: "scv (mem s) \<le> scv (mem s')" for t k
    using growsD [OF g] by simp_all
  have eo: "epoch_at s' j = epoch_at s j \<and> eview s' j = eview s j \<and> j < nepochs s'" if "j < nepochs s" for j
    using growsD(4) [OF g, of LEpoch] growsD(7, 8) [OF g that] that by (simp add: order_less_le_trans)
  have ld: "tslot (thr s t) \<noteq> None" if "tkind s' t = KLoaded b e" for t b e
    using un [of t] unslotted_kind [of "tpc (thr s' t)"] that by auto
  have "inv_len s'"
    using D(2) lle [of LkSlots] by (auto simp: inv_len_def same le_fun_def intro: order_trans)
  moreover have "inv_nonempty s'"
    using D(3) g unfolding inv_nonempty_def grows_def by (metis append_is_Nil_conv)
  moreover have "inv_epochs s'"
    unfolding inv_epochs_def
  proof (intro conjI allI impI val)
    fix t b e
    assume k: "tkind s' t = KLoaded b e"
    with ld obtain sl where "tslot (thr s t) = Some sl"
      by blast
    from mv [OF this] k consider "tkind s t = KLoaded b e" | "sees_epoch s s' t e"
      by (auto simp: moves_def)
    then show "valid_epoch e"
      using D(4) val by cases (auto simp: inv_epochs_def sees_epoch_def)
  qed
  moreover have "inv_owner s'"
    using D(5) unfolding inv_owner_def same .
  moreover have "inv_pos s'"
  proof -
    have "tslot (thr s t) = None" if k: "tkind s' t = KGone" for t
    proof (rule ccontr)
      assume "tslot (thr s t) \<noteq> None"
      then obtain sl where "moves s s' t sl"
        using mv by blast
      with k have "tkind s t = KGone"
        by (auto simp: moves_def)
      with D(6) \<open>tslot (thr s t) \<noteq> None\<close> show False
        by (auto simp: inv_pos_def)
    qed
    then show ?thesis
      using un pr by (simp add: inv_pos_def same)
  qed
  moreover have "inv_last s'"
  proof -
    have "last_word_ok (tkind s' t) w" if "last_word_ok (tkind s t) w" "tslot (thr s t) = Some sl" for t sl w
      using mv [OF that(2)] that(1) by (auto simp: last_word_ok_def moves_def)
    with D(7) show ?thesis
      unfolding inv_last_def same by blast
  qed
  moreover have "inv_know s'"
    using D(8) unfolding inv_know_def same by (blast intro: knows_slot_mono cle lle hS)
  moreover have "inv_accs s'"
    unfolding inv_accs_def same
  proof
    fix a
    assume a: "a \<in> accs s'"
    show "0 < a_idx a \<and> a_idx a \<le> nwords s (a_slot a) \<and>
        word_busy (word_at s (a_slot a) (a_idx a - 1)) \<and>
        a_clk a \<le> cur (mem s') (a_tid a) (LClk (a_tid a)) \<and>
        (\<forall>k < a_idx a. wview s (a_slot a) k (LPtr (a_box a)) \<le> a_ts a) \<and>
        (\<forall>k < nwords s (a_slot a). a_idx a \<le> k \<longrightarrow> a_clk a \<le> wview s (a_slot a) k (LClk (a_tid a))) \<and>
        (a_idx a = nwords s (a_slot a) \<longrightarrow> tslot (thr s (a_tid a)) = Some (a_slot a) \<and>
           (tkind s' (a_tid a) = KPolling \<or> (\<exists>e. tkind s' (a_tid a) = KLoaded False e)))"
    proof (cases "a \<in> accs s")
      case True
      have "cur (mem s) (a_tid a) (LClk (a_tid a)) \<le> cur (mem s') (a_tid a) (LClk (a_tid a))"
        using cle by (rule le_funD)
      moreover note D(9) [unfolded inv_accs_def, rule_format, OF True]
      moreover have "tkind s' (a_tid a) = KPolling \<or> (\<exists>e. tkind s' (a_tid a) = KLoaded False e)"
        if "tslot (thr s (a_tid a)) = Some (a_slot a)"
          and "tkind s (a_tid a) = KPolling \<or> (\<exists>e. tkind s (a_tid a) = KLoaded False e)"
        using mv [OF that(1)] that(2) by (auto simp: moves_def)
      ultimately show ?thesis
        by (meson order_trans)
    next
      case False
      note n = acn [OF a False, unfolded new_access_def same]
      then have "nwords s (a_slot a) \<noteq> 0"
        using owner_knows(6) [OF inv] by blast
      moreover have "tkind s (a_tid a) = KPolling \<or> tkind s (a_tid a) = KIdle"
        using n mv [of "a_tid a" "a_slot a"] by (auto simp: moves_def)
      moreover have "last_word_ok (tkind s (a_tid a)) (word_at s (a_slot a) (nwords s (a_slot a) - 1))"
        using n D(7) unfolding inv_last_def last_ix_def by blast
      ultimately show ?thesis
        using n by (auto simp: last_word_ok_def)
    qed
  qed
  moreover have "inv_held s'"
  proof (rule inv_heldI)
    fix t b ts
    assume h: "(b, ts) \<in> held (thr s' t)"
    have "accessed s' t b ts" if "(b, ts) \<in> held (thr s t)"
      using inv_heldD [OF D(10) that] acs unfolding accessed_def same by blast
    with hd [OF h] show "tkind s' t = KPolling \<and> accessed s' t b ts"
      by blast
  qed
  moreover have "inv_source s'"
    unfolding inv_source_def
  proof (intro conjI allI impI)
    fix sl k
    assume "k < nwords s' sl \<and> word_busy (word_at s' sl k) \<and> word_seen (word_at s' sl k) \<noteq> 0"
    then obtain j where "word_source s sl k j"
      using D(11) unfolding inv_source_def same by blast
    then have "word_source s' sl k j"
      using eo [of j] unfolding word_source_def same by simp
    then show "\<exists>j. word_source s' sl k j"
      by blast
  next
    fix t sl b e
    assume a: "tslot (thr s' t) = Some sl \<and> tkind s' t = KLoaded b e"
    then have sl: "tslot (thr s t) = Some sl"
      by (simp add: ts)
    from mv [OF sl] a consider "tkind s t = KLoaded b e" | "sees_epoch s s' t e"
      by (auto simp: moves_def)
    then show "\<exists>j<nepochs s'. epoch_at s' j = e \<and> eview s' j \<le> cur (mem s') t \<and>
        j \<le> cur (mem s') t LEpoch \<and> (\<forall>k<nwords s' sl. wview s' sl k LEpoch \<le> j)"
    proof cases
      case 1
      then obtain j where "j < nepochs s" "epoch_at s j = e" "eview s j \<le> cur (mem s) t"
          "j \<le> cur (mem s) t LEpoch" "\<forall>k < nwords s sl. wview s sl k LEpoch \<le> j"
        using D(11) sl unfolding inv_source_def by blast
      then show ?thesis
        unfolding same using cle [of t] eo [of j]
        by (intro exI [of _ j]) (auto intro: order_trans dest: le_funD)
    next
      case 2
      then obtain j where j: "j < nepochs s'" "epoch_at s' j = e" "eview s' j \<le> cur (mem s') t"
          "j \<le> cur (mem s') t LEpoch" "cur (mem s) t LEpoch \<le> j"
        by (auto simp: sees_epoch_def)
      have "wview s sl k LEpoch \<le> j" if "k < nwords s sl" for k
        using owner_knows(4) [OF inv sl that, of LEpoch] j(5) by simp
      then show ?thesis
        unfolding same using j by (intro exI [of _ j]) auto
    qed
  qed
  moreover have "inv_fence s'"
  proof -
    have st: "(\<exists>t. tslot (thr s t) = Some sl \<and> tkind s' t = KStartFence) \<or>
        last_ix (mem s) (LSlot sl) \<le> scv (mem s') (LSlot sl) \<and> sl < scv (mem s') LLen"
      if "tslot (thr s t) = Some sl" "tkind s t = KStartFence" for t sl
    proof -
      from mv [OF that(1)] that(2) consider "tkind s' t = KStartFence" | "cur (mem s) t \<le> scv (mem s')"
        by (auto simp: moves_def)
      then show ?thesis
      proof cases
        case 1
        with that show ?thesis
          by blast
      next
        case 2
        then show ?thesis
          using owner_knows(1, 2) [OF inv that(1)] by (meson le_funD order_trans order_less_le_trans)
      qed
    qed
    show ?thesis
      unfolding inv_fence_def same
    proof (intro conjI allI impI)
      fix sl k
      assume a: "k < nwords s sl \<and> word_at s sl k = encode (busy_state 0) \<and> scv (mem s') (LSlot sl) < k"
      then have "scv (mem s) (LSlot sl) < k"
        using sle by (meson le_funD order_le_less_trans)
      then obtain t where t: "k = last_ix (mem s) (LSlot sl)" "tslot (thr s t) = Some sl"
          "tkind s t = KStartFence"
        using D(12) a unfolding inv_fence_def by blast
      show "k = last_ix (mem s) (LSlot sl)"
        by fact
      show "\<exists>t. tslot (thr s t) = Some sl \<and> tkind s' t = KStartFence"
        using st [OF t(2, 3)] a t(1) by auto
    next
      fix sl
      assume a: "sl < last_ix (mem s) LLen" and le: "scv (mem s') LLen \<le> sl"
      then have "scv (mem s) LLen \<le> sl"
        using sle by (meson le_funD order_trans)
      then obtain t where t: "nwords s sl = 1" "word_at s sl 0 = encode (busy_state 0)"
          "tslot (thr s t) = Some sl" "tkind s t = KStartFence"
        using D(12) a unfolding inv_fence_def by blast
      show "nwords s sl = 1" "word_at s sl 0 = encode (busy_state 0)"
        by fact+
      show "\<exists>t. tslot (thr s t) = Some sl \<and> tkind s' t = KStartFence"
        using st [OF t(3, 4)] le by auto
    qed
  qed
  ultimately show ?thesis
    using wf by (simp add: thread_inv_def)
qed

end
