(* ===== verification/Thread_Steps.thy ===== *)
theory Thread_Steps
  imports Thread_Inv
begin

text \<open>
  The steps that write state words, and every event of the machine as a sequence of thread-level
  steps: quiet ones, the append of a state word, and the push of a new slot.
\<close>

subsection \<open>Appending a state word\<close>

abbreviation start_word :: "'w::len word" where
  "start_word \<equiv> encode (busy_state 0)"

abbreviation last_word :: "('w::len, 'g::len) rcu \<Rightarrow> nat \<Rightarrow> 'w word" where
  "last_word s sl \<equiv> word_at s sl (last_ix (mem s) (LSlot sl))"

text \<open>
  The three ways a thread writes its own slot (it starts, it publishes an epoch id, it parks), giving
  the slot back, and taking over a free slot.
\<close>

definition keeps_slot :: "('w::len, 'g::len) rcu \<Rightarrow> ('w, 'g) rcu \<Rightarrow> tid \<Rightarrow> nat \<Rightarrow> 'w word \<Rightarrow> loc view \<Rightarrow> bool" where
  "keeps_slot s s' t sl w V \<longleftrightarrow>
     tslot (thr s t) = Some sl \<and> tslot (thr s' t) = Some sl \<and> free_slots s' = free_slots s \<and>
     (tkind s t = KParked \<and> tkind s' t = KStartFence \<and> w = start_word \<or>
      (\<exists>b e. tkind s t = KLoaded b e \<and> tkind s' t = KIdle \<and> w = encode (busy_state e) \<and> cur (mem s) t \<le> V) \<or>
      tkind s t = KIdle \<and> tkind s' t = KParked \<and> w = clear_busy (last_word s sl))"

definition leaves_slot :: "('w::len, 'g::len) rcu \<Rightarrow> ('w, 'g) rcu \<Rightarrow> tid \<Rightarrow> nat \<Rightarrow> 'w word \<Rightarrow> bool" where
  "leaves_slot s s' t sl w \<longleftrightarrow>
     tslot (thr s t) = Some sl \<and> tslot (thr s' t) = None \<and> free_slots s' = free_slots s @ [sl] \<and>
     tkind s t = KIdle \<and> unslotted (tpc (thr s' t)) \<and> w = NONE_ENCODED_VALUE \<and>
     cur (mem s') t \<le> lv (mem s') LkSlots"

definition takes_slot :: "('w::len, 'g::len) rcu \<Rightarrow> ('w, 'g) rcu \<Rightarrow> tid \<Rightarrow> nat \<Rightarrow> 'w word \<Rightarrow> bool" where
  "takes_slot s s' t sl w \<longleftrightarrow>
     tslot (thr s t) = None \<and> tslot (thr s' t) = Some sl \<and> free_slots s = free_slots s' @ [sl] \<and>
     tkind s t = KIdle \<and> tkind s' t = KStartFence \<and> w = start_word \<and> knows_slot s (cur (mem s) t) sl"

definition appends ::
    "('w::len, 'g::len) rcu \<Rightarrow> ('w, 'g) rcu \<Rightarrow> tid \<Rightarrow> nat \<Rightarrow> 'w word \<Rightarrow> loc view \<Rightarrow> bool" where
  "appends s s' t sl w V \<longleftrightarrow>
     wf_mem (mem s') \<and> grows (mem s) (mem s') \<and> scv (mem s') = scv (mem s) \<and> accs s' = accs s \<and>
     (\<forall>x. hist (mem s') x = hist (mem s) x @ (if x = LSlot sl then [(VEpoch w, V)] else [])) \<and>
     (\<forall>u. u \<noteq> t \<longrightarrow> thr s' u = thr s u) \<and> held (thr s' t) = held (thr s t) \<and> proper (tpc (thr s' t)) \<and>
     wview s sl (last_ix (mem s) (LSlot sl)) \<le> V \<and> V \<le> cur (mem s') t \<and>
     nwords s sl \<le> cur (mem s') t (LSlot sl) \<and>
     (keeps_slot s s' t sl w V \<or> leaves_slot s s' t sl w \<or> takes_slot s s' t sl w)"

lemma last_busy:
  assumes "thread_inv s" and "tslot (thr s t) = Some sl"
    and "tkind s t = KIdle \<or> tkind s t = KPolling \<or> (\<exists>b e. tkind s t = KLoaded b e)"
  shows "word_busy (last_word s sl)"
proof -
  have "last_word_ok (tkind s t) (last_word s sl)"
    using thread_invD(7) [OF assms(1)] assms(2) by (auto simp: inv_last_def)
  with assms(3) show ?thesis
    by (auto simp: last_word_ok_def split: if_splits)
qed

lemma word_source_mono:
  assumes g: "grows (mem s) (mem s')" and k: "k < nwords s sl" and src: "word_source s sl k j"
  shows "word_source s' sl k j"
proof -
  have "j < nepochs s"
    using src by (simp add: word_source_def)
  moreover have "nepochs s \<le> nepochs s'"
    by (rule growsD(4) [OF g])
  ultimately show ?thesis
    using src growsD(7, 8) [OF g \<open>j < nepochs s\<close>] growsD(7, 8) [OF g, of _ "LSlot sl"] k
    by (auto simp: word_source_def)
qed

text \<open>What the three cases share, over the words and the threads before the step.\<close>

lemma appendsD:
  assumes inv: "thread_inv s" and ap: "appends s s' t sl w V"
  shows "nwords s sl \<noteq> 0" and "sl < last_ix (mem s) LLen"
    and "nwords s' x = (if x = sl then Suc (nwords s sl) else nwords s x)"
    and "last_ix (mem s') (LSlot x) = (if x = sl then nwords s sl else last_ix (mem s) (LSlot x))"
    and "k < nwords s' x \<Longrightarrow> word_at s' x k = (if x = sl \<and> k = nwords s sl then w else word_at s x k)"
    and "k < nwords s' x \<Longrightarrow> wview s' x k = (if x = sl \<and> k = nwords s sl then V else wview s x k)"
    and "nepochs s' = nepochs s" and "epoch_at s' j = epoch_at s j" and "eview s' j = eview s j"
    and "last_ix (mem s') LLen = last_ix (mem s) LLen" and "hist (mem s') LLen = hist (mem s) LLen"
    and "mval (mem s') LLen l = mval (mem s) LLen l"
    and "tslot (thr s u) = Some sl \<Longrightarrow> u = t"
    and "tslot (thr s' u) = Some sl \<Longrightarrow> u = t"
    and "tslot (thr s t) = Some sl \<or> tslot (thr s t) = None \<and> sl \<in> set (free_slots s)"
    and "(b, ts) \<notin> held (thr s' t)"
    and "k < nwords s sl \<Longrightarrow> wview s sl k \<le> cur (mem s) t"
    and "tkind s t = KParked \<or> tkind s t = KIdle \<or> (\<exists>b e. tkind s t = KLoaded b e)"
    and "x \<noteq> sl \<Longrightarrow> word_at s' x k = word_at s x k" and "x \<noteq> sl \<Longrightarrow> wview s' x k = wview s x k"
proof -
  note D = thread_invD [OF inv]
  have h: "\<And>x. hist (mem s') x = hist (mem s) x @ (if x = LSlot sl then [(VEpoch w, V)] else [])"
    and c: "keeps_slot s s' t sl w V \<or> leaves_slot s s' t sl w \<or> takes_slot s s' t sl w"
    and oth: "\<And>u. u \<noteq> t \<Longrightarrow> thr s' u = thr s u" and hd: "held (thr s' t) = held (thr s t)"
    using ap by (auto simp: appends_def)
  show own: "tslot (thr s t) = Some sl \<or> tslot (thr s t) = None \<and> sl \<in> set (free_slots s)"
    using c by (auto simp: keeps_slot_def leaves_slot_def takes_slot_def)
  show len: "sl < last_ix (mem s) LLen"
    using own D(5) by (auto simp: inv_owner_def)
  then show n: "nwords s sl \<noteq> 0"
    using D(2) by (simp add: inv_len_def)
  show "nwords s' x = (if x = sl then Suc (nwords s sl) else nwords s x)"
    and "nepochs s' = nepochs s" and "epoch_at s' j = epoch_at s j" and "eview s' j = eview s j"
    and "last_ix (mem s') LLen = last_ix (mem s) LLen" and "hist (mem s') LLen = hist (mem s) LLen"
    and "mval (mem s') LLen l = mval (mem s) LLen l"
    by (simp_all add: h mval_def mview_def last_ix_def)
  show "last_ix (mem s') (LSlot x) = (if x = sl then nwords s sl else last_ix (mem s) (LSlot x))"
    by (simp add: h last_ix_def)
  show "k < nwords s' x \<Longrightarrow> word_at s' x k = (if x = sl \<and> k = nwords s sl then w else word_at s x k)"
    and "k < nwords s' x \<Longrightarrow> wview s' x k = (if x = sl \<and> k = nwords s sl then V else wview s x k)"
    and "x \<noteq> sl \<Longrightarrow> word_at s' x k = word_at s x k" and "x \<noteq> sl \<Longrightarrow> wview s' x k = wview s x k"
    by (auto simp: h mval_def mview_def nth_append split: if_splits)
  show uniq: "tslot (thr s u) = Some sl \<Longrightarrow> u = t" for u
    using own D(5) unfolding inv_owner_def by blast
  show "tslot (thr s' u) = Some sl \<Longrightarrow> u = t" for u
    using uniq [of u] oth [of u] by (cases "u = t") auto
  show k: "tkind s t = KParked \<or> tkind s t = KIdle \<or> (\<exists>b e. tkind s t = KLoaded b e)"
    using c by (auto simp: keeps_slot_def leaves_slot_def takes_slot_def)
  show "(b, ts) \<notin> held (thr s' t)" for b ts
    using k inv_heldD [OF D(10), of b ts t] by (auto simp: hd)
  show "k < nwords s sl \<Longrightarrow> wview s sl k \<le> cur (mem s) t" for k
    using c owner_knows(3) [OF inv, of t sl k]
    by (auto simp: keeps_slot_def leaves_slot_def takes_slot_def knows_slot_def)
qed

lemma thread_inv_appends:
  assumes inv: "thread_inv s" and ap: "appends s s' t sl w V"
  shows "thread_inv s'"
proof -
  note D = thread_invD [OF inv]
  note A = appendsD [OF inv ap]
  have wf: "wf_mem (mem s')" and g: "grows (mem s) (mem s')" and sc: "scv (mem s') = scv (mem s)"
    and ac: "accs s' = accs s"
    and c: "keeps_slot s s' t sl w V \<or> leaves_slot s s' t sl w \<or> takes_slot s s' t sl w"
    and oth: "\<And>u. u \<noteq> t \<Longrightarrow> thr s' u = thr s u" and pr: "proper (tpc (thr s' t))"
    and Vl: "wview s sl (last_ix (mem s) (LSlot sl)) \<le> V" and Vc: "V \<le> cur (mem s') t"
    and ix: "nwords s sl \<le> cur (mem s') t (LSlot sl)"
    and h: "\<And>x. hist (mem s') x = hist (mem s) x @ (if x = LSlot sl then [(VEpoch w, V)] else [])"
    using ap by (auto simp: appends_def)
  have cle: "cur (mem s) u \<le> cur (mem s') u" and lle: "lv (mem s) k \<le> lv (mem s') k" for u k
    using growsD [OF g] by simp_all
  have last0: "last_ix (mem s) (LSlot sl) < nwords s sl"
    using A(1) by (simp add: last_ix_def)
  have lastS: "Suc (last_ix (mem s) (LSlot sl)) = nwords s sl"
    using A(1) by (simp add: last_ix_def)
  have kd': "tslot (thr s' t) = Some sl \<and> (tkind s' t = KStartFence \<and> w = start_word \<or>
      (\<exists>e. tkind s' t = KIdle \<and> w = encode (busy_state e) \<and> valid_epoch e) \<or>
      tkind s' t = KParked \<and> \<not> word_busy w) \<or>
      tslot (thr s' t) = None \<and> unslotted (tpc (thr s' t)) \<and> \<not> word_busy w"
    using c D(4) by (auto simp: keeps_slot_def leaves_slot_def takes_slot_def inv_epochs_def)
  have ld': "tkind s' u = KLoaded b e \<Longrightarrow> u \<noteq> t" for u b e
    using kd' unslotted_kind [of "tpc (thr s' t)"] by auto
  have prev: "w = start_word" if "\<not> word_busy (last_word s sl)"
    using c last_busy [OF inv, of t sl] that by (auto simp: keeps_slot_def leaves_slot_def takes_slot_def)
  have "inv_len s'"
    using D(2) lle [of LkSlots] A(1, 2)
    by (auto simp: inv_len_def A le_fun_def intro: order_trans)
  moreover have "inv_nonempty s'"
    using D(3) g unfolding inv_nonempty_def grows_def by (metis append_is_Nil_conv)
  moreover have "inv_epochs s'"
    using D(4) unfolding inv_epochs_def A by (metis ld' oth)
  moreover have "inv_owner s'"
  proof -
    have ts: "tslot (thr s' u) = Some x \<Longrightarrow> u \<noteq> t \<Longrightarrow> tslot (thr s u) = Some x \<and> x \<noteq> sl" for u x
      using A(13) [of u] oth [of u] by auto
    have own: "tslot (thr s u) = Some x \<Longrightarrow> x < last_ix (mem s) LLen \<and> x \<notin> set (free_slots s)"
      "tslot (thr s u) = Some x \<Longrightarrow> tslot (thr s v) = Some x \<Longrightarrow> u = v"
      "distinct (free_slots s)" "x \<in> set (free_slots s) \<Longrightarrow> x < last_ix (mem s) LLen"
      "x < last_ix (mem s) LLen \<Longrightarrow> x \<in> set (free_slots s) \<or> (\<exists>t. tslot (thr s t) = Some x)" for u v x
      using D(5) by (auto simp: inv_owner_def)
    from c have "set (free_slots s') - {sl} = set (free_slots s) - {sl} \<and> distinct (free_slots s') \<and>
        (sl \<in> set (free_slots s') \<longleftrightarrow> tslot (thr s' t) \<noteq> Some sl) \<and>
        (tslot (thr s' t) = None \<or> tslot (thr s' t) = Some sl)"
      using own(3) A(15) own(1) [of t]
      by (auto simp: keeps_slot_def leaves_slot_def takes_slot_def)
    then have f: "x \<noteq> sl \<Longrightarrow> x \<in> set (free_slots s') \<longleftrightarrow> x \<in> set (free_slots s)" "distinct (free_slots s')"
        "sl \<in> set (free_slots s') \<longleftrightarrow> tslot (thr s' t) \<noteq> Some sl"
        "tslot (thr s' t) = None \<or> tslot (thr s' t) = Some sl" for x
      by blast+
    show ?thesis
      unfolding inv_owner_def A
    proof (intro conjI allI impI ballI f(2))
      fix u x
      assume a: "tslot (thr s' u) = Some x"
      then have "u = t \<and> x = sl \<or> u \<noteq> t \<and> x \<noteq> sl \<and> tslot (thr s u) = Some x"
        using ts [OF a] f(4) by (cases "u = t") auto
      then show "x < last_ix (mem s) LLen" and "x \<notin> set (free_slots s')"
        using a A(2) own(1) [of u x] f(1) [of x] f(3) by blast+
    next
      fix u v x
      assume "tslot (thr s' u) = Some x \<and> tslot (thr s' v) = Some x"
      then show "u = v"
        using ts [of u x] ts [of v x] own(2) [of u x v] f(4) by (cases "u = t"; cases "v = t") auto
    next
      fix x
      assume "x \<in> set (free_slots s')"
      then show "x < last_ix (mem s) LLen"
        using f(1) [of x] own(4) A(2) by (cases "x = sl") auto
    next
      fix x
      assume x: "x < last_ix (mem s) LLen"
      show "x \<in> set (free_slots s') \<or> (\<exists>u. tslot (thr s' u) = Some x)"
      proof (cases "x = sl")
        case True
        then show ?thesis
          using f(3) by blast
      next
        case False
        have "\<exists>u. tslot (thr s' u) = Some x" if u: "tslot (thr s u) = Some x" for u
        proof -
          have "u \<noteq> t"
            using A(15) u False by auto
          with u oth show ?thesis
            by metis
        qed
        with own(5) [OF x] f(1) [OF False] show ?thesis
          by blast
      qed
    qed
  qed
  moreover have "inv_pos s'"
  proof -
    have "(tslot (thr s' u) = None \<longrightarrow> unslotted (tpc (thr s' u))) \<and> proper (tpc (thr s' u)) \<and>
        (tkind s' u = KGone \<longrightarrow> tslot (thr s' u) = None)" for u
      using D(6) oth [of u] pr kd' unfolding inv_pos_def by (cases "u = t") auto
    then show ?thesis
      by (simp add: inv_pos_def)
  qed
  moreover have "inv_last s'"
    unfolding inv_last_def
  proof (intro conjI allI impI ballI)
    fix u x
    assume u: "tslot (thr s' u) = Some x"
    show "last_word_ok (tkind s' u) (word_at s' x (last_ix (mem s') (LSlot x)))"
    proof (cases "u = t")
      case True
      with u kd' have "x = sl"
        by auto
      then show ?thesis
        using kd' u True by (auto simp: A last_word_ok_def valid_epoch_def)
    next
      case False
      then have "x \<noteq> sl"
        using u A(13) [of u] oth by auto
      then show ?thesis
        using False u oth D(7) by (auto simp: A inv_last_def)
    qed
  next
    fix x
    assume x: "x \<in> set (free_slots s')"
    show "\<not> word_busy (word_at s' x (last_ix (mem s') (LSlot x)))"
    proof (cases "x = sl")
      case True
      then have "tslot (thr s' t) \<noteq> Some sl"
        using x c D(5) by (auto simp: keeps_slot_def leaves_slot_def takes_slot_def inv_owner_def)
      then show ?thesis
        using kd' True by (auto simp: A)
    next
      case False
      then have "x \<in> set (free_slots s)"
        using x c by (auto simp: keeps_slot_def leaves_slot_def takes_slot_def)
      then show ?thesis
        using False D(7) by (auto simp: A inv_last_def)
    qed
  next
    fix x k
    assume k: "Suc k < nwords s' x \<and> \<not> word_busy (word_at s' x k)"
    show "word_at s' x (Suc k) = start_word"
    proof (cases "x = sl \<and> Suc k = nwords s sl")
      case True
      then have "k = last_ix (mem s) (LSlot sl)"
        using lastS by simp
      with True k prev show ?thesis
        by (auto simp: A)
    next
      case False
      with k have "Suc k < nwords s x" "\<not> word_busy (word_at s x k)"
        by (auto simp: A split: if_splits)
      with False D(7) k show ?thesis
        by (auto simp: A(5) inv_last_def)
    qed
  qed
  moreover have "inv_know s'"
  proof -
    have knew: "knows_slot s' (cur (mem s') t) sl"
      if "sl < cur (mem s') t LLen"
    proof -
      have "wview s sl k \<le> cur (mem s') t" if "k < nwords s sl" for k
        using A(17) [OF that] cle [of t] by (rule order_trans)
      then show ?thesis
        using that ix Vc by (auto simp: knows_slot_def A less_Suc_eq)
    qed
    have sll: "sl < cur (mem s') t LLen"
    proof -
      have "sl < cur (mem s) t LLen"
        using c owner_knows(2) [OF inv, of t sl]
        by (auto simp: keeps_slot_def leaves_slot_def takes_slot_def knows_slot_def)
      then show ?thesis
        using cle [of t] by (meson le_funD order_less_le_trans)
    qed
    note knew = knew [OF sll]
    show ?thesis
      unfolding inv_know_def
    proof (intro conjI allI impI ballI)
      fix u x
      assume u: "tslot (thr s' u) = Some x"
      show "knows_slot s' (cur (mem s') u) x"
      proof (cases "u = t")
        case True
        with u kd' knew show ?thesis
          by auto
      next
        case False
        then have "tslot (thr s u) = Some x" "x \<noteq> sl"
          using u A(13) [of u] oth by auto
        then show ?thesis
          using D(8) by (intro knows_slot_mono [OF _ cle]) (auto simp: inv_know_def h)
      qed
    next
      fix x
      assume x: "x \<in> set (free_slots s')"
      show "knows_slot s' (lv (mem s') LkSlots) x"
      proof (cases "x = sl")
        case True
        then have "leaves_slot s s' t sl w"
          using x c D(5) by (auto simp: keeps_slot_def takes_slot_def inv_owner_def)
        then have "cur (mem s') t \<le> lv (mem s') LkSlots"
          by (simp add: leaves_slot_def)
        then show ?thesis
          unfolding True using knew by (auto intro: knows_slot_mono)
      next
        case False
        then have "x \<in> set (free_slots s)"
          using x c by (auto simp: keeps_slot_def leaves_slot_def takes_slot_def)
        then show ?thesis
          using False D(8) by (intro knows_slot_mono [OF _ lle]) (auto simp: inv_know_def h)
      qed
    qed
  qed
  moreover have "inv_accs s'"
    unfolding inv_accs_def ac
  proof
    fix a
    assume a: "a \<in> accs s"
    note P = D(9) [unfolded inv_accs_def, rule_format, OF a]
    have clk: "a_clk a \<le> cur (mem s') (a_tid a) (LClk (a_tid a))"
      using P le_funD [OF cle [of "a_tid a"], of "LClk (a_tid a)"] by simp
    show "0 < a_idx a \<and> a_idx a \<le> nwords s' (a_slot a) \<and>
        word_busy (word_at s' (a_slot a) (a_idx a - 1)) \<and>
        a_clk a \<le> cur (mem s') (a_tid a) (LClk (a_tid a)) \<and>
        (\<forall>k < a_idx a. wview s' (a_slot a) k (LPtr (a_box a)) \<le> a_ts a) \<and>
        (\<forall>k < nwords s' (a_slot a). a_idx a \<le> k \<longrightarrow> a_clk a \<le> wview s' (a_slot a) k (LClk (a_tid a))) \<and>
        (a_idx a = nwords s' (a_slot a) \<longrightarrow> tslot (thr s' (a_tid a)) = Some (a_slot a) \<and>
           (tkind s' (a_tid a) = KPolling \<or> (\<exists>e. tkind s' (a_tid a) = KLoaded False e)))"
    proof (cases "a_slot a = sl")
      case False
      moreover have "a_tid a \<noteq> t" if "tslot (thr s (a_tid a)) = Some (a_slot a)"
        using that False A(15) by auto
      ultimately show ?thesis
        using P clk oth [of "a_tid a"] by (auto simp: A)
    next
      case True
      have V: "a_clk a \<le> V (LClk (a_tid a))"
      proof (cases "a_idx a = nwords s sl")
        case eq: True
        with P True have "tslot (thr s (a_tid a)) = Some sl"
            "tkind s (a_tid a) = KPolling \<or> (\<exists>e. tkind s (a_tid a) = KLoaded False e)"
          by auto
        with A(13) [of "a_tid a"] have "a_tid a = t" "\<exists>b e. tkind s t = KLoaded b e"
          using A(18) by auto
        with c have "cur (mem s) t \<le> V"
          by (auto simp: keeps_slot_def leaves_slot_def takes_slot_def)
        with P \<open>a_tid a = t\<close> show ?thesis
          by (meson le_funD order_trans)
      next
        case False
        then have "a_clk a \<le> wview s sl (last_ix (mem s) (LSlot sl)) (LClk (a_tid a))"
          using P True last0 lastS by auto
        with Vl show ?thesis
          by (meson le_funD order_trans)
      qed
      have "a_idx a \<noteq> nwords s' (a_slot a)" "a_idx a - 1 \<noteq> nwords s sl"
        using P True by (auto simp: A)
      with P True clk V show ?thesis
        by (auto simp: A less_Suc_eq)
    qed
  qed
  moreover have "inv_held s'"
  proof (rule inv_heldI)
    fix u b ts
    assume h: "(b, ts) \<in> held (thr s' u)"
    then have "u \<noteq> t"
      using A(16) by blast
    with h oth have o: "thr s' u = thr s u" and "(b, ts) \<in> held (thr s u)"
      by simp_all
    with inv_heldD [OF D(10)] have k: "tkind s u = KPolling" "accessed s u b ts"
      by blast+
    have "tslot (thr s u) \<noteq> Some sl"
      using A(13) \<open>u \<noteq> t\<close> by blast
    with k show "tkind s' u = KPolling \<and> accessed s' u b ts"
      by (auto simp: accessed_def A ac o)
  qed
  moreover have "inv_source s'"
    unfolding inv_source_def
  proof (intro conjI allI impI)
    fix x k
    assume k: "k < nwords s' x \<and> word_busy (word_at s' x k) \<and> word_seen (word_at s' x k) \<noteq> 0"
    show "\<exists>j. word_source s' x k j"
    proof (cases "x = sl \<and> k = nwords s sl")
      case False
      then have "k < nwords s x" "word_at s' x k = word_at s x k"
        using k by (auto simp: A split: if_splits)
      then obtain j where "word_source s x k j"
        using D(11) k unfolding inv_source_def by metis
      then have "word_source s' x k j"
        using word_source_mono [OF g] \<open>k < nwords s x\<close> by blast
      then show ?thesis
        by blast
    next
      case True
      then have w: "word_busy w" "word_seen w \<noteq> 0"
        using k by (auto simp: A)
      then have "\<exists>b e. tkind s t = KLoaded b e \<and> w = encode (busy_state e) \<and> cur (mem s) t \<le> V \<and>
          tslot (thr s t) = Some sl"
        using c by (auto simp: keeps_slot_def leaves_slot_def takes_slot_def)
      then obtain b e j where e: "w = encode (busy_state e)" "cur (mem s) t \<le> V" "tkind s t = KLoaded b e"
        and "j < nepochs s" "epoch_at s j = e" "eview s j \<le> cur (mem s) t" "j \<le> cur (mem s) t LEpoch"
          "\<forall>k<nwords s sl. wview s sl k LEpoch \<le> j"
        using D(11) unfolding inv_source_def by blast
      moreover have "even e"
        using D(4) e(3) by (auto simp: inv_epochs_def valid_epoch_def)
      moreover have "word_at s' sl (nwords s sl) = w" "wview s' sl (nwords s sl) = V"
          "\<And>k0. k0 < nwords s sl \<Longrightarrow> wview s' sl k0 = wview s sl k0"
        by (simp_all add: A)
      ultimately have "word_source s' x k j"
        using True by (auto simp: word_source_def A(7-9) intro: order_trans dest: le_funD)
      then show ?thesis
        by blast
    qed
  next
    fix u x b e
    assume u: "tslot (thr s' u) = Some x \<and> tkind s' u = KLoaded b e"
    then have "u \<noteq> t"
      using ld' by blast
    moreover from this u have "tslot (thr s u) = Some x" "x \<noteq> sl" "tkind s u = KLoaded b e"
      using A(13) [of u] oth by auto
    moreover from this obtain j where "j < nepochs s" "epoch_at s j = e" "eview s j \<le> cur (mem s) u"
        "j \<le> cur (mem s) u LEpoch" "\<forall>k<nwords s x. wview s x k LEpoch \<le> j"
      using D(11) unfolding inv_source_def by blast
    ultimately show "\<exists>j<nepochs s'. epoch_at s' j = e \<and> eview s' j \<le> cur (mem s') u \<and>
        j \<le> cur (mem s') u LEpoch \<and> (\<forall>k<nwords s' x. wview s' x k LEpoch \<le> j)"
      using cle [of u] by (intro exI [of _ j]) (auto simp: A intro: order_trans dest: le_funD)
  qed
  moreover have "inv_fence s'"
  proof -
    have no: "\<not> (\<exists>u. tslot (thr s u) = Some sl \<and> tkind s u = KStartFence)"
      using A(13, 18) by fastforce
    have keep: "\<exists>u. tslot (thr s' u) = Some x \<and> tkind s' u = KStartFence"
      if "\<exists>u. tslot (thr s u) = Some x \<and> tkind s u = KStartFence" "x \<noteq> sl" for x
      using that A(15) oth by (metis option.distinct(1) option.inject)
    show ?thesis
      unfolding inv_fence_def
    proof (intro conjI allI impI)
      fix x k
      assume k: "k < nwords s' x \<and> word_at s' x k = start_word \<and> scv (mem s') (LSlot x) < k"
      have "k = last_ix (mem s') (LSlot x) \<and> (\<exists>u. tslot (thr s' u) = Some x \<and> tkind s' u = KStartFence)"
      proof (cases "x = sl \<and> k = nwords s sl")
        case True
        then have "w = start_word"
          using k by (simp add: A)
        then have "word_busy w" "word_seen w = 0"
          by simp_all
        then show ?thesis
          using True kd' by (auto simp: A valid_epoch_def)
      next
        case False
        then have "k < nwords s x" "word_at s x k = start_word" "scv (mem s) (LSlot x) < k"
          using k by (auto simp: A sc split: if_splits)
        then have "k = last_ix (mem s) (LSlot x)" "\<exists>u. tslot (thr s u) = Some x \<and> tkind s u = KStartFence"
          using D(12) unfolding inv_fence_def by blast+
        moreover from this no have "x \<noteq> sl"
          by blast
        ultimately show ?thesis
          using keep by (simp add: A)
      qed
      then show "k = last_ix (mem s') (LSlot x)" "\<exists>u. tslot (thr s' u) = Some x \<and> tkind s' u = KStartFence"
        by blast+
    next
      fix x
      assume "x < last_ix (mem s') LLen" "scv (mem s') LLen \<le> x"
      then have o: "nwords s x = 1" "word_at s x 0 = start_word"
          "\<exists>u. tslot (thr s u) = Some x \<and> tkind s u = KStartFence"
        using D(12) unfolding inv_fence_def by (auto simp: A sc)
      moreover from this no have "x \<noteq> sl"
        by blast
      ultimately show "nwords s' x = 1" "word_at s' x 0 = start_word"
          "\<exists>u. tslot (thr s' u) = Some x \<and> tkind s' u = KStartFence"
        using keep by (simp_all add: A)
    qed
  qed
  ultimately show ?thesis
    using wf by (simp add: thread_inv_def)
qed

subsection \<open>Pushing a new slot\<close>

definition pushes :: "('w::len, 'g::len) rcu \<Rightarrow> ('w, 'g) rcu \<Rightarrow> tid \<Rightarrow> loc view \<Rightarrow> bool" where
  "pushes s s' t W \<longleftrightarrow>
     (let sl = last_ix (mem s) LLen in
     wf_mem (mem s') \<and> grows (mem s) (mem s') \<and> scv (mem s') = scv (mem s) \<and> accs s' = accs s \<and>
     (\<forall>x. hist (mem s') x = hist (mem s) x @
        (if x = LSlot sl then [(VEpoch start_word, \<lambda>_. 0)]
         else if x = LLen then [(VLen (Suc sl), W)] else [])) \<and>
     (\<forall>u. u \<noteq> t \<longrightarrow> thr s' u = thr s u) \<and> held (thr s' t) = held (thr s t) \<and> proper (tpc (thr s' t)) \<and>
     tslot (thr s t) = None \<and> tslot (thr s' t) = Some sl \<and> free_slots s = [] \<and> free_slots s' = [] \<and>
     tkind s t = KIdle \<and> tkind s' t = KStartFence \<and>
     sl < cur (mem s') t LLen \<and> sl < lv (mem s') LkSlots LLen)"

lemma pushesD:
  assumes inv: "thread_inv s" and pu: "pushes s s' t W" and sl: "sl = last_ix (mem s) LLen"
  shows "nwords s sl = 0"
    and "nwords s' x = (if x = sl then 1 else nwords s x)"
    and "last_ix (mem s') (LSlot x) = last_ix (mem s) (LSlot x)"
    and "k < nwords s' x \<Longrightarrow> word_at s' x k = (if x = sl then start_word else word_at s x k)"
    and "k < nwords s' x \<Longrightarrow> wview s' x k = (if x = sl then (\<lambda>_. 0) else wview s x k)"
    and "nepochs s' = nepochs s" and "epoch_at s' j = epoch_at s j" and "eview s' j = eview s j"
    and "last_ix (mem s') LLen = Suc sl"
    and "tslot (thr s u) \<noteq> Some sl"
    and "x \<noteq> sl \<Longrightarrow> wview s' x k = wview s x k"
    and "(b, ts) \<notin> held (thr s' t)"
    and "a \<in> accs s \<Longrightarrow> a_slot a \<noteq> sl"
    and "x \<noteq> sl \<Longrightarrow> word_at s' x k = word_at s x k"
proof -
  note D = thread_invD [OF inv]
  have h: "hist (mem s') x = hist (mem s) x @
        (if x = LSlot sl then [(VEpoch start_word, \<lambda>_. 0)]
         else if x = LLen then [(VLen (Suc sl), W)] else [])" for x
    using pu by (simp add: pushes_def Let_def sl)
  show n: "nwords s sl = 0"
    using D(2) unfolding inv_len_def sl by blast
  then have hsl: "hist (mem s) (LSlot sl) = []"
    by simp
  show "nwords s' x = (if x = sl then 1 else nwords s x)"
    and "nepochs s' = nepochs s" and "epoch_at s' j = epoch_at s j" and "eview s' j = eview s j"
    and "x \<noteq> sl \<Longrightarrow> wview s' x k = wview s x k"
    by (simp_all add: h hsl mval_def mview_def)
  show "last_ix (mem s') (LSlot x) = last_ix (mem s) (LSlot x)"
    by (auto simp: h hsl last_ix_def)
  show "k < nwords s' x \<Longrightarrow> word_at s' x k = (if x = sl then start_word else word_at s x k)"
    and "x \<noteq> sl \<Longrightarrow> word_at s' x k = word_at s x k"
    by (auto simp: h hsl mval_def)
  show "k < nwords s' x \<Longrightarrow> wview s' x k = (if x = sl then (\<lambda>_. 0) else wview s x k)"
    by (auto simp: h hsl mview_def)
  have "hist (mem s) LLen \<noteq> []"
    using D(2) by (simp add: inv_len_def)
  then show "last_ix (mem s') LLen = Suc sl"
    by (simp add: h last_ix_def sl)
  show "tslot (thr s u) \<noteq> Some sl"
    using owner_knows(6) [OF inv] n by blast
  have "held (thr s' t) = held (thr s t)" "tkind s t = KIdle"
    using pu by (simp_all add: pushes_def Let_def)
  then show "(b, ts) \<notin> held (thr s' t)"
    using inv_heldD [OF D(10), of b ts t] by auto
  show "a \<in> accs s \<Longrightarrow> a_slot a \<noteq> sl"
    using D(9) n unfolding inv_accs_def by fastforce
qed

lemma thread_inv_pushes:
  assumes inv: "thread_inv s" and pu: "pushes s s' t W"
  shows "thread_inv s'"
proof -
  define sl where sl: "sl = last_ix (mem s) LLen"
  note D = thread_invD [OF inv]
  note A = pushesD [OF inv pu sl]
  have wf: "wf_mem (mem s')" and g: "grows (mem s) (mem s')" and sc: "scv (mem s') = scv (mem s)"
    and ac: "accs s' = accs s"
    and oth: "\<And>u. u \<noteq> t \<Longrightarrow> thr s' u = thr s u" and pr: "proper (tpc (thr s' t))"
    and t0: "tslot (thr s t) = None" and t1: "tslot (thr s' t) = Some sl"
    and fr: "free_slots s = []" "free_slots s' = []" and k0: "tkind s t = KIdle"
    and k1: "tkind s' t = KStartFence"
    and kl: "sl < cur (mem s') t LLen" "Suc sl \<le> lv (mem s') LkSlots LLen"
    and h: "\<And>x. hist (mem s') x = hist (mem s) x @
        (if x = LSlot sl then [(VEpoch start_word, \<lambda>_. 0)]
         else if x = LLen then [(VLen (Suc sl), W)] else [])"
    using pu by (simp_all add: pushes_def Let_def sl Suc_le_eq)
  have cle: "cur (mem s) u \<le> cur (mem s') u" for u
    using growsD [OF g] by simp
  have ld': "tkind s' u = KLoaded b e \<Longrightarrow> u \<noteq> t" for u b e
    using k1 by auto
  have old: "tslot (thr s' u) = Some x \<Longrightarrow> u \<noteq> t \<Longrightarrow> tslot (thr s u) = Some x \<and> x \<noteq> sl" for u x
    using A(10) [of u] oth [of u] by auto
  have new: "tslot (thr s' u) = Some x \<longleftrightarrow> u = t \<and> x = sl \<or> u \<noteq> t \<and> tslot (thr s u) = Some x" for u x
    using oth [of u] t1 by (cases "u = t") auto
  have "inv_len s'"
    unfolding inv_len_def
  proof (intro conjI allI impI)
    show "hist (mem s') LLen \<noteq> []"
      by (simp add: h)
    have len: "length (hist (mem s) LLen) = Suc sl"
      using D(2) by (simp add: inv_len_def sl last_ix_def)
    then have v: "\<And>l. l \<le> sl \<Longrightarrow> mval (mem s) LLen l = VLen l"
      using D(2) by (simp add: inv_len_def)
    fix l
    assume "l < length (hist (mem s') LLen)"
    then show "mval (mem s') LLen l = VLen l"
      using v [of l] by (auto simp: h mval_def nth_append len)
  next
    fix x
    show "(nwords s' x \<noteq> 0) = (x < last_ix (mem s') LLen)"
      using D(2) A(1) by (auto simp: A(2, 9) inv_len_def sl less_Suc_eq)
  next
    show "last_ix (mem s') LLen \<le> lv (mem s') LkSlots LLen"
      using kl(2) by (simp add: A(9))
  qed
  moreover have "inv_nonempty s'"
    using D(3) g unfolding inv_nonempty_def grows_def by (metis append_is_Nil_conv)
  moreover have "inv_epochs s'"
    using D(4) unfolding inv_epochs_def A by (metis ld' oth)
  moreover have "inv_owner s'"
  proof -
    have "tslot (thr s u) = Some x \<Longrightarrow> x < sl"
      "tslot (thr s u) = Some x \<Longrightarrow> tslot (thr s v) = Some x \<Longrightarrow> u = v"
      "x < sl \<Longrightarrow> \<exists>t. tslot (thr s t) = Some x" for u v x
      using D(5) by (auto simp: inv_owner_def fr sl)
    then show ?thesis
      unfolding inv_owner_def fr A(9) new using t0
      by (auto simp: less_Suc_eq) (metis A(10) option.distinct(1))+
  qed
  moreover have "inv_pos s'"
  proof -
    have "(tslot (thr s' u) = None \<longrightarrow> unslotted (tpc (thr s' u))) \<and> proper (tpc (thr s' u)) \<and>
        (tkind s' u = KGone \<longrightarrow> tslot (thr s' u) = None)" for u
      using D(6) oth [of u] pr k1 t1 unfolding inv_pos_def by (cases "u = t") auto
    then show ?thesis
      by (simp add: inv_pos_def)
  qed
  moreover have "inv_last s'"
    unfolding inv_last_def fr
  proof (intro conjI allI impI ballI)
    fix u x
    assume u: "tslot (thr s' u) = Some x"
    show "last_word_ok (tkind s' u) (word_at s' x (last_ix (mem s') (LSlot x)))"
    proof (cases "u = t")
      case True
      then have "x = sl" "last_ix (mem s) (LSlot x) = 0"
        using u t1 A(1) by (auto simp: last_ix_def)
      then show ?thesis
        using True k1 by (simp add: A last_word_ok_def)
    next
      case False
      then show ?thesis
        using old [OF u False] oth D(7) by (auto simp: A inv_last_def)
    qed
  next
    fix x k
    assume "Suc k < nwords s' x \<and> \<not> word_busy (word_at s' x k)"
    then show "word_at s' x (Suc k) = start_word"
      using D(7) by (auto simp: A inv_last_def split: if_splits)
  qed simp
  moreover have "inv_know s'"
    unfolding inv_know_def fr
  proof (intro conjI allI impI)
    fix u x
    assume u: "tslot (thr s' u) = Some x"
    show "knows_slot s' (cur (mem s') u) x"
    proof (cases "u = t")
      case True
      then show ?thesis
        using u t1 kl(1) A(1) by (auto simp: knows_slot_def A last_ix_def le_fun_def)
    next
      case False
      then show ?thesis
        using old [OF u False] D(8) by (intro knows_slot_mono [OF _ cle]) (auto simp: inv_know_def h)
    qed
  qed simp
  moreover have "inv_accs s'"
    unfolding inv_accs_def ac
  proof
    fix a
    assume a: "a \<in> accs s"
    note P = D(9) [unfolded inv_accs_def, rule_format, OF a]
    have "a_clk a \<le> cur (mem s') (a_tid a) (LClk (a_tid a))"
      using P le_funD [OF cle [of "a_tid a"], of "LClk (a_tid a)"] by simp
    moreover have "a_tid a \<noteq> t" if "tslot (thr s (a_tid a)) = Some (a_slot a)"
      using that t0 by auto
    ultimately show "0 < a_idx a \<and> a_idx a \<le> nwords s' (a_slot a) \<and>
        word_busy (word_at s' (a_slot a) (a_idx a - 1)) \<and>
        a_clk a \<le> cur (mem s') (a_tid a) (LClk (a_tid a)) \<and>
        (\<forall>k < a_idx a. wview s' (a_slot a) k (LPtr (a_box a)) \<le> a_ts a) \<and>
        (\<forall>k < nwords s' (a_slot a). a_idx a \<le> k \<longrightarrow> a_clk a \<le> wview s' (a_slot a) k (LClk (a_tid a))) \<and>
        (a_idx a = nwords s' (a_slot a) \<longrightarrow> tslot (thr s' (a_tid a)) = Some (a_slot a) \<and>
           (tkind s' (a_tid a) = KPolling \<or> (\<exists>e. tkind s' (a_tid a) = KLoaded False e)))"
      using P A(13) [OF a] oth [of "a_tid a"] by (auto simp: A)
  qed
  moreover have "inv_held s'"
  proof (rule inv_heldI)
    fix u b ts
    assume hd: "(b, ts) \<in> held (thr s' u)"
    then have "u \<noteq> t"
      using A(12) by blast
    with hd oth have o: "thr s' u = thr s u" and "(b, ts) \<in> held (thr s u)"
      by simp_all
    with inv_heldD [OF D(10)] have k: "tkind s u = KPolling" "accessed s u b ts"
      by blast+
    with A(10) [of u] show "tkind s' u = KPolling \<and> accessed s' u b ts"
      by (auto simp: accessed_def A ac o)
  qed
  moreover have "inv_source s'"
    unfolding inv_source_def
  proof (intro conjI allI impI)
    fix x k
    assume k: "k < nwords s' x \<and> word_busy (word_at s' x k) \<and> word_seen (word_at s' x k) \<noteq> 0"
    then have "x \<noteq> sl"
      by (auto simp: A)
    with k have "k < nwords s x" "word_at s' x k = word_at s x k"
      by (auto simp: A split: if_splits)
    with k D(11) obtain j where "word_source s x k j"
      unfolding inv_source_def by metis
    with word_source_mono [OF g \<open>k < nwords s x\<close>] show "\<exists>j. word_source s' x k j"
      by blast
  next
    fix u x b e
    assume u: "tslot (thr s' u) = Some x \<and> tkind s' u = KLoaded b e"
    then have "u \<noteq> t"
      using ld' by blast
    moreover from this u have "tslot (thr s u) = Some x" "x \<noteq> sl" "tkind s u = KLoaded b e"
      using old [of u x] oth by auto
    moreover from this obtain j where "j < nepochs s" "epoch_at s j = e" "eview s j \<le> cur (mem s) u"
        "j \<le> cur (mem s) u LEpoch" "\<forall>k<nwords s x. wview s x k LEpoch \<le> j"
      using D(11) unfolding inv_source_def by blast
    ultimately show "\<exists>j<nepochs s'. epoch_at s' j = e \<and> eview s' j \<le> cur (mem s') u \<and>
        j \<le> cur (mem s') u LEpoch \<and> (\<forall>k<nwords s' x. wview s' x k LEpoch \<le> j)"
      using cle [of u] by (intro exI [of _ j]) (auto simp: A intro: order_trans dest: le_funD)
  qed
  moreover have "inv_fence s'"
  proof -
    have keep: "\<exists>u. tslot (thr s' u) = Some x \<and> tkind s' u = KStartFence"
      if "\<exists>u. tslot (thr s u) = Some x \<and> tkind s u = KStartFence" for x
      using that t0 oth by (metis option.distinct(1))
    show ?thesis
      unfolding inv_fence_def
    proof (intro conjI allI impI)
      fix x k
      assume k: "k < nwords s' x \<and> word_at s' x k = start_word \<and> scv (mem s') (LSlot x) < k"
      then have x: "k < nwords s x" "word_at s x k = start_word" "scv (mem s) (LSlot x) < k"
        by (auto simp: A sc split: if_splits)
      with D(12) have "k = last_ix (mem s) (LSlot x)" "\<exists>u. tslot (thr s u) = Some x \<and> tkind s u = KStartFence"
        unfolding inv_fence_def by blast+
      with keep show "k = last_ix (mem s') (LSlot x)"
          "\<exists>u. tslot (thr s' u) = Some x \<and> tkind s' u = KStartFence"
        by (simp_all add: A)
    next
      fix x
      assume x: "x < last_ix (mem s') LLen" "scv (mem s') LLen \<le> x"
      have "nwords s' x = 1 \<and> word_at s' x 0 = start_word \<and>
          (\<exists>u. tslot (thr s' u) = Some x \<and> tkind s' u = KStartFence)"
      proof (cases "x = sl")
        case True
        then show ?thesis
          using t1 k1 by (auto simp: A)
      next
        case False
        with x have "x < last_ix (mem s) LLen"
          by (simp add: A(9) sl less_Suc_eq)
        with x D(12) have o: "nwords s x = 1" "word_at s x 0 = start_word"
            "\<exists>u. tslot (thr s u) = Some x \<and> tkind s u = KStartFence"
          unfolding inv_fence_def by (auto simp: sc)
        with keep False show ?thesis
          by (simp add: A)
      qed
      then show "nwords s' x = 1" "word_at s' x 0 = start_word"
          "\<exists>u. tslot (thr s' u) = Some x \<and> tkind s' u = KStartFence"
        by blast+
    qed
  qed
  ultimately show ?thesis
    using wf by (simp add: thread_inv_def)
qed

end
