(* ===== verification/Hook_Steps.thy ===== *)
theory Hook_Steps
  imports Thread_Steps
begin

text \<open>
  Every step of a hook is a sequence of thread-level steps: \<open>tsteps\<close>. The theory also says what a hook
  leaves alone (\<open>gp_frame\<close>).
\<close>

subsection \<open>Thread-level steps\<close>

definition tstep :: "('w::len, 'g::len) rcu \<Rightarrow> ('w, 'g) rcu \<Rightarrow> bool" where
  "tstep s s' \<longleftrightarrow> quiet s s' \<or> (\<exists>t sl w V. appends s s' t sl w V) \<or> (\<exists>t W. pushes s s' t W)"

abbreviation tsteps :: "('w::len, 'g::len) rcu \<Rightarrow> ('w, 'g) rcu \<Rightarrow> bool" where
  "tsteps \<equiv> tstep\<^sup>*\<^sup>*"

lemma thread_inv_tstep: "thread_inv s \<Longrightarrow> tstep s s' \<Longrightarrow> thread_inv s'"
  by (auto simp: tstep_def intro: thread_inv_quiet thread_inv_appends thread_inv_pushes)

lemma thread_inv_tsteps:
  assumes "tsteps s s'" and "thread_inv s"
  shows "thread_inv s'"
  using assms by (induction rule: rtranclp_induct) (auto intro: thread_inv_tstep)

lemma tstep_quiet: "quiet s s' \<Longrightarrow> tsteps s s'"
  by (auto simp: tstep_def)

lemma tstep_appends: "appends s s' t sl w V \<Longrightarrow> tsteps s s'"
  by (rule r_into_rtranclp) (auto simp: tstep_def)

lemma tstep_pushes: "pushes s s' t W \<Longrightarrow> tsteps s s'"
  by (rule r_into_rtranclp) (auto simp: tstep_def)

subsection \<open>Memory operations that write no state word\<close>

definition calm :: "(loc, lock, ('e, 'g) val) wmem \<Rightarrow> (loc, lock, ('e, 'g) val) wmem \<Rightarrow> bool" where
  "calm m m' \<longleftrightarrow>
     wf_mem m' \<and> grows m m' \<and> hist m' LLen = hist m LLen \<and> (\<forall>sl. hist m' (LSlot sl) = hist m (LSlot sl))"

fun word_loc :: "loc \<Rightarrow> bool" where
  "word_loc LLen = True"
| "word_loc (LSlot _) = True"
| "word_loc _ = False"

lemma calm_refl: "wf_mem m \<Longrightarrow> calm m m"
  by (simp add: calm_def)

lemma calm_trans: "calm m m1 \<Longrightarrow> calm m1 m2 \<Longrightarrow> calm m m2"
  by (auto simp: calm_def intro: grows_trans)

lemma calm_load: "calm m m' \<Longrightarrow> i < length (hist m' x) \<Longrightarrow> calm m (load ord t x i m')"
  by (auto simp: calm_def view_simps intro: grows_trans)

lemma calm_store: "calm m m' \<Longrightarrow> \<not> word_loc x \<Longrightarrow> calm m (store ord t x a m')"
  by (cases x) (auto simp: calm_def view_simps intro: grows_trans)

lemma calm_rmw:
  assumes "calm m m'" and "\<not> word_loc x" and "hist m x \<noteq> []"
  shows "calm m (rmw ord t x a m')"
proof -
  have "hist m' x \<noteq> []"
    using growsD(4) [of m m' x] assms(1, 3) by (auto simp: calm_def)
  then show ?thesis
    using assms(1, 2) by (cases x) (auto simp: calm_def view_simps intro: grows_trans)
qed

lemma calm_fence_sc: "calm m m' \<Longrightarrow> calm m (fence_sc t m')"
  by (auto simp: calm_def view_simps intro: grows_trans)

lemma calm_fence_acq: "calm m m' \<Longrightarrow> calm m (fence_acq t m')"
  by (auto simp: calm_def view_simps intro: grows_trans)

lemma calm_lk_acq: "calm m m' \<Longrightarrow> calm m (lk_acq t k m')"
  by (auto simp: calm_def view_simps intro: grows_trans)

lemma calm_lk_rel: "calm m m' \<Longrightarrow> calm m (lk_rel t k m')"
  by (auto simp: calm_def view_simps intro: grows_trans)

lemmas calm_intros = calm_refl calm_load calm_store calm_rmw calm_fence_sc calm_fence_acq calm_lk_acq
  calm_lk_rel

lemma nonempty:
  assumes "thread_inv s"
  shows "hist (mem s) LEpoch \<noteq> []" "hist (mem s) LHasSub \<noteq> []" "hist (mem s) LNum \<noteq> []"
    "hist (mem s) LStarted \<noteq> []" "hist (mem s) LFinished \<noteq> []" "hist (mem s) (LPtr b) \<noteq> []"
    "hist (mem s) (LClk t) \<noteq> []" "hist (mem s) LLen \<noteq> []"
  using thread_invD(2, 3) [OF assms] by (auto simp: inv_nonempty_def inv_len_def)

text \<open>A thread that does not change is quiet.\<close>

lemma quiet_thread_same:
  assumes "thread_inv s" and "tpc (thr s' t) = tpc (thr s t)" and "tslot (thr s' t) = tslot (thr s t)"
    and "held (thr s' t) \<subseteq> held (thr s t)"
  shows "quiet_thread s s' t"
  using assms(2-4) thread_invD(6) [OF assms(1)] inv_heldD [OF thread_invD(10) [OF assms(1)]]
  by (auto simp: quiet_thread_def inv_pos_def moves_def)

lemma quietI:
  assumes inv: "thread_inv s" and "calm (mem s) (mem s')" and "accs s' = accs s"
    and "free_slots s' = free_slots s"
    and oth: "\<And>u. u \<noteq> t \<Longrightarrow> tpc (thr s' u) = tpc (thr s u) \<and> tslot (thr s' u) = tslot (thr s u) \<and>
          held (thr s' u) = held (thr s u)"
    and "quiet_thread s s' t"
    and ep: "hist (mem s') LEpoch = hist (mem s) LEpoch \<or>
      (\<exists>e V. hist (mem s') LEpoch = hist (mem s) LEpoch @ [(VEpoch e, V)] \<and> valid_epoch e)"
  shows "quiet s s'"
proof -
  have "quiet_thread s s' u" for u
    using oth [of u] assms(6) by (cases "u = t") (auto intro: quiet_thread_same [OF inv])
  moreover have "valid_epoch (epoch_at s' j)" if "j < nepochs s'" for j
    using ep that thread_invD(4) [OF inv] by (auto simp: inv_epochs_def mval_def nth_append)
  ultimately show ?thesis
    using assms by (simp add: quiet_def calm_def)
qed

lemma quiet_calm:
  assumes inv: "thread_inv s" and "calm (mem s) (mem s')"
    and "hist (mem s') LEpoch = hist (mem s) LEpoch"
    and same: "accs s' = accs s" "free_slots s' = free_slots s"
    and thr: "\<And>u. tpc (thr s' u) = tpc (thr s u) \<and> tslot (thr s' u) = tslot (thr s u) \<and>
          held (thr s' u) \<subseteq> held (thr s u)"
  shows "quiet s s'"
proof -
  have "quiet_thread s s' u" for u
    using thr [of u] by (auto intro: quiet_thread_same [OF inv])
  moreover have "valid_epoch (epoch_at s' j)" if "j < nepochs s'" for j
    using assms(3) that thread_invD(4) [OF inv] by (simp add: inv_epochs_def mval_def)
  ultimately show ?thesis
    using assms by (simp add: quiet_def calm_def)
qed

subsection \<open>What hooks leave alone\<close>

definition gp_frame :: "('w::len, 'g::len) rcu \<Rightarrow> ('w, 'g) rcu \<Rightarrow> bool" where
  "gp_frame s s' \<longleftrightarrow>
     grows (mem s) (mem s') \<and> ops s' = ops s \<and> gp_mutex s' = gp_mutex s \<and>
     rst_readers s' = rst_readers s \<and> rst_writer s' = rst_writer s \<and> freed s' = freed s \<and>
     (\<forall>x \<in> {LEpoch, LStarted, LFinished}. hist (mem s') x = hist (mem s) x)"

lemma gp_frame_refl [simp]: "gp_frame s s"
  by (simp add: gp_frame_def)

lemma gp_frame_trans: "gp_frame s s1 \<Longrightarrow> gp_frame s1 s2 \<Longrightarrow> gp_frame s s2"
  by (auto simp: gp_frame_def intro: grows_trans)

text \<open>A step sequence of one thread that leaves the futures alone.\<close>

definition hook_steps :: "('w::len, 'g::len) rcu \<Rightarrow> ('w, 'g) rcu \<Rightarrow> bool" where
  "hook_steps s s' \<longleftrightarrow> tsteps s s' \<and> gp_frame s s'"

lemma hook_steps_trans: "hook_steps s s1 \<Longrightarrow> hook_steps s1 s2 \<Longrightarrow> hook_steps s s2"
  by (auto simp: hook_steps_def intro: gp_frame_trans)

lemma hook_steps_quiet: "quiet s s' \<Longrightarrow> gp_frame s s' \<Longrightarrow> hook_steps s s'"
  by (simp add: hook_steps_def tstep_quiet)

lemma hook_steps_inv: "hook_steps s s' \<Longrightarrow> thread_inv s \<Longrightarrow> thread_inv s'"
  by (auto simp: hook_steps_def intro: thread_inv_tsteps)

lemma on_mem_simps [simp]:
  "mem (on_mem f s) = f (mem s)" "thr (on_mem f s) = thr s" "ops (on_mem f s) = ops s"
  "free_slots (on_mem f s) = free_slots s" "accs (on_mem f s) = accs s"
  "gp_mutex (on_mem f s) = gp_mutex s" "rst_readers (on_mem f s) = rst_readers s"
  "rst_writer (on_mem f s) = rst_writer s" "freed (on_mem f s) = freed s"
  "old_data (on_mem f s) = old_data s" "subscriber_info (on_mem f s) = subscriber_info s"
  "info_writer (on_mem f s) = info_writer s" "woken (on_mem f s) = woken s"
  "rst_waiters (on_mem f s) = rst_waiters s"
  by (simp_all add: on_mem_def)

lemma hook_steps_mem:
  assumes inv: "thread_inv s" and "calm (mem s) (f (mem s))"
    and "\<And>x. x \<in> {LEpoch, LStarted, LFinished} \<Longrightarrow> hist (f (mem s)) x = hist (mem s) x"
  shows "hook_steps s (on_mem f s)"
  using assms(2, 3)
  by (intro hook_steps_quiet quiet_calm [OF inv]) (auto simp: gp_frame_def calm_def)

lemma with_slot_steps:
  assumes inv: "thread_inv s" and w: "with_slot t i sl body s = Some s'"
    and body: "\<And>s1. thread_inv s1 \<Longrightarrow> thr s1 = thr s \<Longrightarrow>
      (\<And>x. hist (mem s1) (LSlot x) = hist (mem s) (LSlot x)) \<Longrightarrow> hook_steps s1 (body s1)"
  shows "hook_steps s s'"
proof -
  let ?s1 = "on_mem (lk_acq t LkCurW) s"
  let ?s2 = "on_mem (load Acquire t LLen i) ?s1"
  have rd: "readable t LLen i (mem ?s1)" and s': "s' = on_mem (lk_rel t LkCurR) (body ?s2)"
    using w by (auto simp: with_slot_def Let_def split: if_splits)
  have wf: "wf_mem (mem s)"
    using thread_invD(1) [OF inv] .
  have 1: "hook_steps s ?s1"
    by (rule hook_steps_mem [OF inv]) (auto simp: view_simps intro: calm_intros wf)
  then have inv1: "thread_inv ?s1"
    using inv hook_steps_inv by blast
  have 2: "hook_steps ?s1 ?s2"
    using rd thread_invD(1) [OF inv1]
    by (intro hook_steps_mem [OF inv1]) (auto simp: view_simps readable_def intro: calm_intros)
  then have inv2: "thread_inv ?s2"
    using inv1 hook_steps_inv by blast
  have 3: "hook_steps ?s2 (body ?s2)"
    by (rule body [OF inv2]) (simp_all add: view_simps)
  then have inv3: "thread_inv (body ?s2)"
    using inv2 hook_steps_inv by blast
  have "hook_steps (body ?s2) s'"
    unfolding s' by (rule hook_steps_mem [OF inv3])
      (auto simp: view_simps intro: calm_intros thread_invD(1) [OF inv3])
  with 1 2 3 show ?thesis
    by (blast intro: hook_steps_trans)
qed

subsection \<open>Writing a state word\<close>

lemma tpc_upd [simp]:
  "thr (set_tpc t p s) u = (if u = t then (thr s t)\<lparr>tpc := p\<rparr> else thr s u)"
  "mem (set_tpc t p s) = mem s" "ops (set_tpc t p s) = ops s" "free_slots (set_tpc t p s) = free_slots s"
  "accs (set_tpc t p s) = accs s" "gp_mutex (set_tpc t p s) = gp_mutex s"
  "rst_readers (set_tpc t p s) = rst_readers s" "rst_writer (set_tpc t p s) = rst_writer s"
  "freed (set_tpc t p s) = freed s" "old_data (set_tpc t p s) = old_data s"
  by (simp_all add: set_tpc_def)

lemma gp_frame_mem_tpc:
  assumes "grows (mem s) (mem s')" and "s' = set_tpc t p (on_mem f s)"
    and "\<And>x. x \<in> {LEpoch, LStarted, LFinished} \<Longrightarrow> hist (f (mem s)) x = hist (mem s) x"
  shows "gp_frame s s'"
  using assms by (simp add: gp_frame_def)

lemma hook_steps_store:
  assumes inv: "thread_inv s" and sl: "tslot (thr s t) = Some sl" and pr: "proper p"
    and k: "tkind s t = KParked \<and> kind p = KStartFence \<and> w = start_word \<or>
      (\<exists>b e. tkind s t = KLoaded b e \<and> kind p = KIdle \<and> w = encode (busy_state e))"
  shows "hook_steps s (set_tpc t p (on_mem (store Release t (LSlot sl) (VEpoch w)) s))"
proof -
  let ?s' = "set_tpc t p (on_mem (store Release t (LSlot sl) (VEpoch w)) s)"
  let ?V = "sup (cur (mem s) t) (at (LSlot sl) (nwords s sl))"
  have wf: "wf_mem (mem s)"
    using thread_invD(1) [OF inv] .
  have last: "wview s sl (last_ix (mem s) (LSlot sl)) \<le> ?V"
    using owner_knows(3, 6) [OF inv sl] by (auto simp: last_ix_def intro: le_supI1)
  have "appends s ?s' t sl w ?V"
    using wf last sl pr k by (auto simp: appends_def keeps_slot_def view_simps)
  then show ?thesis
    by (auto simp: hook_steps_def gp_frame_def view_simps intro: tstep_appends)
qed

lemma hook_steps_park:
  assumes inv: "thread_inv s" and sl: "tslot (thr s t) = Some sl" and k: "tkind s t = KIdle"
  shows "hook_steps s (set_tpc t (NotifyFence Park) (on_mem (\<lambda>m. rmw Relaxed t (LSlot sl)
             (VEpoch (clear_busy (val_epoch (mval m (LSlot sl) (last_ix m (LSlot sl)))))) m) s))"
    (is "hook_steps s ?s'")
proof -
  have wf: "wf_mem (mem s)"
    using thread_invD(1) [OF inv] .
  have n: "hist (mem s) (LSlot sl) \<noteq> []"
    using owner_knows(6) [OF inv sl] by simp
  have l: "last_ix (mem s) (LSlot sl) < nwords s sl"
    using n by (simp add: last_ix_def)
  have r: "wview s sl (last_ix (mem s) (LSlot sl)) \<le> cur (mem s) t"
    by (rule owner_knows(3) [OF inv sl l])
  let ?V = "rmw_view Relaxed t (LSlot sl) (mem s)"
  have "?V \<le> cur (mem ?s') t"
    using r wf_memD(1) [OF wf, of t] l
    by (auto simp: rmw_view_def view_simps le_fun_def intro: le_supI1 max.coboundedI1 order_trans)
  moreover have "wview s sl (last_ix (mem s) (LSlot sl)) \<le> ?V"
    by (simp add: rmw_view_def)
  ultimately have "appends s ?s' t sl (clear_busy (last_word s sl)) ?V"
    using wf n sl k by (auto simp: appends_def keeps_slot_def view_simps)
  then show ?thesis
    by (auto simp: hook_steps_def gp_frame_def view_simps intro: tstep_appends)
qed

subsection \<open>Slots\<close>

lemma tslot_upd [simp]:
  "thr (set_tslot t p s) u = (if u = t then (thr s t)\<lparr>tslot := p\<rparr> else thr s u)"
  "mem (set_tslot t p s) = mem s" "ops (set_tslot t p s) = ops s"
  "free_slots (set_tslot t p s) = free_slots s"
  "accs (set_tslot t p s) = accs s" "gp_mutex (set_tslot t p s) = gp_mutex s"
  "rst_readers (set_tslot t p s) = rst_readers s" "rst_writer (set_tslot t p s) = rst_writer s"
  "freed (set_tslot t p s) = freed s" "old_data (set_tslot t p s) = old_data s"
  by (simp_all add: set_tslot_def)

lemma hook_steps_reuse:
  assumes inv: "thread_inv s" and t: "tslot (thr s t) = None" "tkind s t = KIdle"
    and fr: "free_slots s \<noteq> []" and lk: "lv (mem s) LkSlots \<le> cur (mem s) t"
  shows "hook_steps s (set_tpc t (StartFence BeforePoll) (on_mem (lk_rel t LkSlots)
    (set_tslot t (Some (last (free_slots s))) (alloc_from_free_slot t (last (free_slots s)) start_word s))))"
    (is "hook_steps s ?s'")
proof -
  let ?sl = "last (free_slots s)"
  let ?V = "sup (cur (mem s) t) (at (LSlot ?sl) (nwords s ?sl))"
  have wf: "wf_mem (mem s)"
    using thread_invD(1) [OF inv] .
  have kn: "knows_slot s (cur (mem s) t) ?sl"
    using thread_invD(8) [OF inv] fr lk by (auto simp: inv_know_def intro: knows_slot_mono)
  have "?sl < last_ix (mem s) LLen"
    using thread_invD(5) [OF inv] fr by (auto simp: inv_owner_def)
  then have "nwords s ?sl \<noteq> 0"
    using thread_invD(2) [OF inv] by (simp add: inv_len_def)
  then have last: "wview s ?sl (last_ix (mem s) (LSlot ?sl)) \<le> ?V"
    using kn by (auto simp: knows_slot_def last_ix_def intro: le_supI1)
  have "grows (mem s) (mem ?s')"
    by (auto simp: alloc_from_free_slot_def intro: grows_trans [OF grows_store grows_lk_rel])
  then have "appends s ?s' t ?sl start_word ?V"
    using wf last kn t fr
    by (auto simp: appends_def takes_slot_def alloc_from_free_slot_def view_simps)
  moreover have "gp_frame s ?s'"
    using \<open>grows (mem s) (mem ?s')\<close> by (simp add: gp_frame_def alloc_from_free_slot_def view_simps)
  ultimately show ?thesis
    by (auto simp: hook_steps_def intro: tstep_appends)
qed

lemma wf_init_slot:
  assumes "wf_mem (mem s)"
  shows "wf_mem (mem (init_slot sl a s))"
proof (rule wf_append [OF assms, of _ "LSlot sl" "VEpoch a" "\<lambda>_. 0"])
  have l: "last_ix (mem s) y \<le> last_ix (mem (init_slot sl a s)) y" for y
    by (simp add: init_slot_def last_ix_def)
  show "bounded (mem (init_slot sl a s)) (vacq (tv (mem (init_slot sl a s)) u))" for u
    using wf_memD(3) [OF assms, of u] l by (auto simp: bounded_def init_slot_def intro: order_trans)
qed (use wf_memD [OF assms] in \<open>auto simp: init_slot_def bounded_def\<close>)

lemma grows_init_slot: "grows (mem s) (mem (init_slot sl a s))"
  by (simp add: grows_def init_slot_def)

lemma init_slot_simps:
  "hist (mem (init_slot sl a s)) x =
     hist (mem s) x @ (if x = LSlot sl then [(VEpoch a, \<lambda>_. 0)] else [])"
  "tv (mem (init_slot sl a s)) = tv (mem s)" "scv (mem (init_slot sl a s)) = scv (mem s)"
  "lv (mem (init_slot sl a s)) = lv (mem s)" "thr (init_slot sl a s) = thr s"
  "ops (init_slot sl a s) = ops s" "free_slots (init_slot sl a s) = free_slots s"
  "accs (init_slot sl a s) = accs s" "gp_mutex (init_slot sl a s) = gp_mutex s"
  "rst_readers (init_slot sl a s) = rst_readers s" "rst_writer (init_slot sl a s) = rst_writer s"
  "freed (init_slot sl a s) = freed s" "old_data (init_slot sl a s) = old_data s"
  by (simp_all add: init_slot_def)

lemma slots_len_eq:
  assumes "thread_inv s"
  shows "slots_len s = last_ix (mem s) LLen"
  using thread_invD(2) [OF assms] by (simp add: slots_len_def inv_len_def last_ix_def)

lemma slots_len_mem: "hist (mem s') LLen = hist (mem s) LLen \<Longrightarrow> slots_len s' = slots_len s"
  by (simp add: slots_len_def mval_def last_ix_def)

text \<open>The push itself; \<open>g\<close> releases the locks that are held.\<close>

lemma hook_steps_push:
  assumes inv: "thread_inv s" and t: "tslot (thr s t) = None" "tkind s t = KIdle"
    and fr: "free_slots s = []" and sl: "sl = slots_len s"
    and m: "mem s' = lk_rel t LkSlots (g (store Release t LLen (VLen (Suc sl)) (mem (init_slot sl start_word s))))"
    and g: "g = (\<lambda>m. m) \<or> g = lk_rel t LkCurW"
    and s': "thr s' = (thr s)(t := (thr s t)\<lparr>tslot := Some sl, tpc := StartFence BeforePoll\<rparr>)"
      "ops s' = ops s" "free_slots s' = free_slots s" "accs s' = accs s" "gp_mutex s' = gp_mutex s"
      "rst_readers s' = rst_readers s" "rst_writer s' = rst_writer s" "freed s' = freed s"
      "old_data s' = old_data s"
  shows "hook_steps s s'"
proof -
  have wf: "wf_mem (mem s)"
    using thread_invD(1) [OF inv] .
  have sl': "sl = last_ix (mem s) LLen" and ne: "hist (mem s) LLen \<noteq> []"
    using slots_len_eq [OF inv] sl nonempty [OF inv] by simp_all
  then have n: "length (hist (mem s) LLen) = Suc sl"
    by (simp add: last_ix_def)
  let ?m1 = "mem (init_slot sl start_word s)"
  let ?m2 = "store Release t LLen (VLen (Suc sl)) ?m1"
  have g2: "grows (mem s) ?m2"
    by (rule grows_trans [OF grows_init_slot grows_store])
  have gr: "grows (mem s) (mem s')"
    using g unfolding m by (auto intro: grows_trans [OF g2] grows_trans [OF grows_lk_rel] grows_lk_rel)
  have w2: "wf_mem ?m2"
    by (intro wf_store wf_init_slot wf)
  have w': "wf_mem (mem s')"
    using g w2 unfolding m by (auto intro: wf_lk_rel)
  have c: "cur (mem s') u = cur ?m2 u" "scv (mem s') = scv ?m2" "hist (mem s') = hist ?m2" for u
    using g unfolding m by (auto simp: view_simps)
  have l: "cur ?m2 t \<le> lv (mem s') LkSlots"
    using g unfolding m by (auto simp: view_simps le_fun_def)
  have ct: "Suc sl \<le> cur ?m2 t LLen"
    by (simp add: view_simps init_slot_simps n)
  have "pushes s s' t (sup (cur (mem s) t) (at LLen (Suc sl)))"
    using gr w' t fr ct le_funD [OF l, of LLen] sl'
    by (auto simp: pushes_def Let_def c s' view_simps init_slot_simps n)
  moreover have "gp_frame s s'"
    using gr by (simp add: gp_frame_def c s' view_simps init_slot_simps)
  ultimately show ?thesis
    by (auto simp: hook_steps_def intro: tstep_pushes)
qed

lemma hook_steps_alloc:
  assumes inv: "thread_inv s" and t: "tslot (thr s t) = None" "tkind s t = KIdle"
    and al: "alloc_slot t grow start_word s = Some s1"
  shows "hook_steps s (set_tpc t (StartFence BeforePoll) s1)"
proof -
  let ?sa = "on_mem (lk_acq t LkSlots) s"
  have wf: "wf_mem (mem s)"
    using thread_invD(1) [OF inv] .
  have a: "hook_steps s ?sa"
    by (rule hook_steps_mem [OF inv]) (auto simp: view_simps intro: calm_intros wf)
  then have inva: "thread_inv ?sa"
    using inv hook_steps_inv by blast
  show ?thesis
  proof (cases "free_slots s = []")
    case False
    then have s1: "s1 = on_mem (lk_rel t LkSlots) (set_tslot t (Some (last (free_slots ?sa)))
        (alloc_from_free_slot t (last (free_slots ?sa)) start_word ?sa))"
      using al by (simp add: alloc_slot_def Let_def)
    have "hook_steps ?sa (set_tpc t (StartFence BeforePoll) s1)"
      unfolding s1 using False t by (intro hook_steps_reuse [OF inva]) (simp_all add: view_simps)
    with a show ?thesis
      by (rule hook_steps_trans)
  next
    case True
    have sl: "slots_len ?sa = slots_len s"
      by (rule slots_len_mem) (simp add: view_simps)
    have s1: "s1 = on_mem (lk_rel t LkSlots) (set_tslot t (Some (slots_len s))
        (alloc_no_free_slots t grow start_word ?sa))"
      using al True by (simp add: alloc_slot_def Let_def split: if_splits)
    let ?sb = "if grow then on_mem (\<lambda>m. lk_acq t LkCurR (lk_acq t LkCurW m)) ?sa else ?sa"
    have b: "hook_steps ?sa ?sb"
    proof (cases grow)
      case True
      have "hook_steps ?sa (on_mem (\<lambda>m. lk_acq t LkCurR (lk_acq t LkCurW m)) ?sa)"
        by (rule hook_steps_mem [OF inva])
          (simp_all only: view_simps calm_lk_acq calm_refl thread_invD(1) [OF inva])
      with True show ?thesis
        by simp
    qed (simp add: hook_steps_def)
    then have invb: "thread_inv ?sb"
      using inva hook_steps_inv by blast
    have slb: "slots_len ?sb = slots_len s"
      by (rule slots_len_mem) (simp add: view_simps)
    have "hook_steps ?sb (set_tpc t (StartFence BeforePoll) s1)"
      by (rule hook_steps_push [OF invb, of t "slots_len s" _ "if grow then lk_rel t LkCurW else (\<lambda>m. m)"])
        (use t True in \<open>auto simp: s1 slb sl alloc_no_free_slots_def Let_def init_slot_simps fun_eq_iff\<close>)
    with a b show ?thesis
      by (blast intro: hook_steps_trans)
  qed
qed

lemma hook_steps_dealloc:
  assumes inv: "thread_inv s" and sl: "tslot (thr s t) = Some sl" and k: "tkind s t = KIdle"
  shows "hook_steps s (set_tpc t (NotifyFence Stop) (dealloc_slot t sl s))"
    (is "hook_steps s ?s'")
proof -
  let ?m1 = "lk_acq t LkSlots (mem s)"
  let ?V = "sup (cur ?m1 t) (at (LSlot sl) (nwords s sl))"
  have wf: "wf_mem (mem s)"
    using thread_invD(1) [OF inv] .
  have "last_ix (mem s) (LSlot sl) < nwords s sl"
    using owner_knows(6) [OF inv sl] by (simp add: last_ix_def)
  from owner_knows(3) [OF inv sl this]
  have last: "wview s sl (last_ix (mem s) (LSlot sl)) \<le> ?V"
    by (auto simp: view_simps le_fun_def le_max_iff_disj)
  have gr: "grows (mem s) (mem ?s')"
    by (simp add: dealloc_slot_def) (meson grows_lk_acq grows_store grows_lk_rel grows_trans)
  then have "appends s ?s' t sl NONE_ENCODED_VALUE ?V"
    using wf last sl k
    by (auto simp: appends_def leaves_slot_def dealloc_slot_def view_simps)
  moreover have "gp_frame s ?s'"
    using gr by (simp add: gp_frame_def dealloc_slot_def view_simps)
  ultimately show ?thesis
    by (auto simp: hook_steps_def intro: tstep_appends)
qed

subsection \<open>The steps that only move the thread\<close>

lemma slotted:
  assumes "thread_inv s" and "\<not> unslotted (tpc (thr s t))"
  shows "tslot (thr s t) \<noteq> None"
  using thread_invD(6) [OF assms(1)] assms(2) by (auto simp: inv_pos_def)

lemma proper_tpc: "thread_inv s \<Longrightarrow> proper (tpc (thr s t))"
  using thread_invD(6) by (auto simp: inv_pos_def)

text \<open>Everything the thread level and the futures see of a state, apart from memory and threads.\<close>

definition same_rest :: "('e, 'g) sys \<Rightarrow> ('e, 'g) sys \<Rightarrow> bool" where
  "same_rest s s' \<longleftrightarrow>
     ops s' = ops s \<and> free_slots s' = free_slots s \<and> accs s' = accs s \<and> gp_mutex s' = gp_mutex s \<and>
     rst_readers s' = rst_readers s \<and> rst_writer s' = rst_writer s \<and> freed s' = freed s \<and>
     old_data s' = old_data s"

lemma hook_steps_tpc:
  assumes inv: "thread_inv s" and c: "calm (mem s) (mem s')" and r: "same_rest s s'"
    and h: "\<forall>x \<in> {LEpoch, LStarted, LFinished}. hist (mem s') x = hist (mem s) x"
    and th: "thr s' = (thr s)(t := (thr s t)\<lparr>tpc := p\<rparr>)"
    and un: "tslot (thr s t) = None \<Longrightarrow> unslotted p" and pr: "proper p"
    and mv: "\<And>sl. tslot (thr s t) = Some sl \<Longrightarrow> moves s s' t sl"
    and hd: "held (thr s t) \<noteq> {} \<Longrightarrow> kind p = KPolling"
  shows "hook_steps s s'"
proof (rule hook_steps_quiet)
  have "quiet_thread s s' t"
    using un pr mv hd by (auto simp: quiet_thread_def th)
  then show "quiet s s'"
    using c r h by (intro quietI [OF inv, of _ t]) (auto simp: same_rest_def th)
  show "gp_frame s s'"
    using c r h by (simp add: gp_frame_def same_rest_def calm_def)
qed

text \<open>The same, for a move between positions of the same kind or into a poll.\<close>

lemma hook_steps_tpc_kind:
  assumes inv: "thread_inv s" and c: "calm (mem s) (mem s')" and r: "same_rest s s'"
    and h: "\<forall>x \<in> {LEpoch, LStarted, LFinished}. hist (mem s') x = hist (mem s) x"
    and th: "thr s' = (thr s)(t := (thr s t)\<lparr>tpc := p\<rparr>)"
    and un: "tslot (thr s t) = None \<Longrightarrow> unslotted p" and pr: "proper p"
    and k: "tslot (thr s t) \<noteq> None \<Longrightarrow>
      kind p = tkind s t \<or> tkind s t = KIdle \<and> kind p = KPolling"
  shows "hook_steps s s'"
proof (rule hook_steps_tpc [OF inv c r h th un pr])
  show "moves s s' t sl" if "tslot (thr s t) = Some sl" for sl
    using k that by (auto simp: moves_def th)
  show "kind p = KPolling" if hd: "held (thr s t) \<noteq> {}"
  proof -
    from hd obtain b ts where "(b, ts) \<in> held (thr s t)"
      by auto
    from inv_heldD [OF thread_invD(10) [OF inv] this] have "tkind s t = KPolling" "tslot (thr s t) \<noteq> None"
      by (auto simp: accessed_def)
    with k show ?thesis
      by auto
  qed
qed

lemma same_rest_mem_tpc [simp]: "same_rest s (set_tpc t p (on_mem f s))"
  by (simp add: same_rest_def)

lemma hook_steps_fence:
  assumes inv: "thread_inv s" and k: "tpc (thr s t) = StartFence h"
  shows "hook_steps s (start_fence h t s)"
proof (rule hook_steps_tpc [OF inv, of _ t])
  show "moves s (start_fence h t s) t sl" for sl
    using k wf_memD(2) [OF thread_invD(1) [OF inv], of t]
    by (auto simp: moves_def start_fence_def view_simps intro: le_supI2)
  have "tslot (thr s t) \<noteq> None" "proper (StartFence h :: 'a word tpc)"
    using k slotted [OF inv, of t] proper_tpc [OF inv, of t] by simp_all
  then show "tslot (thr s t) = None \<Longrightarrow> unslotted (StartLoad h)" "proper (StartLoad h)"
    by simp_all
  show "kind (StartLoad h) = KPolling" if hd: "held (thr s t) \<noteq> {}"
    using hd k inv_heldD [OF thread_invD(10) [OF inv]] by fastforce
qed (auto simp: start_fence_def view_simps fun_eq_iff intro: calm_intros thread_invD(1) [OF inv])

lemma hook_steps_see_epoch:
  assumes inv: "thread_inv s" and st: "this_thread_see_new_epoch_id np t i s = Some s'"
    and k: "tkind s t = KStartLoad \<and> (\<forall>e. kind (np e) = KLoaded True e \<and> proper (np e)) \<or>
      tkind s t = KPolling \<and> (\<forall>e. kind (np e) = KLoaded False e \<and> proper (np e)) \<and> held (thr s t) = {}"
  shows "hook_steps s s'"
proof -
  let ?e = "epoch_at s i"
  have rd: "cur (mem s) t LEpoch \<le> i" "i < nepochs s"
    and s': "s' = set_tpc t (np ?e) (on_mem (load Acquire t LEpoch i) s)"
    using st by (auto simp: this_thread_see_new_epoch_id_def readable_def split: if_splits)
  have hE: "mval (mem s') LEpoch = mval (mem s) LEpoch" "mview (mem s') LEpoch = mview (mem s) LEpoch"
      "nepochs s' = nepochs s"
    by (simp_all add: s' fun_eq_iff mval_def mview_def view_simps)
  have see: "sees_epoch s s' t ?e"
    unfolding sees_epoch_def hE
    by (rule exI [of _ i]) (use rd in \<open>auto simp: s' view_simps le_fun_def le_max_iff_disj\<close>)
  show ?thesis
  proof (rule hook_steps_tpc [OF inv, of _ t "np ?e"])
    show "calm (mem s) (mem s')"
      unfolding s' using rd(2) by (auto intro: calm_intros thread_invD(1) [OF inv])
    have "tslot (thr s t) \<noteq> None"
      using k slotted [OF inv, of t] unslotted_kind [of "tpc (thr s t)"] by fastforce
    then show "tslot (thr s t) = None \<Longrightarrow> unslotted (np ?e)"
      by simp
    show "moves s s' t sl" for sl
      using k see unfolding moves_def by (auto simp: s')
    show "kind (np ?e) = KPolling" if hd: "held (thr s t) \<noteq> {}"
      using hd k inv_heldD [OF thread_invD(10) [OF inv]] by fastforce
  qed (use k in \<open>auto simp: s' view_simps fun_eq_iff\<close>)
qed

subsection \<open>Every hook\<close>

lemma notify_pos:
  assumes inv: "thread_inv s" and k: "tpc (thr s t) = Notifying h n" and p: "p = after_hook h \<or> (\<exists>n'. p = Notifying h n')"
  shows "tslot (thr s t) = None \<Longrightarrow> unslotted p" and "proper p"
    and "kind p = tkind s t \<or> tkind s t = KIdle \<and> kind p = KPolling"
proof -
  have "tslot (thr s t) = None \<Longrightarrow> h = Stop"
    using slotted [OF inv, of t] k by auto
  then show "tslot (thr s t) = None \<Longrightarrow> unslotted p"
    using p by auto
  show "proper p"
    using p by (cases h) auto
  show "kind p = tkind s t \<or> tkind s t = KIdle \<and> kind p = KPolling"
    using p k by (cases h) auto
qed

lemma hook_steps_notify:
  assumes inv: "thread_inv s" and k: "tpc (thr s t) = Notifying h n"
    and st: "thread_epoch_updated_notify_inner skip h n t i s = Some s'"
  shows "hook_steps s s'"
proof -
  have wf: "wf_mem (mem s)" and nn: "hist (mem s) LNum \<noteq> []"
    using thread_invD(1) [OF inv] nonempty [OF inv] by simp_all
  have "\<exists>p. (p = after_hook h \<or> (\<exists>n'. p = Notifying h n')) \<and> calm (mem s) (mem s') \<and> same_rest s s' \<and>
      (\<forall>x \<in> {LEpoch, LStarted, LFinished}. hist (mem s') x = hist (mem s) x) \<and>
      thr s' = (thr s)(t := (thr s t)\<lparr>tpc := p\<rparr>)"
  proof (cases n)
    case NLoad
    show ?thesis
      by (rule exI [of _ "tpc (thr s' t)"])
        (use st NLoad in \<open>auto simp: fun_eq_iff view_simps readable_def split: if_splits intro!: calm_intros wf\<close>)
  next
    case NAdd
    show ?thesis
      by (rule exI [of _ "tpc (thr s' t)"])
        (use st NAdd nn in \<open>auto simp: fun_eq_iff view_simps intro!: calm_intros wf\<close>)
  next
    case NRead
    show ?thesis
      by (rule exI [of _ "tpc (thr s' t)"])
        (use st NRead in \<open>auto simp: fun_eq_iff view_simps split: if_splits option.splits
          intro!: calm_intros wf\<close>)
  next
    case NWrite
    show ?thesis
      by (rule exI [of _ "tpc (thr s' t)"])
        (use st NWrite in \<open>auto simp: fun_eq_iff view_simps Let_def same_rest_def
          split: if_splits option.splits intro!: calm_intros wf\<close>)
  next
    case NClear
    show ?thesis
      by (rule exI [of _ "tpc (thr s' t)"])
        (use st NClear in \<open>auto simp: fun_eq_iff view_simps same_rest_def intro!: calm_intros wf\<close>)
  qed
  then show ?thesis
    using notify_pos [OF inv k] by (blast intro: hook_steps_tpc_kind [OF inv])
qed

lemma hook_steps_set_state:
  assumes inv: "thread_inv s" and st: "set_state t i u p s = Some s'" and pr: "proper p"
    and k: "tkind s t = KParked \<and> kind p = KStartFence \<and> encode u = (start_word :: 'w::len word) \<or>
      (\<exists>b e. tkind s t = KLoaded b e \<and> kind p = KIdle \<and> u = busy_state e)"
  shows "hook_steps s (s' :: ('w, 'g::len) rcu)"
proof -
  obtain sl where sl: "tslot (thr s t) = Some sl" "encode_asserts u"
    using st by (auto simp: set_state_def split: option.splits if_splits)
  show ?thesis
    by (rule with_slot_steps [OF inv, of t i sl])
      (use st sl k pr in \<open>auto simp: set_state_def intro!: hook_steps_store\<close>)
qed

lemma hook_steps_publish:
  assumes inv: "thread_inv s" and k: "tpc (thr s t) = StartStore h e"
    and st: "set_state t i (busy_state e) (NotifyFence h) s = Some s'"
  shows "hook_steps s s'"
proof -
  have "h = BeforePoll \<or> h = Unpark"
    using proper_tpc [OF inv, of t] k by simp
  then show ?thesis
    by (intro hook_steps_set_state [OF inv st]) (auto simp: k)
qed

lemma hook_steps_move:
  assumes inv: "thread_inv s" and un: "tslot (thr s t) = None \<Longrightarrow> unslotted p" and pr: "proper p"
    and k: "tslot (thr s t) \<noteq> None \<Longrightarrow> kind p = tkind s t \<or> tkind s t = KIdle \<and> kind p = KPolling"
  shows "hook_steps s (set_tpc t p s)"
  by (rule hook_steps_tpc_kind [OF inv, of _ t p])
    (use un pr k in \<open>auto simp: same_rest_def fun_eq_iff intro!: calm_intros thread_invD(1) [OF inv]\<close>)

lemma hook_steps_notify_fence:
  assumes inv: "thread_inv s" and k: "tpc (thr s t) = NotifyFence h"
  shows "hook_steps s (notify_fence h t s)"
proof (rule hook_steps_tpc_kind [OF inv, of _ t "Notifying h NLoad"])
  show "unslotted (Notifying h NLoad)" if "tslot (thr s t) = None"
    using slotted [OF inv, of t] k that by auto
qed (use k in \<open>auto simp: notify_fence_def view_simps fun_eq_iff split: hook.splits
    intro!: calm_intros thread_invD(1) [OF inv]\<close>)

lemma hook_steps_before_poll:
  assumes inv: "thread_inv s" and st: "on_before_task_poll (tpc (thr s t)) t i s = Some s'"
  shows "hook_steps s s'"
  using st
proof (cases "(tpc (thr s t), t, i, s)" rule: on_before_task_poll.cases)
  case 1
  then have p: "tpc (thr s t) = Idle"
    by (elim Pair_inject)
  show ?thesis
  proof (cases "tslot (thr s t)")
    case None
    then show ?thesis
      using st p by (auto simp: is_rcu_tracked_thread_def intro!: hook_steps_alloc [OF inv])
  next
    case (Some sl)
    then show ?thesis
      using st p by (auto simp: is_rcu_tracked_thread_def intro!: hook_steps_move [OF inv])
  qed
qed (use st inv in \<open>auto intro: hook_steps_fence hook_steps_notify_fence hook_steps_notify
    hook_steps_see_epoch hook_steps_publish\<close>)

lemma hook_steps_unpark:
  assumes inv: "thread_inv s" and st: "on_thread_unpark (tpc (thr s t)) t i s = Some s'"
  shows "hook_steps s s'"
  using st
proof (cases "(tpc (thr s t), t, i, s)" rule: on_thread_unpark.cases)
  case 1
  then have p: "tpc (thr s t) = Parked"
    by (elim Pair_inject)
  show ?thesis
  proof (cases "tslot (thr s t)")
    case None
    then show ?thesis
      using st p by (auto simp: is_rcu_tracked_thread_def intro!: hook_steps_move [OF inv])
  next
    case (Some sl)
    then have "set_state t i (busy_state 0) (StartFence Unpark) s = Some s'"
      using st p by (simp add: is_rcu_tracked_thread_def)
    then show ?thesis
      by (rule hook_steps_set_state [OF inv]) (simp_all add: p)
  qed
qed (use st inv in \<open>auto intro: hook_steps_fence hook_steps_notify_fence hook_steps_notify
    hook_steps_see_epoch hook_steps_publish\<close>)

lemma hook_steps_load_own:
  assumes inv: "thread_inv s" and k: "tpc (thr s t) = AfterLoad e" and st: "load_own_state e t i s = Some s'"
  shows "hook_steps s s'"
  by (rule hook_steps_tpc_kind [OF inv, of _ t "tpc (thr s' t)"])
    (use st k in \<open>auto simp: load_own_state_def readable_def fun_eq_iff view_simps
      split: option.splits if_splits intro!: calm_intros thread_invD(1) [OF inv]\<close>)

lemma hook_steps_after_poll:
  assumes inv: "thread_inv s" and st: "on_after_task_poll (tpc (thr s t)) t i s = Some s'"
  shows "hook_steps s s'"
  using st
proof (cases "(tpc (thr s t), t, i, s)" rule: on_after_task_poll.cases)
  case 1
  then show ?thesis
    using st inv by (auto split: if_splits intro: hook_steps_see_epoch)
next
  case (3 e prev t0 i0 s0)
  then have p: "tpc (thr s t) = AfterStore e prev"
    by (elim Pair_inject)
  then obtain u where u: "decode prev = Some u"
      "set_state t i (busy_state e) (if last_seen_epoch_id u \<noteq> e then NotifyFence AfterPoll else Idle) s = Some s'"
    using st by (auto split: option.splits if_splits)
  show ?thesis
    by (rule hook_steps_set_state [OF inv u(2)]) (auto simp: p)
qed (use st inv in \<open>auto intro: hook_steps_notify_fence hook_steps_notify hook_steps_load_own\<close>)

lemma hook_steps_thread_park:
  assumes inv: "thread_inv s" and st: "on_thread_park (tpc (thr s t)) t i s = Some s'"
  shows "hook_steps s s'"
  using st
proof (cases "(tpc (thr s t), t, i, s)" rule: on_thread_park.cases)
  case 1
  then have p: "tpc (thr s t) = Idle"
    by (elim Pair_inject)
  show ?thesis
  proof (cases "tslot (thr s t)")
    case None
    then show ?thesis
      using p st by (auto simp: is_rcu_tracked_thread_def intro!: hook_steps_move [OF inv])
  next
    case (Some sl)
    then show ?thesis
      using p st by (intro with_slot_steps [OF inv, of t i sl])
        (auto simp: is_rcu_tracked_thread_def clear_own_busy_def intro: hook_steps_park)
  qed
qed (use st inv in \<open>auto intro: hook_steps_notify_fence hook_steps_notify\<close>)

lemma hook_steps_stop:
  assumes inv: "thread_inv s" and st: "on_thread_stop (tpc (thr s t)) t i s = Some s'"
  shows "hook_steps s s'"
  using st
proof (cases "(tpc (thr s t), t, i, s)" rule: on_thread_stop.cases)
  case 1
  then have p: "tpc (thr s t) = Idle"
    by (elim Pair_inject)
  show ?thesis
  proof (cases "tslot (thr s t)")
    case None
    then show ?thesis
      using st p by (auto intro!: hook_steps_move [OF inv])
  next
    case (Some sl)
    then show ?thesis
      using st p by (auto intro!: hook_steps_dealloc [OF inv] split: if_splits)
  qed
qed (use st inv in \<open>auto intro: hook_steps_notify_fence hook_steps_notify\<close>)

theorem hook_steps_run_hook:
  "thread_inv s \<Longrightarrow> run_hook h t i s = Some s' \<Longrightarrow> hook_steps s s'"
  by (cases h) (auto intro: hook_steps_before_poll hook_steps_unpark hook_steps_after_poll
    hook_steps_thread_park hook_steps_stop)

end
