(* ===== verification/Poll_Steps.thy ===== *)
theory Poll_Steps
  imports Hook_Steps
begin

text \<open>
  The steps of the futures and of user code, seen from the threads: all of them are quiet.
\<close>

subsection \<open>What a step of a future changes\<close>

lemma upd_op_simps [simp]:
  "mem (upd_op q f s) = mem s" "thr (upd_op q f s) = thr s" "free_slots (upd_op q f s) = free_slots s"
  "accs (upd_op q f s) = accs s" "gp_mutex (upd_op q f s) = gp_mutex s"
  "rst_readers (upd_op q f s) = rst_readers s" "rst_writer (upd_op q f s) = rst_writer s"
  "freed (upd_op q f s) = freed s" "old_data (upd_op q f s) = old_data s"
  "ops (upd_op q f s) = (ops s)(q := f (ops s q))"
  by (simp_all add: upd_op_def)

lemma set_opc_simps [simp]:
  "mem (set_opc q p s) = mem s" "thr (set_opc q p s) = thr s" "free_slots (set_opc q p s) = free_slots s"
  "accs (set_opc q p s) = accs s" "gp_mutex (set_opc q p s) = gp_mutex s"
  "rst_readers (set_opc q p s) = rst_readers s" "rst_writer (set_opc q p s) = rst_writer s"
  "freed (set_opc q p s) = freed s" "old_data (set_opc q p s) = old_data s"
  "ops (set_opc q p s) = (ops s)(q := (ops s q)\<lparr>opc := p\<rparr>)"
  by (simp_all add: set_opc_def)

definition op_frame :: "nat \<Rightarrow> ('w::len, 'g::len) rcu \<Rightarrow> ('w, 'g) rcu \<Rightarrow> bool" where
  "op_frame q s s' \<longleftrightarrow>
     calm (mem s) (mem s') \<and> thr s' = thr s \<and> accs s' = accs s \<and> free_slots s' = free_slots s \<and>
     freed s' = freed s \<and> old_data s' = old_data s \<and> (\<forall>r. r \<noteq> q \<longrightarrow> ops s' r = ops s r) \<and>
     attached (ops s' q) = attached (ops s q) \<and> olds (ops s' q) = olds (ops s q) \<and>
     call_view (ops s' q) = call_view (ops s q)"

lemmas op_defs = op_frame_def read_lock_reset_def drop_read_guard_def inc_gp_started_def lock_gp_mutex_def
  check_gp_finished_def load_gp_started_def begin_scan_def scan_slot_def subscribe_flag_def
  subscribe_snapshot_def did_num_notifications_change_since_snapshot_def register_subscriber_info_def
  register_slow_path_def drop_subscriber_flag_def drop_subscriber_info_def

lemma reset_leader_frame:
  assumes inv: "thread_inv s" and st: "reset_leader p q t s = Some s'"
  shows "op_frame q s s'"
  using st thread_invD(1) [OF inv]
  by (cases p; cases "rst_writer s = None \<and> rst_readers s = {}") (auto simp: op_defs intro!: calm_intros)

lemma reset_follower_frame:
  assumes inv: "thread_inv s" and st: "reset_follower p q t s = Some s'"
  shows "op_frame q s s'"
  using st thread_invD(1) [OF inv]
  by (cases p) (auto simp: op_defs split: if_splits intro!: calm_intros)

lemma synchronize_rcu_frame:
  assumes inv: "thread_inv s" and st: "synchronize_rcu p q t i s = Some s'"
  shows "op_frame q s s'"
proof (cases "reset_leader p q t s = None \<and> reset_follower p q t s = None")
  case True
  then show ?thesis
    using st thread_invD(1) [OF inv] nonempty [OF inv]
    by (cases p) (auto simp: op_defs Let_def readable_def split: if_splits option.splits intro!: calm_intros)
next
  case False
  then have "reset_leader p q t s = Some s' \<or> reset_follower p q t s = Some s'"
    using st False by (cases p) (simp_all split: option.splits if_splits)
  then show ?thesis
    using reset_leader_frame [OF inv] reset_follower_frame [OF inv] by blast
qed

lemma synchronize_rcu_serialized_frame:
  assumes inv: "thread_inv s" and st: "synchronize_rcu_serialized p q t i s = Some s'"
  shows "op_frame q s s'"
  using st thread_invD(1) [OF inv]
  by (cases p) (auto simp: op_defs Let_def readable_def split: if_splits intro!: calm_intros)

lemma wait_for_running_threads_frame:
  assumes inv: "thread_inv s"
    and st: "wait_for_running_threads_to_see_epoch_id p q t i wk s = Some s'"
  shows "op_frame q s s'"
  using st thread_invD(1) [OF inv]
  by (cases p) (auto simp: op_defs Let_def readable_def view_simps split: if_splits option.splits
    intro!: calm_intros)

lemma poll_op_cases:
  assumes "poll_op q t i wk s = Some s'"
  obtains "synchronize_rcu (opc (ops s q)) q t i s = Some s'"
    | "synchronize_rcu_serialized (opc (ops s q)) q t i s = Some s'"
    | "wait_for_running_threads_to_see_epoch_id (opc (ops s q)) q t i wk s = Some s'"
  using assms by (auto simp: poll_op_def Let_def split: if_splits option.splits)

lemma poll_op_guard:
  assumes "poll_op q t i wk s = Some s'"
  shows "attached (ops s q) = Some t" and "tpc (thr s t) = Polling"
  using assms by (auto simp: poll_op_def Let_def split: if_splits)

lemma poll_op_frame:
  assumes inv: "thread_inv s" and st: "poll_op q t i wk s = Some s'"
  shows "op_frame q s s'"
  using st by (rule poll_op_cases)
    (auto intro: synchronize_rcu_frame synchronize_rcu_serialized_frame wait_for_running_threads_frame inv)

text \<open>The epoch id is written in three places only.\<close>

lemma poll_op_epoch:
  assumes st: "poll_op q t i wk s = Some s'"
  shows "hist (mem s') LEpoch = hist (mem s) LEpoch \<or>
    (\<exists>e V. hist (mem s') LEpoch = hist (mem s) LEpoch @ [(VEpoch e, V)] \<and>
       (opc (ops s q) = OSetEpoch (e - 2) \<or> e = EPOCH_ID_MIN \<or> e = EPOCH_ID_MIN + 2))"
  using st
proof (cases rule: poll_op_cases)
  case 1
  then show ?thesis
  proof (cases "reset_leader (opc (ops s q)) q t s = None \<and> reset_follower (opc (ops s q)) q t s = None")
    case True
    then show ?thesis
      using 1 by (cases "opc (ops s q)") (auto simp: op_defs Let_def view_simps split: if_splits option.splits)
  next
    case False
    with 1 have "reset_leader (opc (ops s q)) q t s = Some s' \<or> reset_follower (opc (ops s q)) q t s = Some s'"
      by (cases "opc (ops s q)") (simp_all split: option.splits if_splits)
    then show ?thesis
      by (cases "opc (ops s q)") (auto simp: op_defs view_simps split: if_splits)
  qed
next
  case 2
  then show ?thesis
    by (cases "opc (ops s q)") (auto simp: Let_def view_simps split: if_splits)
next
  case 3
  then show ?thesis
    by (cases "opc (ops s q)") (auto simp: op_defs Let_def view_simps split: if_splits option.splits)
qed

lemma valid_epoch_min:
  assumes "2 < LENGTH('w::len)"
  shows "valid_epoch (EPOCH_ID_MIN :: 'w word)" and "valid_epoch (EPOCH_ID_MIN + 2 :: 'w word)"
proof -
  have "(2::nat) ^ 3 \<le> 2 ^ LENGTH('w)"
    using assms by (intro power_increasing) auto
  then have "unat (2 :: 'w word) = 2" "unat (4 :: 'w word) = 4"
    using assms by (simp_all add: take_bit_nat_eq_self)
  then have "(2 :: 'w word) \<noteq> 0" "(4 :: 'w word) \<noteq> 0"
    by (metis unat_0 zero_neq_numeral)+
  then show "valid_epoch (EPOCH_ID_MIN :: 'w word)" and "valid_epoch (EPOCH_ID_MIN + 2 :: 'w word)"
    by (simp_all add: valid_epoch_def EPOCH_ID_MIN_def)
qed

lemma quiet_poll_op:
  assumes inv: "thread_inv (s :: ('w::len, 'g::len) rcu)" and st: "poll_op q t i wk s = Some s'"
    and len: "2 < LENGTH('w)"
    and set: "\<And>e. opc (ops s q) = OSetEpoch e \<Longrightarrow> valid_epoch (e + 2)"
  shows "quiet s s'"
proof -
  have f: "op_frame q s s'"
    by (rule poll_op_frame [OF inv st])
  have "valid_epoch e" if "opc (ops s q) = OSetEpoch (e - 2) \<or> e = EPOCH_ID_MIN \<or> e = EPOCH_ID_MIN + 2" for e
    using that set [of "e - 2"] valid_epoch_min [OF len] by auto
  with poll_op_epoch [OF st] have "hist (mem s') LEpoch = hist (mem s) LEpoch \<or>
      (\<exists>e V. hist (mem s') LEpoch = hist (mem s) LEpoch @ [(VEpoch e, V)] \<and> valid_epoch e)"
    by blast
  then show ?thesis
    using f by (intro quietI [OF inv, of _ t]) (auto simp: op_frame_def intro: quiet_thread_same [OF inv])
qed

subsection \<open>User code\<close>

lemma quiet_thr_upd:
  assumes inv: "thread_inv s" and c: "calm (mem s) (mem s')"
    and "hist (mem s') LEpoch = hist (mem s) LEpoch"
    and "accs s' = accs s" "free_slots s' = free_slots s"
    and "tpc (thr s' t) = tpc (thr s t)" "tslot (thr s' t) = tslot (thr s t)"
      "held (thr s' t) \<subseteq> held (thr s t)" and "\<And>u. u \<noteq> t \<Longrightarrow> thr s' u = thr s u"
  shows "quiet s s'"
proof (rule quiet_calm [OF inv c assms(3-5)])
  fix u
  show "tpc (thr s' u) = tpc (thr s u) \<and> tslot (thr s' u) = tslot (thr s u) \<and>
      held (thr s' u) \<subseteq> held (thr s u)"
    using assms(6-9) by (cases "u = t") auto
qed

text \<open>A recorded access: the version is not older than what the words of the slot published.\<close>

lemma quiet_access:
  assumes inv: "thread_inv s" and sl: "tslot (thr s t) = Some sl" and p: "tpc (thr s t) = Polling"
    and ts: "\<And>k. k < nwords s sl \<Longrightarrow> wview s sl k (LPtr b) \<le> ts"
    and s': "s' = (record_access t sl b ts s)\<lparr>thr := (thr s)(t := (thr s t)\<lparr>held := H\<rparr>)\<rparr>"
    and H: "H \<subseteq> insert (b, ts) (held (thr s t))"
    and new: "cur (mem s) t (LPtr b) \<le> ts \<or> accessed s t b ts"
  shows "quiet s s' \<and> gp_frame s s'"
proof -
  let ?a = "\<lparr>a_tid = t, a_slot = sl, a_box = b, a_ts = ts,
          a_clk = length (hist (mem s) (LClk t)), a_idx = nwords s sl\<rparr>"
  have m: "mem s' = store Relaxed t (LClk t) VAccess (mem s)" and ac: "accs s' = insert ?a (accs s)"
    by (simp_all add: s' record_access_def on_mem_def)
  have c: "calm (mem s) (mem s')"
    unfolding m using thread_invD(1) [OF inv] by (auto intro!: calm_intros)
  have hS: "hist (mem s') (LSlot x) = hist (mem s) (LSlot x)" "hist (mem s') LEpoch = hist (mem s) LEpoch" for x
    by (simp_all add: m view_simps)
  have same: "nwords s' x = nwords s x" "wview s' x k = wview s x k" for x k
    by (simp_all add: mview_def hS)
  have n: "new_access s' ?a"
    using sl p ts by (auto simp: new_access_def same) (auto simp: s' m view_simps record_access_def)
  have "accessed s' t b ts"
    using sl by (auto simp: accessed_def ac same) (auto simp: s' record_access_def)
  then have qt: "quiet_thread s s' t"
    using sl p H thread_invD(6) [OF inv]
    by (auto simp: quiet_thread_def moves_def inv_pos_def s' record_access_def)
  have "quiet_thread s s' u" for u
  proof (cases "u = t")
    case False
    then show ?thesis
      by (intro quiet_thread_same [OF inv]) (simp_all add: s' record_access_def)
  qed (simp add: qt)
  moreover have "valid_epoch (epoch_at s' j)" if "j < nepochs s'" for j
    using that thread_invD(4) [OF inv] by (auto simp: inv_epochs_def mval_def hS)
  moreover have "free_slots s' = free_slots s"
    by (simp add: s' record_access_def)
  ultimately have "quiet s s'"
    using c n new by (auto simp: quiet_def calm_def ac)
  moreover have "gp_frame s s'"
    using c by (simp add: gp_frame_def calm_def) (simp add: s' record_access_def on_mem_def view_simps)
  ultimately show ?thesis
    by blast
qed

lemma hook_steps_read:
  assumes inv: "thread_inv s" and st: "rcu_box_read t b i s = Some s'"
  shows "hook_steps s s'"
proof -
  let ?s1 = "on_mem (load Acquire t (LPtr b) i) s"
  obtain sl where sl: "tslot (thr s t) = Some sl" and p: "tpc (thr s t) = Polling"
    and rd: "cur (mem s) t (LPtr b) \<le> i" "i < length (hist (mem s) (LPtr b))"
    and s': "s' = (record_access t sl b i ?s1)\<lparr>thr := (thr s)(t := (thr s t)\<lparr>held := insert (b, i) (held (thr s t))\<rparr>)\<rparr>"
    using st by (auto simp: rcu_box_read_def readable_def Let_def record_access_def split: option.splits if_splits)
  have 1: "hook_steps s ?s1"
    using rd(2) by (intro hook_steps_mem [OF inv]) (auto simp: view_simps intro!: calm_intros thread_invD(1) [OF inv])
  then have inv1: "thread_inv ?s1"
    using hook_steps_inv inv by blast
  have "wview ?s1 sl k (LPtr b) \<le> i" if "k < nwords ?s1 sl" for k
    using owner_knows(4) [OF inv sl, of k "LPtr b"] that rd(1)
    by (simp add: view_simps mview_def)
  then have "quiet ?s1 s' \<and> gp_frame ?s1 s'"
    by (intro quiet_access [OF inv1, of t sl b i _ "insert (b, i) (held (thr s t))"])
      (use sl p s' rd(1) wf_memD(9) [OF thread_invD(1) [OF inv] rd(2)] in \<open>auto simp: view_simps\<close>)
  with 1 show ?thesis
    by (blast intro: hook_steps_trans hook_steps_quiet)
qed

lemma hook_steps_use:
  assumes inv: "thread_inv s" and st: "use_reference t b ts s = Some s'"
  shows "hook_steps s s'"
proof -
  obtain sl where sl: "tslot (thr s t) = Some sl" and p: "tpc (thr s t) = Polling"
    and h: "(b, ts) \<in> held (thr s t)" and s0: "s' = record_access t sl b ts s"
    using st by (auto simp: use_reference_def split: option.splits if_splits)
  have s': "s' = (record_access t sl b ts s)\<lparr>thr := (thr s)(t := (thr s t)\<lparr>held := held (thr s t)\<rparr>)\<rparr>"
    by (simp add: s0 record_access_def on_mem_def)
  obtain a where a: "a \<in> accs s" "a_slot a = sl" "a_box a = b" "a_ts a = ts" "a_idx a = nwords s sl"
    using inv_heldD [OF thread_invD(10) [OF inv] h] sl by (auto simp: accessed_def)
  have "wview s sl k (LPtr b) \<le> ts" if "k < nwords s sl" for k
    using thread_invD(9) [OF inv] a that by (auto simp: inv_accs_def)
  then have "quiet s s' \<and> gp_frame s s'"
    using inv_heldD [OF thread_invD(10) [OF inv] h] by (intro quiet_access [OF inv sl p _ s']) auto
  then show ?thesis
    by (blast intro: hook_steps_quiet)
qed

lemma hook_steps_drop_guards:
  assumes inv: "thread_inv s" and st: "drop_guards t keep s = Some s'"
  shows "hook_steps s s'"
proof (rule hook_steps_quiet)
  have s': "s' = s\<lparr>thr := (thr s)(t := (thr s t)\<lparr>held := held (thr s t) \<inter> keep\<rparr>)\<rparr>"
    using st by (auto simp: drop_guards_def split: if_splits)
  show "quiet s s'"
    by (rule quiet_thr_upd [OF inv, of _ t]) (auto simp: s' intro!: calm_refl thread_invD(1) [OF inv])
  show "gp_frame s s'"
    by (simp add: gp_frame_def s')
qed

lemma hook_steps_swap:
  assumes inv: "thread_inv s" and st: "rcu_box_swap t b v s = Some s'"
  shows "hook_steps s s'"
proof (rule hook_steps_quiet)
  have s': "s' = (on_mem (rmw AcqRel t (LPtr b) (VPtr v)) s)
      \<lparr>old_data := insert (b, last_ix (mem s) (LPtr b)) (old_data s)\<rparr>"
    using st by (auto simp: rcu_box_swap_def split: if_splits)
  show "quiet s s'"
    by (rule quiet_thr_upd [OF inv, of _ t])
      (auto simp: s' view_simps intro!: calm_intros thread_invD(1) [OF inv] nonempty [OF inv])
  show "gp_frame s s'"
    by (simp add: gp_frame_def s' view_simps)
qed

text \<open>The steps that attach a future to a thread or detach it.\<close>

definition task_frame :: "nat \<Rightarrow> ('w::len, 'g::len) rcu \<Rightarrow> ('w, 'g) rcu \<Rightarrow> bool" where
  "task_frame q s s' \<longleftrightarrow>
     quiet s s' \<and> hist (mem s') = hist (mem s) \<and> accs s' = accs s \<and> gp_mutex s' = gp_mutex s \<and>
     rst_readers s' = rst_readers s \<and> rst_writer s' = rst_writer s \<and>
     (\<forall>r. r \<noteq> q \<longrightarrow> ops s' r = ops s r)"

lemma task_frame_wait_call:
  assumes inv: "thread_inv s" and st: "wait_call q t vs s = Some s'"
  shows "task_frame q s s'"
  unfolding task_frame_def
proof (intro conjI quiet_thr_upd [OF inv, of _ t])
  have "wf_mem (mem s)"
    by (rule thread_invD(1) [OF inv])
  then show "calm (mem s) (mem s')"
    using st by (auto simp: wait_call_def split: if_splits intro!: calm_intros)
qed (use st in \<open>auto simp: wait_call_def split: if_splits\<close>)

lemma task_frame_wait_return:
  assumes inv: "thread_inv s" and st: "wait_return q t s = Some s'"
  shows "task_frame q s s'"
  unfolding task_frame_def
proof (intro conjI quiet_thr_upd [OF inv, of _ t])
  have "wf_mem (mem s)"
    by (rule thread_invD(1) [OF inv])
  then show "calm (mem s) (mem s')"
    using st by (auto simp: wait_return_def split: if_splits intro!: calm_intros)
qed (use st in \<open>auto simp: wait_return_def split: if_splits\<close>)

lemma task_frame_suspend:
  assumes inv: "thread_inv s" and st: "suspend q t s = Some s'"
  shows "task_frame q s s'"
  unfolding task_frame_def
proof (intro conjI quiet_thr_upd [OF inv, of _ t])
  have "wf_mem (mem s)"
    by (rule thread_invD(1) [OF inv])
  then show "calm (mem s) (mem s')"
    using st by (auto simp: suspend_def split: if_splits intro!: calm_intros)
qed (use st in \<open>auto simp: suspend_def view_simps fun_eq_iff split: if_splits\<close>)

lemma task_frame_resume:
  assumes inv: "thread_inv s" and st: "resume q t s = Some s'"
  shows "task_frame q s s'"
  unfolding task_frame_def
proof (intro conjI quiet_thr_upd [OF inv, of _ t])
  have "wf_mem (mem s)"
    by (rule thread_invD(1) [OF inv])
  then show "calm (mem s) (mem s')"
    using st by (auto simp: resume_def split: if_splits intro!: calm_intros)
qed (use st in \<open>auto simp: resume_def view_simps fun_eq_iff split: if_splits\<close>)

end
