(* ===== verification/Fresh.thy ===== *)
theory Fresh
  imports Poll_Steps
begin

text \<open>
  The promise a scan extracts from a slot. \<open>fresh_at s V i c sl\<close>: after word \<open>c\<close> of the slot, its owners
  know everything in the view \<open>V\<close> and the epoch message \<open>i\<close> before they publish an epoch id or read
  a box. The promise is stable: no step of any thread can break it, once the SC order knows \<open>V\<close>
  and \<open>i\<close>.
\<close>

subsection \<open>Definition\<close>

text \<open>A thread that is about to fence learns what the SC order knows; every other owner knows it.\<close>

definition fresh_owner :: "('w::len, 'g::len) rcu \<Rightarrow> loc view \<Rightarrow> nat \<Rightarrow> nat \<Rightarrow> tid \<Rightarrow> bool" where
  "fresh_owner s V i sl t \<longleftrightarrow>
     tkind s t = KParked \<or> tkind s t = KStartFence \<or>
     V \<le> cur (mem s) t \<and> i \<le> cur (mem s) t LEpoch \<and>
     (\<forall>b e. tkind s t = KLoaded b e \<longrightarrow>
        (\<exists>j \<ge> i. j < nepochs s \<and> epoch_at s j = e \<and> eview s j \<le> cur (mem s) t \<and> j \<le> cur (mem s) t LEpoch \<and>
           (\<forall>k < nwords s sl. wview s sl k LEpoch \<le> j)))"

definition fresh_at :: "('w::len, 'g::len) rcu \<Rightarrow> loc view \<Rightarrow> nat \<Rightarrow> nat \<Rightarrow> nat \<Rightarrow> bool" where
  "fresh_at s V i c sl \<longleftrightarrow>
     (\<forall>a \<in> accs s. a_slot a = sl \<and> c < a_idx a \<longrightarrow> V (LPtr (a_box a)) \<le> a_ts a) \<and>
     (\<forall>k. c \<le> k \<and> k < nwords s sl \<and> word_busy (word_at s sl k) \<and> word_seen (word_at s sl k) \<noteq> 0 \<longrightarrow>
        (\<exists>j \<ge> i. word_source s sl k j)) \<and>
     (\<forall>t. tslot (thr s t) = Some sl \<longrightarrow> fresh_owner s V i sl t)"

lemma fresh_at_mono_view:
  assumes "fresh_at s W j c sl" and "V \<le> W" and "i \<le> j"
  shows "fresh_at s V i c sl"
proof -
  have "fresh_owner s V i sl t" if "fresh_owner s W j sl t" for t
    using that assms(2, 3) unfolding fresh_owner_def by (meson order_trans)
  moreover have "V (LPtr b) \<le> ts" if "W (LPtr b) \<le> ts" for b ts
    using assms(2) that by (meson le_funD order_trans)
  ultimately show ?thesis
    using assms(1, 3) unfolding fresh_at_def by (meson order_trans)
qed

subsection \<open>Stability\<close>

lemma quiet_words:
  assumes "quiet s s'"
  shows "nwords s' x = nwords s x" and "word_at s' x k = word_at s x k" and "wview s' x k = wview s x k"
  using assms by (simp_all add: quiet_def mval_def mview_def)

lemma quietD:
  assumes "quiet s s'"
  shows "grows (mem s) (mem s')" and "tslot (thr s' t) = tslot (thr s t)"
    and "tslot (thr s t) = Some sl \<Longrightarrow> moves s s' t sl" and "accs s \<subseteq> accs s'"
    and "a \<in> accs s' \<Longrightarrow> a \<notin> accs s \<Longrightarrow> new_access s' a \<and>
        (cur (mem s) (a_tid a) (LPtr (a_box a)) \<le> a_ts a \<or> accessed s (a_tid a) (a_box a) (a_ts a))"
    and "wf_mem (mem s')"
  using assms by (simp_all add: quiet_def quiet_thread_def)

lemma old_epoch:
  assumes "grows (mem s) (mem s')" and "j < nepochs s"
  shows "epoch_at s' j = epoch_at s j" and "eview s' j = eview s j" and "j < nepochs s'"
  using growsD(4) [OF assms(1), of LEpoch] growsD(7, 8) [OF assms] assms(2) by simp_all

lemma fresh_owner_same:
  assumes g: "grows (mem s) (mem s')" and same: "tkind s' t = tkind s t"
    and w: "nwords s' sl = nwords s sl" "\<And>k. wview s' sl k = wview s sl k"
    and f: "fresh_owner s V i sl t"
  shows "fresh_owner s' V i sl t"
proof -
  have cle: "cur (mem s) t \<le> cur (mem s') t"
    using growsD [OF g] by simp
  have up: "V \<le> cur (mem s') t" "i \<le> cur (mem s') t LEpoch" if "V \<le> cur (mem s) t" "i \<le> cur (mem s) t LEpoch"
    using that cle by (auto intro: order_trans dest: le_funD)
  have keep: "\<exists>j \<ge> i. j < nepochs s' \<and> epoch_at s' j = e \<and> eview s' j \<le> cur (mem s') t \<and>
      j \<le> cur (mem s') t LEpoch \<and> (\<forall>k < nwords s' sl. wview s' sl k LEpoch \<le> j)"
    if j: "\<exists>j \<ge> i. j < nepochs s \<and> epoch_at s j = e \<and> eview s j \<le> cur (mem s) t \<and>
      j \<le> cur (mem s) t LEpoch \<and> (\<forall>k < nwords s sl. wview s sl k LEpoch \<le> j)" for e
  proof -
    obtain j where "i \<le> j" "j < nepochs s" "epoch_at s j = e" "eview s j \<le> cur (mem s) t"
        "j \<le> cur (mem s) t LEpoch" "\<forall>k < nwords s sl. wview s sl k LEpoch \<le> j"
      using j by blast
    then show ?thesis
      using old_epoch [OF g, of j] cle
      by (intro exI [of _ j]) (auto simp: w intro: order_trans dest: le_funD)
  qed
  show ?thesis
    using f up keep unfolding fresh_owner_def same by blast
qed

lemma fresh_owner_quiet:
  assumes inv: "thread_inv s" and q: "quiet s s'" and sl: "tslot (thr s t) = Some sl"
    and sc: "V \<le> scv (mem s')" "i \<le> scv (mem s') LEpoch" and f: "fresh_owner s V i sl t"
  shows "fresh_owner s' V i sl t"
proof -
  note w = quiet_words [OF q]
  have g: "grows (mem s) (mem s')"
    by (rule quietD(1) [OF q])
  have cle: "cur (mem s) t \<le> cur (mem s') t"
    using growsD [OF g] by simp
  have up: "V \<le> cur (mem s') t" "i \<le> cur (mem s') t LEpoch" if "V \<le> cur (mem s) t" "i \<le> cur (mem s) t LEpoch"
    using that cle by (auto intro: order_trans dest: le_funD)
  from quietD(3) [OF q sl] consider
      (same) "tkind s' t = tkind s t"
    | (poll) "tkind s t = KIdle" "tkind s' t = KPolling"
    | (fence) "tkind s t = KStartFence" "tkind s' t = KStartLoad" "scv (mem s') \<le> cur (mem s') t"
    | (load) e where "tkind s t = KStartLoad \<and> tkind s' t = KLoaded True e \<or>
           tkind s t = KPolling \<and> tkind s' t = KLoaded False e" "sees_epoch s s' t e"
    by (auto simp: moves_def)
  then show ?thesis
  proof cases
    case same
    then show ?thesis
      by (rule fresh_owner_same [OF g]) (simp_all add: w f)
  next
    case poll
    then show ?thesis
      using f up by (auto simp: fresh_owner_def)
  next
    case fence
    then show ?thesis
      using sc by (auto simp: fresh_owner_def intro: order_trans dest: le_funD)
  next
    case load
    then have c: "V \<le> cur (mem s) t" "i \<le> cur (mem s) t LEpoch"
      using f by (auto simp: fresh_owner_def)
    obtain j where j: "j < nepochs s'" "epoch_at s' j = e" "eview s' j \<le> cur (mem s') t"
        "j \<le> cur (mem s') t LEpoch" "cur (mem s) t LEpoch \<le> j"
      using load(2) by (auto simp: sees_epoch_def)
    have "wview s sl k LEpoch \<le> j" if "k < nwords s sl" for k
      using owner_knows(4) [OF inv sl that, of LEpoch] j(5) by simp
    moreover have "i \<le> j"
      using c(2) j(5) by simp
    ultimately show ?thesis
      using up [OF c] j load(1) by (auto simp: fresh_owner_def w)
  qed
qed

lemma fresh_at_quiet:
  assumes inv: "thread_inv s" and q: "quiet s s'"
    and sc: "V \<le> scv (mem s')" "i \<le> scv (mem s') LEpoch" and f: "fresh_at s V i c sl"
  shows "fresh_at s' V i c sl"
  unfolding fresh_at_def
proof (intro conjI ballI allI impI)
  note w = quiet_words [OF q]
  have g: "grows (mem s) (mem s')"
    by (rule quietD(1) [OF q])
  fix a
  assume a: "a \<in> accs s'" and c: "a_slot a = sl \<and> c < a_idx a"
  show "V (LPtr (a_box a)) \<le> a_ts a"
  proof (cases "a \<in> accs s")
    case True
    then show ?thesis
      using c f by (simp add: fresh_at_def)
  next
    case False
    note n = quietD(5) [OF q a False]
    then have sl: "tslot (thr s (a_tid a)) = Some sl" "tkind s' (a_tid a) = KPolling" "a_idx a = nwords s sl"
      using c quietD(2) [OF q] by (auto simp: new_access_def w)
    show ?thesis
    proof (cases "accessed s (a_tid a) (a_box a) (a_ts a)")
      case True
      then obtain a0 where "a0 \<in> accs s" "a_slot a0 = sl" "a_box a0 = a_box a" "a_ts a0 = a_ts a"
          "a_idx a0 = nwords s sl"
        using sl(1) by (auto simp: accessed_def)
      then show ?thesis
        using f c sl(3) by (auto simp: fresh_at_def)
    next
      case False
      have "tkind s (a_tid a) = KPolling \<or> tkind s (a_tid a) = KIdle"
        using quietD(3) [OF q sl(1)] sl(2) by (auto simp: moves_def)
      then have "V \<le> cur (mem s) (a_tid a)"
        using f sl(1) by (auto simp: fresh_at_def fresh_owner_def)
      with n False show ?thesis
        by (meson le_funD order_trans)
    qed
  qed
next
  have g: "grows (mem s) (mem s')"
    by (rule quietD(1) [OF q])
  fix k
  assume "c \<le> k \<and> k < nwords s' sl \<and> word_busy (word_at s' sl k) \<and> word_seen (word_at s' sl k) \<noteq> 0"
  then have k: "k < nwords s sl" "\<exists>j \<ge> i. word_source s sl k j"
    using f by (auto simp: fresh_at_def quiet_words [OF q])
  with word_source_mono [OF g k(1)] show "\<exists>j \<ge> i. word_source s' sl k j"
    by blast
next
  fix t
  assume "tslot (thr s' t) = Some sl"
  then have "tslot (thr s t) = Some sl"
    by (simp add: quietD(2) [OF q])
  then show "fresh_owner s' V i sl t"
    using fresh_owner_quiet [OF inv q _ sc] f by (simp add: fresh_at_def)
qed

lemma fresh_at_appends:
  assumes inv: "thread_inv s" and ap: "appends s s' t x w W" and f: "fresh_at s V i c sl"
  shows "fresh_at s' V i c sl"
proof -
  note A = appendsD [OF inv ap]
  have g: "grows (mem s) (mem s')" and ac: "accs s' = accs s"
    and oth: "\<And>u. u \<noteq> t \<Longrightarrow> thr s' u = thr s u"
    and cs: "keeps_slot s s' t x w W \<or> leaves_slot s s' t x w \<or> takes_slot s s' t x w"
    using ap by (auto simp: appends_def)
  have cle: "cur (mem s) u \<le> cur (mem s') u" for u
    using growsD [OF g] by simp
  have src: "\<exists>j \<ge> i. word_source s' sl k j"
    if k: "c \<le> k \<and> k < nwords s' sl \<and> word_busy (word_at s' sl k) \<and> word_seen (word_at s' sl k) \<noteq> 0" for k
  proof (cases "sl = x \<and> k = nwords s x")
    case False
    then have o: "k < nwords s sl" "word_at s' sl k = word_at s sl k"
      using k A(5) [of k sl] by (auto simp: A(3) split: if_splits)
    then have "\<exists>j \<ge> i. word_source s sl k j"
      using f k unfolding fresh_at_def by metis
    with word_source_mono [OF g o(1)] show ?thesis
      by blast
  next
    case True
    then have nw: "word_at s' x k = w" "wview s' x k = W" "\<And>k0. k0 < k \<Longrightarrow> wview s' x k0 = wview s x k0"
      by (simp_all add: A)
    with k True have "word_busy w" "word_seen w \<noteq> 0"
      by simp_all
    with cs obtain b e where e: "tslot (thr s t) = Some x" "tkind s t = KLoaded b e"
        "w = encode (busy_state e)" "cur (mem s) t \<le> W"
      by (auto simp: keeps_slot_def leaves_slot_def takes_slot_def)
    then have "fresh_owner s V i x t"
      using f True by (simp add: fresh_at_def)
    then obtain j where j: "i \<le> j" "j < nepochs s" "epoch_at s j = e" "eview s j \<le> cur (mem s) t"
        "j \<le> cur (mem s) t LEpoch" "\<forall>k < nwords s x. wview s x k LEpoch \<le> j"
      using e(2) by (auto simp: fresh_owner_def)
    have "even e"
      using thread_invD(4) [OF inv] e(2) by (auto simp: inv_epochs_def valid_epoch_def)
    with j e nw True have "word_source s' x k j"
      by (auto simp: word_source_def A(7-9) intro: order_trans dest: le_funD)
    with True j(1) show ?thesis
      by blast
  qed
  have own: "fresh_owner s' V i sl u" if u: "tslot (thr s' u) = Some sl" for u
  proof (cases "u = t")
    case False
    then have o: "thr s' u = thr s u" "tslot (thr s u) = Some sl"
      using oth u by simp_all
    moreover have "sl \<noteq> x"
      using A(13) [of u] o(2) False by blast
    moreover have "fresh_owner s V i sl u"
      using f o(2) by (simp add: fresh_at_def)
    ultimately show ?thesis
      by (intro fresh_owner_same [OF g]) (simp_all add: A)
  next
    case True
    then have "sl = x"
      using A(14) u cs by (auto simp: keeps_slot_def leaves_slot_def takes_slot_def)
    show ?thesis
    proof (cases "tkind s' t = KIdle")
      case True
      with cs obtain b e where "tslot (thr s t) = Some x" "tkind s t = KLoaded b e"
        using \<open>u = t\<close> u by (auto simp: keeps_slot_def leaves_slot_def takes_slot_def)
      then have "V \<le> cur (mem s) t" "i \<le> cur (mem s) t LEpoch"
        using f \<open>sl = x\<close> by (auto simp: fresh_at_def fresh_owner_def)
      then have "V \<le> cur (mem s') t" "i \<le> cur (mem s') t LEpoch"
        using cle [of t] by (auto intro: order_trans dest: le_funD)
      then show ?thesis
        using True \<open>u = t\<close> by (simp add: fresh_owner_def)
    next
      case False
      then show ?thesis
        using cs u \<open>u = t\<close> by (auto simp: keeps_slot_def leaves_slot_def takes_slot_def fresh_owner_def)
    qed
  qed
  show ?thesis
    using f src own by (auto simp: fresh_at_def ac)
qed

lemma fresh_at_pushes:
  assumes inv: "thread_inv s" and pu: "pushes s s' t W" and f: "fresh_at s V i c sl"
  shows "fresh_at s' V i c sl"
proof -
  define x where x: "x = last_ix (mem s) LLen"
  note A = pushesD [OF inv pu x]
  have g: "grows (mem s) (mem s')" and ac: "accs s' = accs s"
    and oth: "\<And>u. u \<noteq> t \<Longrightarrow> thr s' u = thr s u"
    and t1: "tslot (thr s' t) = Some x" "tkind s' t = KStartFence"
    using pu by (auto simp: pushes_def Let_def x)
  have cle: "cur (mem s) u \<le> cur (mem s') u" for u
    using growsD [OF g] by simp
  have src: "\<exists>j \<ge> i. word_source s' sl k j"
    if k: "c \<le> k \<and> k < nwords s' sl \<and> word_busy (word_at s' sl k) \<and> word_seen (word_at s' sl k) \<noteq> 0" for k
  proof -
    have "sl \<noteq> x"
      using k A(4) [of k sl] by auto
    then have "k < nwords s sl" "word_at s' sl k = word_at s sl k"
      using k by (simp_all add: A(2, 14))
    moreover from this have "\<exists>j \<ge> i. word_source s sl k j"
      using f k unfolding fresh_at_def by metis
    ultimately show ?thesis
      using word_source_mono [OF g] by blast
  qed
  have own: "fresh_owner s' V i sl u" if u: "tslot (thr s' u) = Some sl" for u
  proof (cases "u = t")
    case False
    then have o: "thr s' u = thr s u" "tslot (thr s u) = Some sl"
      using oth u by simp_all
    moreover have "sl \<noteq> x"
      using A(10) [of u] o(2) by blast
    moreover have "fresh_owner s V i sl u"
      using f o(2) by (simp add: fresh_at_def)
    ultimately show ?thesis
      by (intro fresh_owner_same [OF g]) (simp_all add: A)
  next
    case True
    with t1 show ?thesis
      by (simp add: fresh_owner_def)
  qed
  show ?thesis
    using f src own by (auto simp: fresh_at_def ac)
qed

lemma tstep_grows: "tstep s s' \<Longrightarrow> grows (mem s) (mem s')"
  by (auto simp: tstep_def quiet_def appends_def pushes_def Let_def)

lemma fresh_at_tstep:
  assumes inv: "thread_inv s" and st: "tstep s s'"
    and sc: "V \<le> scv (mem s)" "i \<le> scv (mem s) LEpoch" and f: "fresh_at s V i c sl"
  shows "fresh_at s' V i c sl"
proof -
  have "scv (mem s) \<le> scv (mem s')"
    using growsD(2) [OF tstep_grows [OF st]] .
  then have "V \<le> scv (mem s')" "i \<le> scv (mem s') LEpoch"
    using sc by (auto intro: order_trans dest: le_funD)
  then show ?thesis
    using st inv f by (auto simp: tstep_def intro: fresh_at_quiet fresh_at_appends fresh_at_pushes)
qed

end
