(* ===== verification/Grace_Period.thy ===== *)
theory Grace_Period
  imports Fresh
begin

text \<open>
  What one grace period does, independently of the futures that share it: what the fence of the
  waiter gives, what reading one state word gives, what a finished scan gives, and what that means
  for the accesses to protected data.
\<close>

subsection \<open>Reading a state word\<close>

lemma fresh_at_word:
  assumes inv: "thread_inv s" and k: "k < nwords s sl"
    and V: "V \<le> wview s sl k" and i: "i \<le> wview s sl k LEpoch"
    and src: "word_busy (word_at s sl k) \<Longrightarrow> word_seen (word_at s sl k) \<noteq> 0 \<Longrightarrow> \<exists>j \<ge> i. word_source s sl k j"
  shows "fresh_at s V i k sl"
  unfolding fresh_at_def
proof (intro conjI ballI allI impI)
  fix a
  assume "a \<in> accs s" "a_slot a = sl \<and> k < a_idx a"
  then have "wview s sl k (LPtr (a_box a)) \<le> a_ts a"
    using thread_invD(9) [OF inv] unfolding inv_accs_def by blast
  with V show "V (LPtr (a_box a)) \<le> a_ts a"
    by (meson le_funD order_trans)
next
  fix k'
  assume k': "k \<le> k' \<and> k' < nwords s sl \<and> word_busy (word_at s sl k') \<and> word_seen (word_at s sl k') \<noteq> 0"
  show "\<exists>j \<ge> i. word_source s sl k' j"
  proof (cases "k' = k")
    case True
    with src k' show ?thesis
      by blast
  next
    case False
    obtain j where j: "word_source s sl k' j"
      using thread_invD(11) [OF inv] k' unfolding inv_source_def by blast
    then have "wview s sl k LEpoch \<le> j"
      using False k' by (simp add: word_source_def)
    with i j show ?thesis
      by (blast intro: order_trans)
  qed
next
  fix t
  assume t: "tslot (thr s t) = Some sl"
  have le: "wview s sl k \<le> cur (mem s) t"
    by (rule owner_knows(3) [OF inv t k])
  have "\<exists>j \<ge> i. j < nepochs s \<and> epoch_at s j = e \<and> eview s j \<le> cur (mem s) t \<and> j \<le> cur (mem s) t LEpoch \<and>
           (\<forall>k < nwords s sl. wview s sl k LEpoch \<le> j)" if ld: "tkind s t = KLoaded b e" for b e
  proof -
    obtain j where "j < nepochs s" "epoch_at s j = e" "eview s j \<le> cur (mem s) t"
        "j \<le> cur (mem s) t LEpoch" "\<forall>k<nwords s sl. wview s sl k LEpoch \<le> j"
      using thread_invD(11) [OF inv] t ld unfolding inv_source_def by blast
    moreover from this k i have "i \<le> j"
      by (meson order_trans)
    ultimately show ?thesis
      by blast
  qed
  moreover have "V \<le> cur (mem s) t" "i \<le> cur (mem s) t LEpoch"
    using le V i by (auto intro: order_trans dest: le_funD)
  ultimately show "fresh_owner s V i sl t"
    unfolding fresh_owner_def by blast
qed

subsection \<open>The fence of the waiter\<close>

text \<open>
  After an SC fence that gave the waiter the view \<open>X\<close>: a word it can still see as not busy, and a slot
  that is past the lengths it can still see, will only be used by threads that fence later.
\<close>

definition fence_ok :: "('w::len, 'g::len) rcu \<Rightarrow> loc view \<Rightarrow> nat \<Rightarrow> loc view \<Rightarrow> bool" where
  "fence_ok s V i X \<longleftrightarrow>
     (\<forall>sl k. X (LSlot sl) \<le> k \<and> k < nwords s sl \<and> \<not> word_busy (word_at s sl k) \<longrightarrow> fresh_at s V i k sl) \<and>
     (\<forall>sl. X LLen \<le> sl \<longrightarrow> fresh_at s V i 0 sl)"

lemma fence_ok_mono:
  assumes "fence_ok s V i X" and "X \<le> Y"
  shows "fence_ok s V i Y"
  using assms unfolding fence_ok_def by (meson le_funD order_trans)

lemma access_idx:
  assumes "thread_inv s" and "a \<in> accs s"
  shows "0 < a_idx a" and "a_idx a \<le> nwords s (a_slot a)"
    and "word_busy (word_at s (a_slot a) (a_idx a - 1))"
    and "a_idx a = nwords s (a_slot a) \<Longrightarrow> tslot (thr s (a_tid a)) = Some (a_slot a) \<and>
      (tkind s (a_tid a) = KPolling \<or> (\<exists>e. tkind s (a_tid a) = KLoaded False e))"
  using thread_invD(9) [OF assms(1)] assms(2) unfolding inv_accs_def by blast+

lemma unique_owner:
  "thread_inv s \<Longrightarrow> tslot (thr s t) = Some sl \<Longrightarrow> tslot (thr s u) = Some sl \<Longrightarrow> t = u"
  using thread_invD(5) [of s] unfolding inv_owner_def by blast

text \<open>Nothing after word \<open>c\<close> but at most a start word whose owner has yet to fence.\<close>

lemma fresh_at_unfenced:
  assumes inv: "thread_inv s" and n: "nwords s sl \<le> Suc (Suc c)"
    and c: "c < nwords s sl \<Longrightarrow> \<not> word_busy (word_at s sl c)"
    and own: "\<And>t. tslot (thr s t) = Some sl \<Longrightarrow> tkind s t = KParked \<or> tkind s t = KStartFence"
    and st: "Suc c < nwords s sl \<Longrightarrow> word_at s sl (Suc c) = start_word"
  shows "fresh_at s V i c sl"
  unfolding fresh_at_def
proof (intro conjI ballI allI impI)
  fix a
  assume a: "a \<in> accs s" and s: "a_slot a = sl \<and> c < a_idx a"
  note I = access_idx [OF inv a]
  have "a_idx a \<noteq> nwords s sl"
    using I(4) own [of "a_tid a"] s by auto
  then have "a_idx a = Suc c"
    using I(2) n s by auto
  with I(2, 3) c s show "V (LPtr (a_box a)) \<le> a_ts a"
    by auto
next
  fix k
  assume k: "c \<le> k \<and> k < nwords s sl \<and> word_busy (word_at s sl k) \<and> word_seen (word_at s sl k) \<noteq> 0"
  then have "k = c \<or> k = Suc c"
    using n by auto
  then show "\<exists>j \<ge> i. word_source s sl k j"
    using k c st by auto
next
  fix t
  assume "tslot (thr s t) = Some sl"
  then show "fresh_owner s V i sl t"
    using own by (auto simp: fresh_owner_def)
qed

lemma fence_ok_start:
  assumes inv: "thread_inv s" and X: "scv (mem s) \<le> X"
  shows "fence_ok s V i X"
  unfolding fence_ok_def
proof (intro conjI allI impI)
  fix sl k
  assume k: "X (LSlot sl) \<le> k \<and> k < nwords s sl \<and> \<not> word_busy (word_at s sl k)"
  then have sc: "scv (mem s) (LSlot sl) \<le> k"
    using X by (meson le_funD order_trans)
  show "fresh_at s V i k sl"
  proof (cases "Suc k < nwords s sl")
    case False
    then have l: "k = last_ix (mem s) (LSlot sl)"
      using k by (auto simp: last_ix_def)
    have own: "tkind s t = KParked" if t: "tslot (thr s t) = Some sl" for t
    proof -
      have "last_word_ok (tkind s t) (word_at s sl k)"
        using thread_invD(7) [OF inv] t l by (auto simp: inv_last_def)
      with k show ?thesis
        by (auto simp: last_word_ok_def split: pos.splits if_splits)
    qed
    then show ?thesis
      using False k by (intro fresh_at_unfenced [OF inv]) auto
  next
    case True
    then have st: "word_at s sl (Suc k) = start_word"
      using thread_invD(7) [OF inv] k unfolding inv_last_def by blast
    then have l: "Suc k = last_ix (mem s) (LSlot sl)"
      and o: "\<exists>t. tslot (thr s t) = Some sl \<and> tkind s t = KStartFence"
      using thread_invD(12) [OF inv] True sc unfolding inv_fence_def by (meson le_imp_less_Suc)+
    have "nwords s sl \<le> Suc (Suc k)"
      using l by (simp add: last_ix_def)
    moreover have "tkind s t = KStartFence" if t: "tslot (thr s t) = Some sl" for t
      using o unique_owner [OF inv t] by blast
    ultimately show ?thesis
      using k st by (intro fresh_at_unfenced [OF inv]) auto
  qed
next
  fix sl
  assume "X LLen \<le> sl"
  then have sc: "scv (mem s) LLen \<le> sl"
    using X by (meson le_funD order_trans)
  show "fresh_at s V i 0 sl"
  proof (cases "sl < last_ix (mem s) LLen")
    case True
    with sc have n: "nwords s sl = 1" "word_at s sl 0 = start_word"
      and o: "\<exists>t. tslot (thr s t) = Some sl \<and> tkind s t = KStartFence"
      using thread_invD(12) [OF inv] unfolding inv_fence_def by blast+
    have own: "tkind s t = KStartFence" if t: "tslot (thr s t) = Some sl" for t
      using o unique_owner [OF inv t] by blast
    show ?thesis
      unfolding fresh_at_def
    proof (intro conjI ballI allI impI)
      fix a
      assume a: "a \<in> accs s" "a_slot a = sl \<and> 0 < a_idx a"
      with access_idx [OF inv a(1)] n own [of "a_tid a"] show "V (LPtr (a_box a)) \<le> a_ts a"
        by auto
    next
      fix k
      assume "0 \<le> k \<and> k < nwords s sl \<and> word_busy (word_at s sl k) \<and> word_seen (word_at s sl k) \<noteq> 0"
      with n show "\<exists>j \<ge> i. word_source s sl k j"
        by auto
    qed (use own in \<open>auto simp: fresh_owner_def\<close>)
  next
    case False
    then have n: "nwords s sl = 0"
      using thread_invD(2) [OF inv] unfolding inv_len_def by blast
    show ?thesis
      unfolding fresh_at_def
    proof (intro conjI ballI allI impI)
      fix a
      assume a: "a \<in> accs s" "a_slot a = sl \<and> 0 < a_idx a"
      with access_idx(1, 2) [OF inv a(1)] n show "V (LPtr (a_box a)) \<le> a_ts a"
        by auto
    next
      fix t
      assume "tslot (thr s t) = Some sl"
      then show "fresh_owner s V i sl t"
        using owner_knows(6) [OF inv] n by blast
    qed (use n in auto)
  qed
qed

lemma fence_ok_tstep:
  assumes inv: "thread_inv s" and st: "tstep s s'"
    and sc: "V \<le> scv (mem s)" "i \<le> scv (mem s) LEpoch" and f: "fence_ok s V i X"
  shows "fence_ok s' V i X"
  unfolding fence_ok_def
proof (intro conjI allI impI)
  fix sl
  assume "X LLen \<le> sl"
  then show "fresh_at s' V i 0 sl"
    using f fresh_at_tstep [OF inv st sc] by (simp add: fence_ok_def)
next
  fix sl k
  assume k: "X (LSlot sl) \<le> k \<and> k < nwords s' sl \<and> \<not> word_busy (word_at s' sl k)"
  show "fresh_at s' V i k sl"
  proof (cases "k < nwords s sl")
    case True
    have "word_at s' sl k = word_at s sl k"
      using growsD(7) [OF tstep_grows [OF st] True] by simp
    with k True f show ?thesis
      by (intro fresh_at_tstep [OF inv st sc]) (simp add: fence_ok_def)
  next
    case False
    from st consider "quiet s s'" | t x w W where "appends s s' t x w W" | t W where "pushes s s' t W"
      by (auto simp: tstep_def)
    then show ?thesis
    proof cases
      case 1
      then show ?thesis
        using False k quiet_words(1) by fastforce
    next
      case 2
      note A = appendsD [OF inv 2]
      have x: "sl = x" "k = nwords s x"
        using False k by (auto simp: A(3) split: if_splits)
      then have w: "\<not> word_busy w"
        using k by (simp add: A)
      have own: "tkind s' u = KParked" if u: "tslot (thr s' u) = Some sl" for u
        using 2 w u A(14) [of u] x
        by (auto simp: appends_def keeps_slot_def leaves_slot_def takes_slot_def word_busy_encode
            thread_invD(4) [OF inv, unfolded inv_epochs_def valid_epoch_def])
      show ?thesis
        by (rule fresh_at_unfenced [OF thread_inv_appends [OF inv 2]])
          (use k own x A(3) in auto)
    next
      case 3
      note A = pushesD [OF inv 3 refl]
      have "sl = last_ix (mem s) LLen" "k = 0"
        using False k by (auto simp: A(2) split: if_splits)
      then have "word_at s' sl k = start_word"
        using k A(4) [of k sl] by simp
      with k show ?thesis
        by simp
    qed
  qed
qed

subsection \<open>A finished grace period\<close>

text \<open>
  The waiter is done with a slot: the slot is fresh from a word the waiter knows, and the waiter
  knows every access made before that word.
\<close>

definition slot_done :: "('w::len, 'g::len) rcu \<Rightarrow> loc view \<Rightarrow> nat \<Rightarrow> loc view \<Rightarrow> nat \<Rightarrow> bool" where
  "slot_done s V i X sl \<longleftrightarrow>
     (\<exists>c \<le> X (LSlot sl). fresh_at s V i c sl \<and>
        (\<forall>a \<in> accs s. a_slot a = sl \<and> a_idx a \<le> c \<longrightarrow> a_clk a \<le> X (LClk (a_tid a))))"

definition completed :: "('w::len, 'g::len) rcu \<Rightarrow> loc view \<Rightarrow> nat \<Rightarrow> loc view \<Rightarrow> bool" where
  "completed s V i X \<longleftrightarrow>
     V \<le> scv (mem s) \<and> i \<le> scv (mem s) LEpoch \<and> bounded (mem s) X \<and> (\<forall>sl. slot_done s V i X sl)"

lemma slot_done_mono:
  assumes "slot_done s V i X sl" and "X \<le> Y"
  shows "slot_done s V i Y sl"
proof -
  obtain c where "c \<le> X (LSlot sl)" "fresh_at s V i c sl"
      "\<And>a. a \<in> accs s \<Longrightarrow> a_slot a = sl \<Longrightarrow> a_idx a \<le> c \<Longrightarrow> a_clk a \<le> X (LClk (a_tid a))"
    using assms(1) by (auto simp: slot_done_def)
  moreover have "X x \<le> Y x" for x
    using assms(2) by (rule le_funD)
  ultimately show ?thesis
    unfolding slot_done_def by (intro exI [of _ c]) (auto intro: order_trans)
qed

lemma completed_mono: "completed s V i X \<Longrightarrow> X \<le> Y \<Longrightarrow> bounded (mem s) Y \<Longrightarrow> completed s V i Y"
  unfolding completed_def by (blast intro: slot_done_mono)

lemma slot_done_view: "slot_done s W j X sl \<Longrightarrow> V \<le> W \<Longrightarrow> i \<le> j \<Longrightarrow> slot_done s V i X sl"
  unfolding slot_done_def by (meson fresh_at_mono_view)

lemma tstep_accs:
  assumes "thread_inv s" and "tstep s s'" and "a \<in> accs s'" and "a \<notin> accs s"
  shows "a_idx a = nwords s (a_slot a) \<and> a_idx a \<noteq> 0"
proof -
  have q: "quiet s s'"
    using assms(2-4) by (auto simp: tstep_def appends_def pushes_def Let_def)
  have "tslot (thr s (a_tid a)) = Some (a_slot a)" "a_idx a = nwords s (a_slot a)"
    using quietD(2, 5) [OF q] assms(3, 4) quiet_words(1) [OF q] by (auto simp: new_access_def)
  with owner_knows(6) [OF assms(1)] show ?thesis
    by auto
qed

lemma slot_done_tstep:
  assumes inv: "thread_inv s" and st: "tstep s s'"
    and sc: "V \<le> scv (mem s)" "i \<le> scv (mem s) LEpoch" and b: "bounded (mem s) X"
    and f: "slot_done s V i X sl"
  shows "slot_done s' V i X sl"
proof -
  obtain c where c: "c \<le> X (LSlot sl)" "fresh_at s V i c sl"
      "\<And>a. a \<in> accs s \<Longrightarrow> a_slot a = sl \<Longrightarrow> a_idx a \<le> c \<Longrightarrow> a_clk a \<le> X (LClk (a_tid a))"
    using f by (auto simp: slot_done_def)
  have "c \<le> last_ix (mem s) (LSlot sl)"
    using b c(1) by (auto simp: bounded_def intro: order_trans)
  have old: "a \<in> accs s" if "a \<in> accs s'" "a_slot a = sl" "a_idx a \<le> c" for a
  proof (rule ccontr)
    assume "a \<notin> accs s"
    with tstep_accs [OF inv st] that(1, 2) have "a_idx a = nwords s sl" "a_idx a \<noteq> 0"
      by blast+
    with that \<open>c \<le> last_ix (mem s) (LSlot sl)\<close> show False
      unfolding last_ix_def by linarith
  qed
  show ?thesis
    unfolding slot_done_def using c fresh_at_tstep [OF inv st sc c(2)] old by blast
qed

lemma completed_tstep:
  assumes inv: "thread_inv s" and st: "tstep s s'" and f: "completed s V i X"
  shows "completed s' V i X"
proof -
  note g = tstep_grows [OF st]
  have "V \<le> scv (mem s')" "i \<le> scv (mem s') LEpoch" "bounded (mem s') X"
    using f growsD(2, 9) [OF g] by (auto simp: completed_def intro: order_trans dest: le_funD)
  then show ?thesis
    using f slot_done_tstep [OF inv st] by (simp add: completed_def)
qed

text \<open>A version older than what the finished grace period knows is not in use any more \<dots>\<close>

lemma completed_not_held:
  assumes inv: "thread_inv s" and c: "completed s V i X" and h: "(b, ts) \<in> held (thr s t)"
  shows "V (LPtr b) \<le> ts"
proof -
  obtain a where a: "a \<in> accs s" "a_box a = b" "a_ts a = ts" "a_idx a = nwords s (a_slot a)"
    using inv_heldD [OF thread_invD(10) [OF inv] h] by (auto simp: accessed_def)
  obtain c where "c \<le> X (LSlot (a_slot a))" and f: "fresh_at s V i c (a_slot a)"
    using c unfolding completed_def slot_done_def by blast
  then have "c \<le> last_ix (mem s) (LSlot (a_slot a))"
    using c by (auto simp: completed_def bounded_def intro: order_trans)
  then have "c < a_idx a"
    using a(4) access_idx(1) [OF inv a(1)] unfolding last_ix_def by linarith
  with f a show ?thesis
    by (auto simp: fresh_at_def)
qed

text \<open>\<dots> and every access to it happens before the waiter's view.\<close>

lemma completed_happens_before:
  assumes c: "completed s V i X" and a: "a \<in> accs s" and old: "a_ts a < V (LPtr (a_box a))"
  shows "a_clk a \<le> X (LClk (a_tid a))"
proof -
  obtain c where "fresh_at s V i c (a_slot a)"
      "\<forall>a' \<in> accs s. a_slot a' = a_slot a \<and> a_idx a' \<le> c \<longrightarrow> a_clk a' \<le> X (LClk (a_tid a'))"
    using c unfolding completed_def slot_done_def by blast
  then show ?thesis
    using a old by (cases "a_idx a \<le> c") (auto simp: fresh_at_def)
qed

subsection \<open>Between grace periods\<close>

text \<open>
  What is left of finished grace periods for the next ones: every slot is fresh from a word the
  next waiter knows, so its visible words stem from the epoch messages not older than \<open>i\<close>.
\<close>

definition base :: "('w::len, 'g::len) rcu \<Rightarrow> nat \<Rightarrow> loc view \<Rightarrow> bool" where
  "base s i X \<longleftrightarrow>
     i \<le> scv (mem s) LEpoch \<and> (\<forall>sl. \<exists>c \<le> X (LSlot sl). fresh_at s (\<lambda>_. 0) i c sl)"

lemma base_mono: "base s i X \<Longrightarrow> X \<le> Y \<Longrightarrow> base s i Y"
  unfolding base_def by (meson le_funD order_trans)

lemma base_tstep:
  assumes inv: "thread_inv s" and st: "tstep s s'" and f: "base s i X"
  shows "base s' i X"
proof -
  have sc: "scv (mem s) \<le> scv (mem s')"
    using growsD(2) [OF tstep_grows [OF st]] .
  have "fresh_at s (\<lambda>_. 0) i c sl \<Longrightarrow> fresh_at s' (\<lambda>_. 0) i c sl" for c sl
    by (rule fresh_at_tstep [OF inv st]) (use f in \<open>auto simp: base_def le_fun_def\<close>)
  then show ?thesis
    using f le_funD [OF sc, of LEpoch] unfolding base_def by (meson order_trans)
qed

lemma base_completed: "completed s V i X \<Longrightarrow> base s i X"
proof -
  assume c: "completed s V i X"
  have "\<exists>c \<le> X (LSlot sl). fresh_at s (\<lambda>_. 0) i c sl" for sl
  proof -
    obtain c where "c \<le> X (LSlot sl)" "fresh_at s V i c sl"
      using c unfolding completed_def slot_done_def by blast
    moreover from this have "fresh_at s (\<lambda>_. 0) i c sl"
      by (auto simp: le_fun_def intro: fresh_at_mono_view)
    ultimately show ?thesis
      by blast
  qed
  with c show ?thesis
    by (simp add: base_def completed_def)
qed

text \<open>A busy word with an epoch id that only the last epoch message can have.\<close>

lemma base_source:
  assumes "base s i X" and "X (LSlot sl) \<le> k" and "k < nwords s sl"
    and "word_busy (word_at s sl k)" and "word_seen (word_at s sl k) \<noteq> 0"
  obtains j where "i \<le> j" and "word_source s sl k j"
  using assms unfolding base_def fresh_at_def by (meson order_trans)

text \<open>What reading a word with a good state gives.\<close>

lemma scan_word:
  assumes inv: "thread_inv s" and b: "base s i0 X" and F: "fence_ok s V i X"
    and k: "X (LSlot sl) \<le> k" "k < nwords s sl" and ok: "slot_ok w (word_at s sl k)"
    and nz: "\<not> last_seen_epoch_id_predicate w 0"
    and last: "\<And>j. i0 \<le> j \<Longrightarrow> j < nepochs s \<Longrightarrow> last_seen_epoch_id_predicate w (epoch_at s j) \<Longrightarrow> j = i"
    and V: "V \<le> eview s i"
    and Y: "k \<le> Y (LSlot sl)" "wview s sl k \<le> Y"
  shows "slot_done s V i Y sl"
proof -
  have "fresh_at s V i k sl"
  proof (cases "word_busy (word_at s sl k)")
    case False
    with F k show ?thesis
      by (simp add: fence_ok_def)
  next
    case True
    with ok have p: "last_seen_epoch_id_predicate w (word_seen (word_at s sl k))"
      by (simp add: slot_ok_cases)
    then have nz': "word_seen (word_at s sl k) \<noteq> 0"
      using nz by auto
    obtain j where j: "i0 \<le> j" "word_source s sl k j"
      using base_source [OF b k True nz'] by blast
    with last p have "j = i"
      by (auto simp: word_source_def)
    with j(2) V have "V \<le> wview s sl k" "i \<le> wview s sl k LEpoch"
      by (auto simp: word_source_def)
    then show ?thesis
      using j(2) \<open>j = i\<close> by (intro fresh_at_word [OF inv k(2)]) auto
  qed
  moreover have "a_clk a \<le> Y (LClk (a_tid a))" if a: "a \<in> accs s" "a_slot a = sl \<and> a_idx a \<le> k" for a
  proof -
    have "a_clk a \<le> wview s sl k (LClk (a_tid a))"
      using thread_invD(9) [OF inv] a k(2) unfolding inv_accs_def by blast
    with Y(2) show ?thesis
      by (meson le_funD order_trans)
  qed
  ultimately show ?thesis
    using Y(1) unfolding slot_done_def by blast
qed

text \<open>A slot past the length the waiter read.\<close>

lemma scan_past:
  assumes inv: "thread_inv s" and F: "fence_ok s V i X" and "X LLen \<le> sl"
  shows "slot_done s V i Y sl"
  unfolding slot_done_def
proof (intro exI [of _ 0] conjI ballI impI)
  show "fresh_at s V i 0 sl"
    using F assms(3) by (simp add: fence_ok_def)
  fix a
  assume "a \<in> accs s" "a_slot a = sl \<and> a_idx a \<le> 0"
  with access_idx(1) [OF inv] show "a_clk a \<le> Y (LClk (a_tid a))"
    by fastforce
qed simp

end
