(* ===== verification/Gp_Inv.thy ===== *)
theory Gp_Inv
  imports Grace_Period
begin

text \<open>
  The invariant of the futures: who holds which lock, what the grace period counters mean, and how
  far the current grace period has come. Each clause speaks about one future and the view of the thread
  that polls it; \<open>frame\<close> lemmas show that a clause survives the steps of everybody else.
\<close>

subsection \<open>Positions\<close>

fun waiting :: "'e opc \<Rightarrow> bool" where
  "waiting OSub = True"
| "waiting OSnap = True"
| "waiting OFence = True"
| "waiting OTid = True"
| "waiting OScanBegin = True"
| "waiting OScan = True"
| "waiting (OScanEnd _) = True"
| "waiting OPoll1 = True"
| "waiting OReady = True"
| "waiting OReg = True"
| "waiting (ORegW _ _) = True"
| "waiting OPoll2 = True"
| "waiting OPend = True"
| "waiting (ODrop _) = True"
| "waiting (ODropInfo _) = True"
| "waiting _ = False"

text \<open>In \<open>synchronize_rcu_serialized\<close>.\<close>

fun serial :: "'e opc \<Rightarrow> bool" where
  "serial OLoadEpoch = True"
| "serial (OSetEpoch _) = True"
| "serial OReset = True"
| "serial OSetAfterReset = True"
| "serial p = waiting p"

text \<open>Holding the mutex; having a valid grace period id and no grace period for it yet; holding the read guard;
  holding the write guard.\<close>

fun holder :: "'e opc \<Rightarrow> bool" where
  "holder OChk = True"
| "holder OFinFence = True"
| "holder OLoadStarted = True"
| "holder OPub = True"
| "holder OUnlock = True"
| "holder p = serial p"

fun counted :: "'e opc \<Rightarrow> bool" where
  "counted OLock = True"
| "counted OUnlock = False"
| "counted p = holder p"

fun reader :: "'e opc \<Rightarrow> bool" where
  "reader OInc = True"
| "reader OSlvListen = True"
| "reader OSlvDrop = True"
| "reader OLdrDrop = True"
| "reader ORstDrop = True"
| "reader OLock = True"
| "reader p = holder p"

fun resetting :: "'e opc \<Rightarrow> bool" where
  "resetting OLdrZeroStarted = True"
| "resetting OLdrZeroFinished = True"
| "resetting OLdrUnlock = True"
| "resetting _ = False"

fun live :: "'e opc \<Rightarrow> bool" where
  "live ONone = False"
| "live OFinished = False"
| "live _ = True"

lemma pos_rules:
  "waiting p \<Longrightarrow> serial p" "serial p \<Longrightarrow> holder p" "holder p \<Longrightarrow> reader p" "counted p \<Longrightarrow> reader p"
  "reader p \<Longrightarrow> live p" "serial p \<Longrightarrow> counted p" "resetting p \<Longrightarrow> live p" "resetting p \<Longrightarrow> \<not> reader p"
  by (cases p; simp)+

text \<open>The waits that give a grace period; the wait after the reset of the epoch id gives none.\<close>

fun real_wait :: "'e wait \<Rightarrow> bool" where
  "real_wait (WNoOverflow _) = True"
| "real_wait WReset = False"
| "real_wait WAfterReset = True"

subsection \<open>What a future knows\<close>

definition opview :: "('e, 'g) sys \<Rightarrow> nat \<Rightarrow> loc view" where
  "opview s q = (case attached (ops s q) of Some t \<Rightarrow> cur (mem s) t | None \<Rightarrow> lv (mem s) (LkTask q))"

abbreviation nstarted :: "('e, 'g) sys \<Rightarrow> nat" where
  "nstarted s \<equiv> length (hist (mem s) LStarted)"

abbreviation nfinished :: "('e, 'g) sys \<Rightarrow> nat" where
  "nfinished s \<equiv> length (hist (mem s) LFinished)"

abbreviation started_at :: "('e, 'g) sys \<Rightarrow> nat \<Rightarrow> 'g" where
  "started_at s j \<equiv> val_gp (mval (mem s) LStarted j)"

abbreviation finished_at :: "('e, 'g) sys \<Rightarrow> nat \<Rightarrow> 'g" where
  "finished_at s j \<equiv> val_gp (mval (mem s) LFinished j)"

abbreviation started :: "('e, 'g) sys \<Rightarrow> 'g" where
  "started s \<equiv> started_at s (last_ix (mem s) LStarted)"

abbreviation epoch_ix :: "('e, 'g) sys \<Rightarrow> nat" where
  "epoch_ix s \<equiv> last_ix (mem s) LEpoch"

text \<open>The grace period the call of \<open>r\<close> asked for is over, in the view \<open>X\<close>.\<close>

definition op_done :: "('w::len, 'g::len) rcu \<Rightarrow> ('w word, 'g word) oper \<Rightarrow> loc view \<Rightarrow> bool" where
  "op_done s r X \<longleftrightarrow> (\<exists>V i. call_view r \<le> V \<and> completed s V i X)"

subsection \<open>Clauses\<close>

definition locks_inv :: "('e, 'g) sys \<Rightarrow> bool" where
  "locks_inv s \<longleftrightarrow>
     (\<forall>q. gp_mutex s = Some q \<longleftrightarrow> holder (opc (ops s q))) \<and>
     (\<forall>q. q \<in> rst_readers s \<longleftrightarrow> reader (opc (ops s q))) \<and>
     (\<forall>q. rst_writer s = Some q \<longleftrightarrow> resetting (opc (ops s q))) \<and>
     (rst_writer s \<noteq> None \<longrightarrow> rst_readers s = {})"

text \<open>
  The counters, as a view \<open>X\<close> may still see them: a finished value covers the futures with ids up to it,
  a started value knows the futures with ids up to it.
\<close>

definition counters_ok :: "('w::len, 'g::len) rcu \<Rightarrow> loc view \<Rightarrow> bool" where
  "counters_ok s X \<longleftrightarrow>
     (\<forall>j. X LFinished \<le> j \<and> j < nfinished s \<longrightarrow> finished_at s j \<le> started s \<and>
        (\<forall>r. counted (opc (ops s r)) \<and> my_gp_counter (ops s r) \<le> finished_at s j \<longrightarrow>
           op_done s (ops s r) (mview (mem s) LFinished j))) \<and>
     (\<forall>j. X LStarted \<le> j \<and> j < nstarted s \<longrightarrow> started_at s j \<le> started s \<and>
        (\<forall>r. counted (opc (ops s r)) \<and> my_gp_counter (ops s r) \<le> started_at s j \<longrightarrow>
           call_view (ops s r) \<le> mview (mem s) LStarted j))"

definition own_id :: "('w::len, 'g::len) rcu \<Rightarrow> ('w word, 'g word) oper \<Rightarrow> loc view \<Rightarrow> bool" where
  "own_id s r X \<longleftrightarrow> (\<forall>j. X LStarted \<le> j \<and> j < nstarted s \<longrightarrow> my_gp_counter r \<le> started_at s j)"

definition zeroed :: "('w::len, 'g::len) rcu \<Rightarrow> 'w word opc \<Rightarrow> loc view \<Rightarrow> bool" where
  "zeroed s p X \<longleftrightarrow>
     (p = OLdrZeroFinished \<or> p = OLdrUnlock \<longrightarrow> started s = 0 \<and> last_ix (mem s) LStarted \<le> X LStarted) \<and>
     (p = OLdrUnlock \<longrightarrow> finished_at s (last_ix (mem s) LFinished) = 0 \<and>
        last_ix (mem s) LFinished \<le> X LFinished)"

definition counter_clause :: "('w::len, 'g::len) rcu \<Rightarrow> ('w word, 'g word) oper \<Rightarrow> loc view \<Rightarrow> bool" where
  "counter_clause s r X \<longleftrightarrow>
     (reader (opc r) \<longrightarrow> counters_ok s X) \<and> (counted (opc r) \<longrightarrow> own_id s r X) \<and> zeroed s (opc r) X"

text \<open>The performer has the calls of all the futures it performs for in the view \<open>X\<close>.\<close>

definition covers :: "('w::len, 'g::len) rcu \<Rightarrow> ('w word, 'g word) oper \<Rightarrow> loc view \<Rightarrow> bool" where
  "covers s r X \<longleftrightarrow>
     my_gp_counter r \<le> gp_started_counter r \<and> gp_started_counter r \<le> started s \<and>
     (\<forall>q. counted (opc (ops s q)) \<and> my_gp_counter (ops s q) \<le> gp_started_counter r \<longrightarrow>
        call_view (ops s q) \<le> X)"

definition covers_clause :: "('w::len, 'g::len) rcu \<Rightarrow> ('w word, 'g word) oper \<Rightarrow> loc view \<Rightarrow> bool" where
  "covers_clause s r X \<longleftrightarrow>
     (serial (opc r) \<longrightarrow> covers s r X) \<and>
     (waiting (opc r) \<and> real_wait (wait_for r) \<or> opc r = OPub \<longrightarrow> covers s r (eview s (epoch_ix s)))"

text \<open>The epoch messages of the current grace period.\<close>

definition after_max :: "('w::len, 'g::len) rcu \<Rightarrow> bool" where
  "after_max s \<longleftrightarrow> 2 \<le> nepochs s \<and> epoch_at s (nepochs s - 2) = EPOCH_ID_MAX \<and>
     epoch_at s (nepochs s - 1) = EPOCH_ID_MIN"

fun wait_epochs :: "('w::len, 'g::len) rcu \<Rightarrow> 'w word wait \<Rightarrow> bool" where
  "wait_epochs s (WNoOverflow v) \<longleftrightarrow> 2 \<le> nepochs s \<and> epoch_at s (nepochs s - 1) = v \<and>
     epoch_at s (nepochs s - 2) \<noteq> EPOCH_ID_MAX \<and> v = epoch_at s (nepochs s - 2) + 2"
| "wait_epochs s WReset \<longleftrightarrow> after_max s"
| "wait_epochs s WAfterReset \<longleftrightarrow> 3 \<le> nepochs s \<and> epoch_at s (nepochs s - 3) = EPOCH_ID_MAX \<and>
     epoch_at s (nepochs s - 2) = EPOCH_ID_MIN \<and> epoch_at s (nepochs s - 1) = EPOCH_ID_MIN + 2"

definition epochs_ok :: "('w::len, 'g::len) rcu \<Rightarrow> 'w word opc \<Rightarrow> 'w word wait \<Rightarrow> bool" where
  "epochs_ok s p w \<longleftrightarrow>
     (case p of
        OSetEpoch e \<Rightarrow> epoch_at s (nepochs s - 1) = e \<and> e \<noteq> EPOCH_ID_MAX
      | OReset \<Rightarrow> epoch_at s (nepochs s - 1) = EPOCH_ID_MAX
      | OSetAfterReset \<Rightarrow> after_max s
      | _ \<Rightarrow> waiting p \<longrightarrow> wait_epochs s w)"

text \<open>
  The slots are fresh from an epoch message that is at most \<open>D\<close> messages before \<open>n\<close>, and the ids rise up to \<open>n\<close>.
  \<open>D\<close> is 0 as long as every grace period is waited for to its end; it counts the waits that were given up.
\<close>

definition settled :: "nat \<Rightarrow> ('w::len, 'g::len) rcu \<Rightarrow> nat \<Rightarrow> loc view \<Rightarrow> bool" where
  "settled D s n X \<longleftrightarrow> n < nepochs s \<and> (\<exists>b \<le> n. n \<le> b + D \<and> base s b X \<and>
     (\<forall>j. b \<le> j \<and> j < n \<longrightarrow> epoch_at s j \<noteq> EPOCH_ID_MAX \<and> epoch_at s (Suc j) = epoch_at s j + 2))"

text \<open>The last epoch message before the current grace period.\<close>

fun wait_base :: "'e wait \<Rightarrow> nat" where
  "wait_base (WNoOverflow _) = 2"
| "wait_base WReset = 2"
| "wait_base WAfterReset = 3"

definition base_ix :: "('w::len, 'g::len) rcu \<Rightarrow> 'w word opc \<Rightarrow> 'w word wait \<Rightarrow> nat" where
  "base_ix s p w = nepochs s -
     (if waiting p then wait_base w else if p = OSetAfterReset then 2 else 1)"

text \<open>How far the scan has come, in a wait that gives a grace period.\<close>

definition fenced :: "('w::len, 'g::len) rcu \<Rightarrow> loc view \<Rightarrow> bool" where
  "fenced s X \<longleftrightarrow>
     eview s (epoch_ix s) \<le> scv (mem s) \<and> epoch_ix s \<le> scv (mem s) LEpoch \<and>
     fence_ok s (eview s (epoch_ix s)) (epoch_ix s) X"

definition scanned :: "('w::len, 'g::len) rcu \<Rightarrow> loc view \<Rightarrow> nat \<Rightarrow> bool" where
  "scanned s X sl \<longleftrightarrow> slot_done s (eview s (epoch_ix s)) (epoch_ix s) X sl"

definition all_scanned :: "('w::len, 'g::len) rcu \<Rightarrow> loc view \<Rightarrow> bool" where
  "all_scanned s X \<longleftrightarrow> completed s (eview s (epoch_ix s)) (epoch_ix s) X"

definition scan_clause :: "('w::len, 'g::len) rcu \<Rightarrow> 'w word opc \<Rightarrow> nat \<Rightarrow> nat \<Rightarrow> loc view \<Rightarrow> bool" where
  "scan_clause s p pos len X \<longleftrightarrow>
     (case p of
        OTid \<Rightarrow> fenced s X
      | OScanBegin \<Rightarrow> fenced s X
      | OScan \<Rightarrow> fenced s X \<and> (\<forall>sl. sl < pos \<or> len \<le> sl \<longrightarrow> scanned s X sl)
      | OScanEnd b \<Rightarrow> b \<longrightarrow> all_scanned s X
      | ODrop b \<Rightarrow> b \<longrightarrow> all_scanned s X
      | ODropInfo b \<Rightarrow> b \<longrightarrow> all_scanned s X
      | _ \<Rightarrow> True)"

definition epoch_clause :: "nat \<Rightarrow> ('w::len, 'g::len) rcu \<Rightarrow> ('w word, 'g word) oper \<Rightarrow> loc view \<Rightarrow> bool" where
  "epoch_clause D s r X \<longleftrightarrow>
     (holder (opc r) \<longrightarrow> epoch_ix s \<le> X LEpoch \<and> settled D s (base_ix s (opc r) (wait_for r)) X \<and>
        epochs_ok s (opc r) (wait_for r)) \<and>
     (waiting (opc r) \<and> real_wait (wait_for r) \<longrightarrow>
        eview s (epoch_ix s) \<le> X \<and> scan_clause s (opc r) (scan_pos r) (scan_len r) X) \<and>
     (opc r = OPub \<longrightarrow> all_scanned s X)"

text \<open>The futures whose grace period is over.\<close>

definition done_clause :: "('w::len, 'g::len) rcu \<Rightarrow> ('w word, 'g word) oper \<Rightarrow> loc view \<Rightarrow> bool" where
  "done_clause s r X \<longleftrightarrow>
     (opc r = OUnlock \<or> opc r = ORstDrop \<or> opc r = OReturned \<longrightarrow> op_done s r X) \<and>
     (opc r = OFinFence \<longrightarrow> (\<exists>t. attached r = Some t \<and> op_done s r (vacq (tv (mem s) t))))"

definition call_clause :: "('e, 'g) oper \<Rightarrow> loc view \<Rightarrow> bool" where
  "call_clause r X \<longleftrightarrow>
     (live (opc r) \<longrightarrow> call_view r \<le> X \<and> (\<forall>(b, ts) \<in> olds r. ts < call_view r (LPtr b)))"

definition op_inv :: "nat \<Rightarrow> ('w::len, 'g::len) rcu \<Rightarrow> ('w word, 'g word) oper \<Rightarrow> loc view \<Rightarrow> bool" where
  "op_inv D s r X \<longleftrightarrow>
     call_clause r X \<and> counter_clause s r X \<and> covers_clause s r X \<and> epoch_clause D s r X \<and> done_clause s r X"

definition freed_inv :: "('w::len, 'g::len) rcu \<Rightarrow> bool" where
  "freed_inv s \<longleftrightarrow> (\<forall>(b, ts) \<in> freed s. \<exists>V i X. ts < V (LPtr b) \<and> completed s V i X)"

definition gp_inv :: "nat \<Rightarrow> ('w::len, 'g::len) rcu \<Rightarrow> bool" where
  "gp_inv D s \<longleftrightarrow>
     2 * D + 6 < 2 ^ LENGTH('w) \<and> locks_inv s \<and> (\<forall>q. op_inv D s (ops s q) (opview s q)) \<and>
     (gp_mutex s = None \<longrightarrow> epoch_ix s \<le> lv (mem s) LkMutex LEpoch \<and>
        settled D s (nepochs s - 1) (lv (mem s) LkMutex)) \<and>
     (rst_writer s = None \<longrightarrow> counters_ok s (lv (mem s) LkRstW)) \<and>
     freed_inv s"

lemmas op_inv_defs = op_inv_def call_clause_def counter_clause_def covers_clause_def epoch_clause_def
  done_clause_def

subsection \<open>The clauses survive the steps of others\<close>

lemma tsteps_grows: "tsteps s s' \<Longrightarrow> grows (mem s) (mem s')"
  by (induction rule: rtranclp_induct) (auto intro: grows_trans tstep_grows)

lemma tsteps_stable:
  assumes "tsteps s s'" and "thread_inv s"
    and step: "\<And>s1 s2. thread_inv s1 \<Longrightarrow> tstep s1 s2 \<Longrightarrow> grows (mem s) (mem s1) \<Longrightarrow> P s1 \<Longrightarrow> P s2" and "P s"
  shows "P s'"
  using assms(1, 2, 4)
proof (induction rule: rtranclp_induct)
  case (step s1 s2)
  moreover have "thread_inv s1" "grows (mem s) (mem s1)"
    using step.hyps(1) step.prems(1) by (auto intro: thread_inv_tsteps tsteps_grows)
  ultimately show ?case
    using assms(3) by blast
qed

lemma completed_tsteps: "tsteps s s' \<Longrightarrow> thread_inv s \<Longrightarrow> completed s V i X \<Longrightarrow> completed s' V i X"
  by (erule tsteps_stable) (auto intro: completed_tstep)

lemma base_tsteps: "tsteps s s' \<Longrightarrow> thread_inv s \<Longrightarrow> base s i X \<Longrightarrow> base s' i X"
  by (erule tsteps_stable) (auto intro: base_tstep)

lemma settled_mono: "settled D s n X \<Longrightarrow> X \<le> Y \<Longrightarrow> settled D s n Y"
  unfolding settled_def by (meson base_mono)

lemma settled_tsteps:
  assumes ts: "tsteps s s'" and inv: "thread_inv s" and se: "settled D s n X"
  shows "settled D s' n X"
proof -
  have e: "epoch_at s' j = epoch_at s j" if "j < nepochs s" for j
    using growsD(7) [OF tsteps_grows [OF ts] that] by simp
  obtain b where n: "n < nepochs s" and b: "b \<le> n" "n \<le> b + D" "base s b X"
      "\<And>j. b \<le> j \<Longrightarrow> j < n \<Longrightarrow> epoch_at s j \<noteq> EPOCH_ID_MAX \<and> epoch_at s (Suc j) = epoch_at s j + 2"
    using se unfolding settled_def by blast
  have "n < nepochs s'"
    using n growsD(4) [OF tsteps_grows [OF ts], of LEpoch] by simp
  moreover have "epoch_at s' j \<noteq> EPOCH_ID_MAX \<and> epoch_at s' (Suc j) = epoch_at s' j + 2" if "b \<le> j" "j < n" for j
    using b(4) [OF that] that n by (simp add: e)
  ultimately show ?thesis
    unfolding settled_def using b(1,2) base_tsteps [OF ts inv b(3)] by blast
qed

lemma settled_base: "base s n X \<Longrightarrow> n < nepochs s \<Longrightarrow> settled D s n X"
  unfolding settled_def by fastforce

lemma known_grows:
  assumes "grows m m'" and "V \<le> scv m" and "i \<le> scv m x"
  shows "V \<le> scv m'" and "i \<le> scv m' x"
  using assms growsD(2) [OF assms(1)] by (auto intro: order_trans dest: le_funD)

lemma fence_ok_tsteps:
  assumes "tsteps s s'" "thread_inv s" "V \<le> scv (mem s)" "i \<le> scv (mem s) LEpoch" "fence_ok s V i X"
  shows "fence_ok s' V i X"
proof (rule tsteps_stable [OF assms(1, 2), where P = "\<lambda>u. fence_ok u V i X"])
  fix s1 s2
  assume "thread_inv s1" "tstep s1 s2" "grows (mem s) (mem s1)" "fence_ok s1 V i X"
  then show "fence_ok s2 V i X"
    using known_grows [OF _ assms(3, 4)] by (intro fence_ok_tstep [of s1 s2]) auto
qed (rule assms(5))

lemma slot_done_tsteps:
  assumes "tsteps s s'" "thread_inv s" "V \<le> scv (mem s)" "i \<le> scv (mem s) LEpoch"
    "bounded (mem s) X" "slot_done s V i X sl"
  shows "slot_done s' V i X sl"
proof (rule tsteps_stable [OF assms(1, 2), where P = "\<lambda>u. slot_done u V i X sl"])
  fix s1 s2
  assume "thread_inv s1" "tstep s1 s2" and g: "grows (mem s) (mem s1)" and "slot_done s1 V i X sl"
  then show "slot_done s2 V i X sl"
    using known_grows [OF g assms(3, 4)] growsD(9) [OF g assms(5)] by (intro slot_done_tstep [of s1 s2]) auto
qed (rule assms(6))

lemma op_done_tsteps: "tsteps s s' \<Longrightarrow> thread_inv s \<Longrightarrow> op_done s r X \<Longrightarrow> op_done s' r X"
  unfolding op_done_def by (blast intro: completed_tsteps)

lemma op_done_mono: "op_done s r X \<Longrightarrow> X \<le> Y \<Longrightarrow> bounded (mem s) Y \<Longrightarrow> op_done s r Y"
  unfolding op_done_def by (blast intro: completed_mono)

lemma op_done_call: "op_done s r X \<Longrightarrow> call_view r' = call_view r \<Longrightarrow> op_done s r' X"
  by (simp add: op_done_def)

lemma opview_bounded: "thread_inv s \<Longrightarrow> bounded (mem s) (opview s q)"
  using wf_memD(4, 7) [OF thread_invD(1)] by (auto simp: opview_def split: option.splits)

lemma opview_grows:
  "grows (mem s) (mem s') \<Longrightarrow> attached (ops s' q) = attached (ops s q) \<Longrightarrow> opview s q \<le> opview s' q"
  using growsD(1, 3) by (auto simp: opview_def split: option.splits)

text \<open>No future enters the counted positions, or changes its id or its call, between \<open>s\<close> and \<open>s'\<close>.\<close>

definition counted_le :: "('e, 'g) sys \<Rightarrow> ('e, 'g) sys \<Rightarrow> bool" where
  "counted_le s s' \<longleftrightarrow> (\<forall>r. counted (opc (ops s' r)) \<longrightarrow> counted (opc (ops s r)) \<and>
     my_gp_counter (ops s' r) = my_gp_counter (ops s r) \<and> call_view (ops s' r) = call_view (ops s r))"

lemma counters_ok_frame:
  assumes ts: "tsteps s s'" "thread_inv s"
    and h: "hist (mem s') LStarted = hist (mem s) LStarted" "hist (mem s') LFinished = hist (mem s) LFinished"
    and le: "counted_le s s'" "X \<le> Y" and c: "counters_ok s X"
  shows "counters_ok s' Y"
proof -
  have same: "mval (mem s') LStarted = mval (mem s) LStarted" "mview (mem s') LStarted = mview (mem s) LStarted"
    "mval (mem s') LFinished = mval (mem s) LFinished" "mview (mem s') LFinished = mview (mem s) LFinished"
    "last_ix (mem s') LStarted = last_ix (mem s) LStarted"
    by (simp_all add: fun_eq_iff mval_def mview_def last_ix_def h)
  have "X x \<le> Y x" for x
    using le(2) by (rule le_funD)
  then have XY: "Y x \<le> j \<Longrightarrow> X x \<le> j" for x j
    by (blast intro: order_trans)
  show ?thesis
    unfolding counters_ok_def same h
  proof (intro conjI allI impI; elim conjE)
    fix j
    assume j: "Y LFinished \<le> j" "j < nfinished s"
    with c XY show "finished_at s j \<le> started s"
      unfolding counters_ok_def by blast
    fix r
    assume r: "counted (opc (ops s' r))" "my_gp_counter (ops s' r) \<le> finished_at s j"
    then have e: "counted (opc (ops s r))" "my_gp_counter (ops s' r) = my_gp_counter (ops s r)"
        "call_view (ops s' r) = call_view (ops s r)"
      using le(1) by (simp_all add: counted_le_def)
    then have "op_done s (ops s r) (mview (mem s) LFinished j)"
      using c j XY r(2) unfolding counters_ok_def by metis
    then show "op_done s' (ops s' r) (mview (mem s) LFinished j)"
      using op_done_tsteps [OF ts] op_done_call e(3) by blast
  next
    fix j
    assume j: "Y LStarted \<le> j" "j < nstarted s"
    with c XY show "started_at s j \<le> started s"
      unfolding counters_ok_def by blast
    fix r
    assume r: "counted (opc (ops s' r))" "my_gp_counter (ops s' r) \<le> started_at s j"
    then have e: "counted (opc (ops s r))" "my_gp_counter (ops s' r) = my_gp_counter (ops s r)"
        "call_view (ops s' r) = call_view (ops s r)"
      using le(1) by (simp_all add: counted_le_def)
    then show "call_view (ops s' r) \<le> mview (mem s) LStarted j"
      using c j XY r(2) unfolding counters_ok_def by metis
  qed
qed

lemma counter_clause_frame:
  assumes ts: "tsteps s s'" "thread_inv s"
    and h: "hist (mem s') LStarted = hist (mem s) LStarted" "hist (mem s') LFinished = hist (mem s) LFinished"
    and le: "counted_le s s'" "X \<le> Y" and c: "counter_clause s r X"
  shows "counter_clause s' r Y"
proof -
  have same: "mval (mem s') LStarted = mval (mem s) LStarted" "mval (mem s') LFinished = mval (mem s) LFinished"
    "last_ix (mem s') LStarted = last_ix (mem s) LStarted" "last_ix (mem s') LFinished = last_ix (mem s) LFinished"
    by (simp_all add: fun_eq_iff mval_def last_ix_def h)
  have XY: "X x \<le> Y x" for x
    using le(2) by (rule le_funD)
  have "own_id s r X \<Longrightarrow> own_id s' r Y"
    using XY unfolding own_id_def same h by (meson order_trans)
  moreover have "zeroed s (opc r) X \<Longrightarrow> zeroed s' (opc r) Y"
    using XY unfolding zeroed_def same by (meson order_trans)
  ultimately show ?thesis
    using c counters_ok_frame [OF ts h le] by (auto simp: counter_clause_def)
qed

lemma covers_frame:
  assumes st: "started s \<le> started s'"
    and new: "\<And>q. counted (opc (ops s' q)) \<Longrightarrow>
      counted (opc (ops s q)) \<and> my_gp_counter (ops s' q) = my_gp_counter (ops s q) \<and>
        call_view (ops s' q) = call_view (ops s q) \<or> started s < my_gp_counter (ops s' q)"
    and le: "X \<le> Y" and c: "covers s r X"
  shows "covers s' r Y"
  unfolding covers_def
proof (intro conjI allI impI)
  show "my_gp_counter r \<le> gp_started_counter r" and "gp_started_counter r \<le> started s'"
    using c st by (auto simp: covers_def)
  fix q
  assume q: "counted (opc (ops s' q)) \<and> my_gp_counter (ops s' q) \<le> gp_started_counter r"
  then have "my_gp_counter (ops s' q) \<le> started s"
    using c by (auto simp: covers_def)
  then have "counted (opc (ops s q)) \<and> my_gp_counter (ops s' q) = my_gp_counter (ops s q) \<and>
        call_view (ops s' q) = call_view (ops s q)"
    using new [of q] q by auto
  with q c le show "call_view (ops s' q) \<le> Y"
    unfolding covers_def by (metis order_trans)
qed

lemma epoch_same:
  assumes "hist (mem s') LEpoch = hist (mem s) LEpoch"
  shows "mval (mem s') LEpoch = mval (mem s) LEpoch" "mview (mem s') LEpoch = mview (mem s) LEpoch"
    "epoch_ix s' = epoch_ix s"
  using assms by (simp_all add: fun_eq_iff mval_def mview_def last_ix_def)

lemma covers_clause_frame:
  assumes h: "hist (mem s') LEpoch = hist (mem s) LEpoch" and st: "started s \<le> started s'"
    and new: "\<And>q. counted (opc (ops s' q)) \<Longrightarrow>
      counted (opc (ops s q)) \<and> my_gp_counter (ops s' q) = my_gp_counter (ops s q) \<and>
        call_view (ops s' q) = call_view (ops s q) \<or> started s < my_gp_counter (ops s' q)"
    and le: "X \<le> Y" and c: "covers_clause s r X"
  shows "covers_clause s' r Y"
  using c covers_frame [OF st new le] covers_frame [OF st new order_refl]
  unfolding covers_clause_def epoch_same [OF h] by blast

lemma fenced_frame:
  assumes ts: "tsteps s s'" "thread_inv s" and h: "hist (mem s') LEpoch = hist (mem s) LEpoch"
    and "X \<le> Y" and "fenced s X"
  shows "fenced s' Y"
  using assms(4, 5) known_grows [OF tsteps_grows [OF ts(1)]] fence_ok_tsteps [OF ts]
  unfolding fenced_def epoch_same [OF h] by (blast intro: fence_ok_mono)

lemma scanned_frame:
  assumes ts: "tsteps s s'" "thread_inv s" and h: "hist (mem s') LEpoch = hist (mem s) LEpoch"
    and "X \<le> Y" "bounded (mem s) X" and "fenced s X" and "scanned s X sl"
  shows "scanned s' Y sl"
  using assms(4-7) slot_done_tsteps [OF ts] unfolding scanned_def fenced_def epoch_same [OF h]
  by (blast intro: slot_done_mono)

lemma all_scanned_frame:
  assumes ts: "tsteps s s'" "thread_inv s" and h: "hist (mem s') LEpoch = hist (mem s) LEpoch"
    and "X \<le> Y" "bounded (mem s') Y" and "all_scanned s X"
  shows "all_scanned s' Y"
  using assms(4-6) completed_tsteps [OF ts] unfolding all_scanned_def epoch_same [OF h]
  by (blast intro: completed_mono)

lemma wait_epochs_same:
  assumes "hist (mem s') LEpoch = hist (mem s) LEpoch"
  shows "wait_epochs s' w = wait_epochs s w"
  by (cases w) (simp_all add: after_max_def assms epoch_same [OF assms])

lemma epoch_clause_frame:
  assumes ts: "tsteps s s'" "thread_inv s" and h: "hist (mem s') LEpoch = hist (mem s) LEpoch"
    and le: "X \<le> Y" and b: "bounded (mem s) X" "bounded (mem s') Y" and c: "epoch_clause D s r X"
  shows "epoch_clause D s' r Y"
proof -
  have eo: "epochs_ok s' p w = epochs_ok s p w" for p w
    unfolding epochs_ok_def wait_epochs_same [OF h] after_max_def epoch_same [OF h] h ..
  have ba: "base_ix s' p w = base_ix s p w" for p w
    unfolding base_ix_def h ..
  have sc: "scan_clause s' p pos len Y" if "scan_clause s p pos len X" for p pos len
    using that fenced_frame [OF ts h le] scanned_frame [OF ts h le b(1)] all_scanned_frame [OF ts h le b(2)]
    unfolding scan_clause_def by (auto split: opc.splits)
  have "X LEpoch \<le> Y LEpoch"
    using le by (rule le_funD)
  then have "holder (opc r) \<longrightarrow> epoch_ix s \<le> Y LEpoch \<and> settled D s' (base_ix s (opc r) (wait_for r)) Y \<and>
      epochs_ok s (opc r) (wait_for r)"
    using c settled_mono [OF settled_tsteps [OF ts] le] by (auto simp: epoch_clause_def)
  moreover have "waiting (opc r) \<and> real_wait (wait_for r) \<longrightarrow>
      eview s (epoch_ix s) \<le> Y \<and> scan_clause s' (opc r) (scan_pos r) (scan_len r) Y"
    using c sc order_trans [OF _ le] by (simp add: epoch_clause_def)
  moreover have "opc r = OPub \<longrightarrow> all_scanned s' Y"
    using c all_scanned_frame [OF ts h le b(2)] by (simp add: epoch_clause_def)
  ultimately show ?thesis
    unfolding epoch_clause_def eo ba epoch_same [OF h] by simp
qed

lemma done_clause_frame:
  assumes ts: "tsteps s s'" "thread_inv s" and le: "X \<le> Y" and b: "bounded (mem s') Y"
    and c: "done_clause s r X"
  shows "done_clause s' r Y"
proof -
  note g = tsteps_grows [OF ts(1)]
  have wf: "wf_mem (mem s')"
    using thread_invD(1) thread_inv_tsteps ts by blast
  have "op_done s' r (vacq (tv (mem s') t))" if "op_done s r (vacq (tv (mem s) t))" for t
    using op_done_mono [OF op_done_tsteps [OF ts that] growsD(10) [OF g] wf_memD(3) [OF wf]] .
  moreover have "op_done s' r Y" if "op_done s r X"
    using op_done_mono [OF op_done_tsteps [OF ts that] le b] .
  ultimately show ?thesis
    using c unfolding done_clause_def by blast
qed

lemma call_clause_frame: "call_clause r X \<Longrightarrow> X \<le> Y \<Longrightarrow> call_clause r Y"
  by (auto simp: call_clause_def intro: order_trans)

lemma op_inv_frame:
  assumes ts: "tsteps s s'" "thread_inv s"
    and h: "\<forall>x \<in> {LEpoch, LStarted, LFinished}. hist (mem s') x = hist (mem s) x"
    and cl: "counted_le s s'" and le: "X \<le> Y" and b: "bounded (mem s) X" "bounded (mem s') Y"
    and c: "op_inv D s r X"
  shows "op_inv D s' r Y"
proof -
  have st: "started s \<le> started s'"
    using h by (simp add: mval_def last_ix_def)
  have "counted (opc (ops s' q)) \<Longrightarrow> counted (opc (ops s q)) \<and> my_gp_counter (ops s' q) = my_gp_counter (ops s q) \<and>
        call_view (ops s' q) = call_view (ops s q)" for q
    using cl by (simp add: counted_le_def)
  then have "covers_clause s' r Y"
    using c h by (intro covers_clause_frame [OF _ st _ le]) (auto simp: op_inv_def)
  then show ?thesis
    using c h call_clause_frame [of r, OF _ le] counter_clause_frame [OF ts _ _ cl le]
      epoch_clause_frame [OF ts _ le b] done_clause_frame [OF ts le b(2)]
    by (simp add: op_inv_def)
qed

lemma freed_inv_frame:
  "tsteps s s' \<Longrightarrow> thread_inv s \<Longrightarrow> freed s' = freed s \<Longrightarrow> freed_inv s \<Longrightarrow> freed_inv s'"
  unfolding freed_inv_def by (fastforce intro: completed_tsteps)

end
