(* ===== verification/Gp_Steps.thy ===== *)
theory Gp_Steps
  imports Gp_Inv
begin

text \<open>Every step of the machine keeps the invariant of the futures.\<close>

lemma gp_invD:
  assumes "gp_inv D (s :: ('w::len, 'g::len) rcu)"
  shows "2 < LENGTH('w)" and "locks_inv s" and "op_inv D s (ops s q) (opview s q)"
    and "gp_mutex s = None \<Longrightarrow> epoch_ix s \<le> lv (mem s) LkMutex LEpoch \<and>
        settled D s (nepochs s - 1) (lv (mem s) LkMutex)"
    and "rst_writer s = None \<Longrightarrow> counters_ok s (lv (mem s) LkRstW)"
    and "freed_inv s" and "2 * D + 6 < 2 ^ LENGTH('w)"
proof -
  have "\<not> LENGTH('w) \<le> 2"
  proof
    assume "LENGTH('w) \<le> 2"
    then have "(2::nat) ^ LENGTH('w) \<le> 2 ^ 2"
      by (intro power_increasing) auto
    then show False
      using assms by (simp add: gp_inv_def)
  qed
  then show "2 < LENGTH('w)"
    by simp
qed (use assms in \<open>auto simp: gp_inv_def\<close>)

lemma counted_le_others:
  assumes "\<And>r. r \<noteq> q \<Longrightarrow> ops s' r = ops s r"
    and "counted (opc (ops s' q)) \<Longrightarrow> counted (opc (ops s q)) \<and>
      my_gp_counter (ops s' q) = my_gp_counter (ops s q) \<and> call_view (ops s' q) = call_view (ops s q)"
  shows "counted_le s s'"
proof -
  have "counted (opc (ops s' r)) \<longrightarrow> counted (opc (ops s r)) \<and>
     my_gp_counter (ops s' r) = my_gp_counter (ops s r) \<and> call_view (ops s' r) = call_view (ops s r)" for r
    using assms by (cases "r = q") auto
  then show ?thesis
    by (simp add: counted_le_def)
qed

text \<open>The general shape: one future changes, the epoch id and the counters do not.\<close>

lemma gp_inv_step:
  fixes s s' :: "('w::len, 'g::len) rcu"
  assumes gp: "gp_inv D s" and inv: "thread_inv s" and ts: "tsteps s s'"
    and h: "\<forall>x \<in> {LEpoch, LStarted, LFinished}. hist (mem s') x = hist (mem s) x"
    and oth: "\<And>r. r \<noteq> q \<Longrightarrow> ops s' r = ops s r"
    and cnt: "counted (opc (ops s' q)) \<Longrightarrow> counted (opc (ops s q)) \<and>
      my_gp_counter (ops s' q) = my_gp_counter (ops s q) \<and> call_view (ops s' q) = call_view (ops s q)"
    and locks: "locks_inv s'"
    and own: "counted_le s s' \<Longrightarrow> op_inv D s' (ops s' q) (opview s' q)"
    and mutex: "gp_mutex s' = None \<Longrightarrow> gp_mutex s = None \<or>
      epoch_ix s' \<le> lv (mem s') LkMutex LEpoch \<and> settled D s' (nepochs s' - 1) (lv (mem s') LkMutex)"
    and writer: "counted_le s s' \<Longrightarrow> rst_writer s' = None \<Longrightarrow> rst_writer s = None \<or> counters_ok s' (lv (mem s') LkRstW)"
    and fr: "freed_inv s'"
  shows "gp_inv D s'"
proof -
  note G = gp_invD [OF gp]
  note g = tsteps_grows [OF ts]
  have cl: "counted_le s s'"
    using oth cnt by (rule counted_le_others)
  have inv': "thread_inv s'"
    by (rule thread_inv_tsteps [OF ts inv])
  have hE: "hist (mem s') LEpoch = hist (mem s) LEpoch" and hS: "hist (mem s') LStarted = hist (mem s) LStarted"
    and hF: "hist (mem s') LFinished = hist (mem s) LFinished"
    using h by simp_all
  have lle: "lv (mem s) k \<le> lv (mem s') k" for k
    using growsD(3) [OF g] .
  have "op_inv D s' (ops s' r) (opview s' r)" for r
  proof (cases "r = q")
    case True
    with own cl show ?thesis
      by simp
  next
    case False
    have "opview s r \<le> opview s' r"
      by (rule opview_grows [OF g]) (simp add: oth [OF False])
    then have "op_inv D s' (ops s r) (opview s' r)"
      by (rule op_inv_frame [OF ts inv h cl _ _ _ G(3)]) (intro opview_bounded inv inv')+
    then show ?thesis
      by (simp add: oth [OF False])
  qed
  moreover have "epoch_ix s' \<le> lv (mem s') LkMutex LEpoch \<and> settled D s' (nepochs s' - 1) (lv (mem s') LkMutex)"
    if nm: "gp_mutex s' = None"
  proof (cases "gp_mutex s = None")
    case True
    with G(4) have o: "epoch_ix s \<le> lv (mem s) LkMutex LEpoch" "settled D s (nepochs s - 1) (lv (mem s) LkMutex)"
      by simp_all
    have "epoch_ix s \<le> lv (mem s') LkMutex LEpoch"
      using o(1) le_funD [OF lle] by (rule order_trans)
    moreover have "settled D s' (nepochs s - 1) (lv (mem s') LkMutex)"
      using settled_mono [OF settled_tsteps [OF ts inv o(2)] lle] .
    ultimately show ?thesis
      by (simp add: epoch_same [OF hE] hE)
  next
    case False
    then show ?thesis
      using mutex [OF nm] by (elim disjE) simp_all
  qed
  moreover have "counters_ok s' (lv (mem s') LkRstW)" if nw: "rst_writer s' = None"
  proof (cases "rst_writer s = None")
    case True
    then show ?thesis
      using counters_ok_frame [OF ts inv hS hF cl lle] G(5) by blast
  next
    case False
    then show ?thesis
      using writer [OF cl nw] by (elim disjE) simp_all
  qed
  ultimately show ?thesis
    using gp locks fr by (simp add: gp_inv_def)
qed

subsection \<open>Hooks and user code\<close>

lemma gp_inv_hook_steps:
  assumes gp: "gp_inv D s" and inv: "thread_inv s" and st: "hook_steps s s'"
  shows "gp_inv D s'"
proof (rule gp_inv_step [OF gp inv, of _ undefined])
  have f: "gp_frame s s'" and ts: "tsteps s s'"
    using st by (simp_all add: hook_steps_def)
  show "tsteps s s'"
    by fact
  show h: "\<forall>x \<in> {LEpoch, LStarted, LFinished}. hist (mem s') x = hist (mem s) x"
    using f by (simp add: gp_frame_def)
  have o: "ops s' = ops s"
    using f by (simp add: gp_frame_def)
  show "op_inv D s' (ops s' q) (opview s' q)" if "counted_le s s'" for q
    unfolding o
  proof (rule op_inv_frame [OF ts inv h that _ _ _ gp_invD(3) [OF gp]])
    show "opview s q \<le> opview s' q"
      by (rule opview_grows [OF tsteps_grows [OF ts]]) (simp add: o)
  qed (intro opview_bounded inv thread_inv_tsteps [OF ts])+
  show "freed_inv s'"
    using freed_inv_frame [OF ts inv _ gp_invD(6) [OF gp]] f by (simp add: gp_frame_def)
  show "locks_inv s'"
    using f gp_invD(2) [OF gp] by (simp add: gp_frame_def locks_inv_def)
  show "gp_mutex s' = None \<Longrightarrow> gp_mutex s = None \<or>
      epoch_ix s' \<le> lv (mem s') LkMutex LEpoch \<and> settled D s' (nepochs s' - 1) (lv (mem s') LkMutex)"
    and "rst_writer s' = None \<Longrightarrow> rst_writer s = None \<or> counters_ok s' (lv (mem s') LkRstW)"
    using f by (simp_all add: gp_frame_def)
qed (use st in \<open>auto simp: hook_steps_def gp_frame_def\<close>)

subsection \<open>Futures that start, end, or move between threads\<close>

lemma attached_upd [simp]:
  "own_id s (r\<lparr>attached := a\<rparr>) X = own_id s r X" "covers s (r\<lparr>attached := a\<rparr>) X = covers s r X"
  "op_done s (r\<lparr>attached := a\<rparr>) X = op_done s r X"
  by (simp_all add: own_id_def covers_def op_done_def)

lemma op_inv_attached:
  assumes "op_inv D s r X" and "opc r \<noteq> OFinFence"
  shows "op_inv D s (r\<lparr>attached := a\<rparr>) X"
  using assms by (simp add: op_inv_defs)

lemma gp_inv_task:
  assumes gp: "gp_inv D s" and inv: "thread_inv s" and tf: "task_frame q s s'"
    and opc: "opc (ops s' q) = opc (ops s q) \<or> \<not> reader (opc (ops s' q)) \<and> \<not> resetting (opc (ops s' q)) \<and>
      \<not> reader (opc (ops s q)) \<and> \<not> resetting (opc (ops s q))"
    and my: "my_gp_counter (ops s' q) = my_gp_counter (ops s q)"
    and cv: "opc (ops s' q) = opc (ops s q) \<Longrightarrow> call_view (ops s' q) = call_view (ops s q)"
    and own: "counted_le s s' \<Longrightarrow> op_inv D s' (ops s' q) (opview s' q)"
    and fr: "freed_inv s'"
  shows "gp_inv D s'"
proof (rule gp_inv_step [OF gp inv, of _ q])
  show "tsteps s s'"
    using tf by (simp add: task_frame_def tstep_quiet)
  show "counted (opc (ops s q)) \<and> my_gp_counter (ops s' q) = my_gp_counter (ops s q) \<and>
      call_view (ops s' q) = call_view (ops s q)" if "counted (opc (ops s' q))"
    using opc my cv that pos_rules(4) by auto
  have "holder (opc (ops s' r)) = holder (opc (ops s r)) \<and> reader (opc (ops s' r)) = reader (opc (ops s r)) \<and>
      resetting (opc (ops s' r)) = resetting (opc (ops s r))" for r
    using opc tf pos_rules(3) by (cases "r = q") (auto simp: task_frame_def)
  then show "locks_inv s'"
    using gp_invD(2) [OF gp] tf by (simp add: locks_inv_def task_frame_def)
qed (use tf own fr in \<open>auto simp: task_frame_def\<close>)

lemma gp_inv_wait_call:
  assumes gp: "gp_inv D s" and inv: "thread_inv s" and st: "wait_call q t vs s = Some s'"
  shows "gp_inv D s'"
proof (rule gp_inv_task [OF gp inv task_frame_wait_call [OF inv st]])
  have g: "opc (ops s q) = ONone" "\<forall>(b, ts) \<in> vs. ts < cur (mem s) t (LPtr b)"
    and s': "ops s' q = (ops s q)\<lparr>opc := OReadLock, attached := Some t, olds := vs, call_view := cur (mem s) t\<rparr>"
      "mem s' = mem s" "freed s' = freed s"
    using st by (auto simp: wait_call_def split: if_splits)
  show "op_inv D s' (ops s' q) (opview s' q)"
    using g(2) by (simp add: op_inv_defs zeroed_def opview_def s')
  show "freed_inv s'"
    using freed_inv_frame [OF _ inv s'(3) gp_invD(6) [OF gp]] task_frame_wait_call [OF inv st]
    by (simp add: task_frame_def tstep_quiet)
qed (use st in \<open>auto simp: wait_call_def split: if_splits\<close>)

lemma gp_inv_wait_return:
  assumes gp: "gp_inv D s" and inv: "thread_inv s" and st: "wait_return q t s = Some s'"
  shows "gp_inv D s'"
proof (rule gp_inv_task [OF gp inv task_frame_wait_return [OF inv st]])
  have g: "opc (ops s q) = OReturned"
    and s': "ops s' q = (ops s q)\<lparr>opc := OFinished, attached := None\<rparr>"
      "freed s' = freed s \<union> olds (ops s q)"
    using st by (auto simp: wait_return_def split: if_splits)
  show "op_inv D s' (ops s' q) (opview s' q)"
    by (simp add: op_inv_defs zeroed_def s')
  have ts: "tsteps s s'"
    using task_frame_wait_return [OF inv st] by (simp add: task_frame_def tstep_quiet)
  note O = gp_invD(3) [OF gp, of q, unfolded op_inv_defs]
  obtain V i where V: "call_view (ops s q) \<le> V" "completed s V i (opview s q)"
    using O g by (auto simp: op_done_def)
  have "ts < V (LPtr b)" if "(b, ts) \<in> olds (ops s q)" for b ts
  proof -
    have "ts < call_view (ops s q) (LPtr b)"
      using O that g by auto
    then show ?thesis
      using le_funD [OF V(1)] by (rule order_less_le_trans)
  qed
  with completed_tsteps [OF ts inv] V(2) have "\<exists>V i X. ts < V (LPtr b) \<and> completed s' V i X"
    if "(b, ts) \<in> olds (ops s q)" for b ts
    using that by blast
  moreover have "\<exists>V i X. ts < V (LPtr b) \<and> completed s' V i X" if "(b, ts) \<in> freed s" for b ts
    using gp_invD(6) [OF gp] that completed_tsteps [OF ts inv] unfolding freed_inv_def by blast
  ultimately show "freed_inv s'"
    by (auto simp: freed_inv_def s')
qed (use st in \<open>auto simp: wait_return_def split: if_splits\<close>)

lemma gp_inv_move:
  assumes gp: "gp_inv D s" and inv: "thread_inv s" and tf: "task_frame q s s'"
    and ops: "ops s' q = (ops s q)\<lparr>attached := a\<rparr>" and fr: "freed s' = freed s"
    and v: "opview s q \<le> opview s' q" and p: "await_point (opc (ops s q))"
  shows "gp_inv D s'"
proof (rule gp_inv_task [OF gp inv tf])
  have ts: "tsteps s s'"
    using tf by (simp add: task_frame_def tstep_quiet)
  have h: "\<forall>x \<in> {LEpoch, LStarted, LFinished}. hist (mem s') x = hist (mem s) x"
    using tf by (simp add: task_frame_def)
  show "op_inv D s' (ops s' q) (opview s' q)" if "counted_le s s'"
    unfolding ops
    by (rule op_inv_attached [OF op_inv_frame [OF ts inv h that v _ _ gp_invD(3) [OF gp]]])
      (use p in \<open>auto simp: await_point_def intro: opview_bounded inv thread_inv_tsteps ts\<close>)
  show "freed_inv s'"
    by (rule freed_inv_frame [OF ts inv fr gp_invD(6) [OF gp]])
qed (simp_all add: ops)

lemma gp_inv_suspend:
  assumes gp: "gp_inv D s" and inv: "thread_inv s" and st: "suspend q t s = Some s'"
  shows "gp_inv D s'"
  by (rule gp_inv_move [OF gp inv task_frame_suspend [OF inv st], of None])
    (use st in \<open>auto simp: suspend_def opview_def view_simps split: if_splits\<close>)

lemma gp_inv_resume:
  assumes gp: "gp_inv D s" and inv: "thread_inv s" and st: "resume q t s = Some s'"
  shows "gp_inv D s'"
  by (rule gp_inv_move [OF gp inv task_frame_resume [OF inv st], of "Some t"])
    (use st in \<open>auto simp: resume_def opview_def view_simps split: if_splits\<close>)

end
