(* ===== verification/Gp_Wait.thy ===== *)
theory Gp_Wait
  imports Gp_Steps
begin

text \<open>The wait of the futures keeps their invariant: the scan of the slots establishes that the grace period is over.\<close>

subsection \<open>Steps of a future that write no counter and no epoch id\<close>

lemma quiet_poll:
  fixes s s' :: "('w::len, 'g::len) rcu"
  assumes gp: "gp_inv D s" and inv: "thread_inv s" and st: "poll_op q t i wk s = Some s'"
  shows "quiet s s'"
proof (rule quiet_poll_op [OF inv st gp_invD(1) [OF gp]])
  fix e
  assume p: "opc (ops s q) = OSetEpoch e"
  then have e: "epoch_at s (nepochs s - 1) = e" "e \<noteq> EPOCH_ID_MAX"
    using gp_invD(3) [OF gp, of q] by (auto simp: op_inv_defs epochs_ok_def)
  have "nepochs s - 1 < nepochs s"
    using nonempty(1) [OF inv] by simp
  then have "valid_epoch e"
    using thread_invD(4) [OF inv] e(1) unfolding inv_epochs_def by blast
  moreover have "e + 2 \<noteq> 0"
    using e(2) by (auto simp: EPOCH_ID_MAX_def eq_neg_iff_add_eq_0)
  ultimately show "valid_epoch (e + 2)"
    by (simp add: valid_epoch_def)
qed

lemma gp_inv_poll:
  fixes s s' :: "('w::len, 'g::len) rcu"
  assumes gp: "gp_inv D s" and inv: "thread_inv s" and st: "poll_op q t i wk s = Some s'"
    and h: "\<forall>x \<in> {LEpoch, LStarted, LFinished}. hist (mem s') x = hist (mem s) x"
    and cnt: "counted (opc (ops s' q)) \<Longrightarrow> counted (opc (ops s q)) \<and>
      my_gp_counter (ops s' q) = my_gp_counter (ops s q)"
    and locks: "locks_inv s'"
    and own: "thread_inv s' \<Longrightarrow> op_inv D s' (ops s q) (cur (mem s') t) \<Longrightarrow> counted_le s s' \<Longrightarrow>
      op_inv D s' (ops s' q) (cur (mem s') t)"
    and mutex: "gp_mutex s' = None \<Longrightarrow> gp_mutex s = None \<or>
      epoch_ix s' \<le> lv (mem s') LkMutex LEpoch \<and> settled D s' (nepochs s' - 1) (lv (mem s') LkMutex)"
    and writer: "counted_le s s' \<Longrightarrow> rst_writer s' = None \<Longrightarrow> rst_writer s = None \<or> counters_ok s' (lv (mem s') LkRstW)"
  shows "gp_inv D s'"
proof (rule gp_inv_step [OF gp inv _ h _ _ locks _ mutex writer])
  note f = poll_op_frame [OF inv st, unfolded op_frame_def]
  show ts: "tsteps s s'"
    by (rule tstep_quiet [OF quiet_poll [OF gp inv st]])
  show "ops s' r = ops s r" if "r \<noteq> q" for r
    using f that by simp
  show "counted (opc (ops s q)) \<and> my_gp_counter (ops s' q) = my_gp_counter (ops s q) \<and>
      call_view (ops s' q) = call_view (ops s q)" if "counted (opc (ops s' q))"
    using cnt [OF that] f by simp
  show "freed_inv s'"
    using freed_inv_frame [OF ts inv _ gp_invD(6) [OF gp]] f by simp
  have inv': "thread_inv s'"
    by (rule thread_inv_tsteps [OF ts inv])
  have at: "attached (ops s q) = Some t" "attached (ops s' q) = Some t"
    using poll_op_guard(1) [OF st] f by simp_all
  then have v: "opview s q = cur (mem s) t" "opview s' q = cur (mem s') t"
    by (simp_all add: opview_def)
  show "op_inv D s' (ops s' q) (opview s' q)" if cl: "counted_le s s'"
    unfolding v
  proof (rule own [OF inv' _ cl])
    show "op_inv D s' (ops s q) (cur (mem s') t)"
      by (rule op_inv_frame [OF ts inv h cl _ _ _ gp_invD(3) [OF gp, of q, unfolded v]])
        (use growsD(1) [OF tsteps_grows [OF ts]] wf_memD(4) thread_invD(1) inv inv' in auto)
  qed
qed

text \<open>The positions of the future decide the locks.\<close>

lemma locks_inv_same:
  assumes l: "locks_inv s" and oth: "\<And>r. r \<noteq> q \<Longrightarrow> ops s' r = ops s r"
    and same: "gp_mutex s' = gp_mutex s" "rst_readers s' = rst_readers s" "rst_writer s' = rst_writer s"
    and p: "holder (opc (ops s' q)) = holder (opc (ops s q))" "reader (opc (ops s' q)) = reader (opc (ops s q))"
      "resetting (opc (ops s' q)) = resetting (opc (ops s q))"
  shows "locks_inv s'"
proof -
  have "holder (opc (ops s' r)) = holder (opc (ops s r)) \<and> reader (opc (ops s' r)) = reader (opc (ops s r)) \<and>
      resetting (opc (ops s' r)) = resetting (opc (ops s r))" for r
    using oth p by (cases "r = q") auto
  then show ?thesis
    using l by (simp add: locks_inv_def same)
qed

subsection \<open>The steps of the wait that decide nothing\<close>

lemma waiting_pos:
  assumes "waiting p"
  shows "serial p" "holder p" "counted p" "reader p" "live p" "\<not> resetting p"
    "p \<noteq> OLdrZeroFinished" "p \<noteq> OLdrUnlock" "p \<noteq> OPub" "p \<noteq> OUnlock" "p \<noteq> ORstDrop" "p \<noteq> OReturned" "p \<noteq> OFinFence"
    "p \<noteq> OSetAfterReset"
  using assms by (cases p; simp)+

lemma waiting_epochs: "waiting p \<Longrightarrow> epochs_ok s p w = wait_epochs s w"
  by (cases p) (simp_all add: epochs_ok_def)

lemma op_inv_waiting:
  assumes "waiting (opc r)"
  shows "op_inv D s r X \<longleftrightarrow>
     call_clause r X \<and> counters_ok s X \<and> own_id s r X \<and> covers s r X \<and>
     (real_wait (wait_for r) \<longrightarrow> covers s r (eview s (epoch_ix s)) \<and> eview s (epoch_ix s) \<le> X \<and>
        scan_clause s (opc r) (scan_pos r) (scan_len r) X) \<and>
     epoch_ix s \<le> X LEpoch \<and> settled D s (nepochs s - wait_base (wait_for r)) X \<and> wait_epochs s (wait_for r)"
  using assms waiting_pos [OF assms] by (auto simp: op_inv_defs zeroed_def waiting_epochs base_ix_def)

definition same_vars :: "('e, 'g) oper \<Rightarrow> ('e, 'g) oper \<Rightarrow> bool" where
  "same_vars r r' \<longleftrightarrow> call_view r' = call_view r \<and> olds r' = olds r \<and> my_gp_counter r' = my_gp_counter r \<and>
     gp_started_counter r' = gp_started_counter r \<and> wait_for r' = wait_for r \<and> attached r' = attached r"

lemma op_inv_wait_move:
  assumes w: "waiting (opc r)" "waiting (opc r')" and v: "same_vars r r'" and o: "op_inv D s r X"
    and sc: "real_wait (wait_for r) \<Longrightarrow> scan_clause s (opc r) (scan_pos r) (scan_len r) X \<Longrightarrow>
      scan_clause s (opc r') (scan_pos r') (scan_len r') X"
  shows "op_inv D s r' X"
  using o sc waiting_pos(5) [OF w(1)] waiting_pos(5) [OF w(2)] v
  unfolding op_inv_waiting [OF w(1)] op_inv_waiting [OF w(2)]
  by (auto simp: call_clause_def own_id_def covers_def same_vars_def)

lemma gp_inv_wait_move:
  assumes gp: "gp_inv D s" and inv: "thread_inv s" and st: "poll_op q t i wk s = Some s'"
    and h: "\<forall>x \<in> {LEpoch, LStarted, LFinished}. hist (mem s') x = hist (mem s) x"
    and same: "gp_mutex s' = gp_mutex s" "rst_readers s' = rst_readers s" "rst_writer s' = rst_writer s"
    and w: "waiting (opc (ops s q))" "waiting (opc (ops s' q))" and v: "same_vars (ops s q) (ops s' q)"
    and sc: "thread_inv s' \<Longrightarrow> op_inv D s' (ops s q) (cur (mem s') t) \<Longrightarrow> real_wait (wait_for (ops s q)) \<Longrightarrow>
      scan_clause s' (opc (ops s q)) (scan_pos (ops s q)) (scan_len (ops s q)) (cur (mem s') t) \<Longrightarrow>
      scan_clause s' (opc (ops s' q)) (scan_pos (ops s' q)) (scan_len (ops s' q)) (cur (mem s') t)"
  shows "gp_inv D s'"
proof (rule gp_inv_poll [OF gp inv st h])
  show "locks_inv s'"
    by (rule locks_inv_same [OF gp_invD(2) [OF gp] _ same])
      (use poll_op_frame [OF inv st] waiting_pos [OF w(1)] waiting_pos [OF w(2)] in \<open>auto simp: op_frame_def\<close>)
  show "op_inv D s' (ops s' q) (cur (mem s') t)" if "thread_inv s'" "op_inv D s' (ops s q) (cur (mem s') t)"
    using op_inv_wait_move [OF w v that(2)] sc [OF that] by blast
qed (use same waiting_pos [OF w(1)] v in \<open>auto simp: same_vars_def\<close>)

lemma waiting_poll:
  assumes st: "poll_op q t i wk s = Some s'" and w: "waiting (opc (ops s q))"
  shows "wait_for_running_threads_to_see_epoch_id (opc (ops s q)) q t i wk s = Some s'"
  using st
  by (cases rule: poll_op_cases) (use w in \<open>cases "opc (ops s q)"; simp\<close>)+

lemma gp_inv_wait_easy:
  assumes gp: "gp_inv D s" and inv: "thread_inv s" and st: "poll_op q t i wk s = Some s'"
    and p: "opc (ops s q) \<in> {OSub, OSnap, OTid, OPoll1, OReady, OReg, OPoll2, OPend} \<union> range OScanEnd \<union>
      range ODrop \<union> {ODropInfo False} \<union> {ORegW a b | a b. True}"
  shows "gp_inv D s'"
proof -
  have w: "waiting (opc (ops s q))"
    using p by (auto)
  note W = waiting_poll [OF st w]
  have h: "\<forall>x \<in> {LEpoch, LStarted, LFinished}. hist (mem s') x = hist (mem s) x"
    and g: "gp_mutex s' = gp_mutex s" "rst_readers s' = rst_readers s" "rst_writer s' = rst_writer s"
    and v: "same_vars (ops s q) (ops s' q)" and w': "waiting (opc (ops s' q))"
    and sc: "\<And>X. scan_clause s' (opc (ops s q)) (scan_pos (ops s q)) (scan_len (ops s q)) X \<Longrightarrow>
      scan_clause s' (opc (ops s' q)) (scan_pos (ops s' q)) (scan_len (ops s' q)) X"
    using p W
    by (auto simp: op_defs view_simps Let_def same_vars_def scan_clause_def
      split: if_splits option.splits)
  show ?thesis
    by (rule gp_inv_wait_move [OF gp inv st h g w w' v sc])
qed

subsection \<open>The fence and the scan\<close>

lemma gp_inv_wait_fence:
  assumes gp: "gp_inv D s" and inv: "thread_inv s" and st: "poll_op q t i wk s = Some s'"
    and p: "opc (ops s q) = OFence"
  shows "gp_inv D s'"
proof -
  have w: "waiting (opc (ops s q))"
    by (simp add: p)
  have s': "s' = set_opc q OTid (on_mem (fence_sc t) s)"
    using waiting_poll [OF st w] p by simp
  note O = gp_invD(3) [OF gp, of q, unfolded op_inv_waiting [OF w]]
  have X: "opview s q = cur (mem s) t"
    using poll_op_guard(1) [OF st] by (simp add: opview_def)
  have hE: "hist (mem s') LEpoch = hist (mem s) LEpoch"
    by (simp add: s' view_simps)
  have sc: "scv (mem s') = cur (mem s') t" "cur (mem s) t \<le> scv (mem s')"
    using wf_memD(2) [OF thread_invD(1) [OF inv], of t] by (auto simp: s' view_simps intro: le_supI2)
  show ?thesis
  proof (rule gp_inv_wait_move [OF gp inv st])
    assume inv': "thread_inv s'" and r: "real_wait (wait_for (ops s q))"
    have "eview s (epoch_ix s) \<le> cur (mem s) t" "epoch_ix s \<le> cur (mem s) t LEpoch"
      using O r X by simp_all
    then have "eview s' (epoch_ix s') \<le> scv (mem s')" "epoch_ix s' \<le> scv (mem s') LEpoch"
      using sc(2) unfolding epoch_same [OF hE] by (auto intro: order_trans dest: le_funD)
    then have "fenced s' (cur (mem s') t)"
      using fence_ok_start [OF inv', of "cur (mem s') t"] sc(1) by (simp add: fenced_def)
    then show "scan_clause s' (opc (ops s' q)) (scan_pos (ops s' q)) (scan_len (ops s' q)) (cur (mem s') t)"
      by (simp add: s' scan_clause_def)
  qed (simp_all add: s' view_simps p same_vars_def)
qed

text \<open>Only the last epoch message satisfies the predicate.\<close>

lemma max_not_min_plus:
  assumes "2 < LENGTH('w::len)"
  shows "(EPOCH_ID_MAX :: 'w word) \<noteq> EPOCH_ID_MIN + 2" and "(EPOCH_ID_MIN :: 'w word) \<noteq> EPOCH_ID_MIN + 2"
proof -
  have "(2::nat) ^ 3 \<le> 2 ^ LENGTH('w)"
    using assms by (intro power_increasing) auto
  then have "unat (2 :: 'w word) = 2" "unat (6 :: 'w word) = 6"
    using assms by (simp_all add: take_bit_nat_eq_self)
  then have "(2 :: 'w word) \<noteq> 0" "(6 :: 'w word) \<noteq> 0"
    by (metis unat_0 zero_neq_numeral)+
  then show "(EPOCH_ID_MAX :: 'w word) \<noteq> EPOCH_ID_MIN + 2" and "(EPOCH_ID_MIN :: 'w word) \<noteq> EPOCH_ID_MIN + 2"
    by (simp_all add: EPOCH_ID_MAX_def EPOCH_ID_MIN_def eq_neg_iff_add_eq_0)
qed

lemma plus_two_greater:
  fixes e :: "'w::len word"
  assumes "valid_epoch e" and "e \<noteq> EPOCH_ID_MAX" and "1 < LENGTH('w)"
  shows "e < e + 2"
proof -
  have two: "unat (2 :: 'w word) = 2"
  proof -
    have "(2::nat) ^ 2 \<le> 2 ^ LENGTH('w)"
      using assms(3) by (intro power_increasing) auto
    with assms(3) show ?thesis
      by (simp add: take_bit_nat_eq_self)
  qed
  have "bit (unat e) 0 \<longleftrightarrow> bit e 0"
    unfolding bit_unsigned_iff by (auto simp: possible_bit_def bit_imp_le_length)
  then have ev: "even (unat e)"
    using assms(1) by (simp add: valid_epoch_def bit_0)
  have lt: "unat e < 2 ^ LENGTH('w)"
    by simp
  have "unat e \<noteq> 2 ^ LENGTH('w) - 2"
  proof
    assume "unat e = 2 ^ LENGTH('w) - 2"
    moreover have "(2::nat) ^ 1 \<le> 2 ^ LENGTH('w)"
      using assms(3) by (intro power_increasing) auto
    ultimately have "unat e + unat (2 :: 'w word) = 2 ^ LENGTH('w)"
      unfolding two by simp
    then have "unat (e + 2) = 0"
      by (simp add: unat_word_ariths(1))
    then have "e + 2 = 0"
      by (simp add: unat_eq_0)
    with assms(2) show False
      by (simp add: EPOCH_ID_MAX_def eq_neg_iff_add_eq_0)
  qed
  moreover have "even ((2::nat) ^ LENGTH('w))"
    by simp
  ultimately have "unat e + 2 < 2 ^ LENGTH('w)"
    using ev lt by presburger
  then have "unat (e + 2) = unat e + 2"
    using unat_add_lem [of e 2] unfolding two by blast
  then show ?thesis
    by (simp add: word_less_nat_alt)
qed

text \<open>The ids between two settled messages.\<close>

lemma rising_ids:
  fixes s :: "('w::len, 'g::len) rcu"
  assumes inv: "thread_inv s" and len: "2 < LENGTH('w)" and n: "n < nepochs s"
    and up: "\<And>j. b \<le> j \<Longrightarrow> j < n \<Longrightarrow> epoch_at s j \<noteq> EPOCH_ID_MAX \<and> epoch_at s (Suc j) = epoch_at s j + 2"
    and j: "b \<le> j" "j \<le> n"
  shows "epoch_at s j + of_nat (2 * (n - j)) = epoch_at s n" and "epoch_at s j \<le> epoch_at s n"
proof -
  have "epoch_at s (n - k) + of_nat (2 * k) = epoch_at s n \<and> epoch_at s (n - k) \<le> epoch_at s n" if "b + k \<le> n" for k
    using that
  proof (induction k)
    case (Suc k)
    let ?e = "epoch_at s (n - Suc k)"
    have j: "n - k = Suc (n - Suc k)" "n - Suc k < nepochs s"
      using Suc.prems n by simp_all
    have u: "?e \<noteq> EPOCH_ID_MAX" "epoch_at s (n - k) = ?e + 2"
      using up [of "n - Suc k"] Suc.prems by (simp_all add: j(1))
    have "valid_epoch ?e"
      using thread_invD(4) [OF inv] j(2) unfolding inv_epochs_def by blast
    then have "?e < ?e + 2"
      using plus_two_greater [of ?e] u(1) len by simp
    moreover have "?e + 2 + of_nat (2 * k) = epoch_at s n" "?e + 2 \<le> epoch_at s n"
      using Suc.IH Suc.prems u(2) by simp_all
    ultimately show ?case
      by (simp add: algebra_simps)
  qed simp
  from this [of "n - j"] j show "epoch_at s j + of_nat (2 * (n - j)) = epoch_at s n" and "epoch_at s j \<le> epoch_at s n"
    by simp_all
qed

lemma settled_last:
  fixes s :: "('w::len, 'g::len) rcu"
  assumes inv: "thread_inv s" and D: "2 * D + 6 < 2 ^ LENGTH('w)" and len: "2 < LENGTH('w)"
    and w: "wait_epochs s w" "real_wait w" and se: "settled D s (nepochs s - wait_base w) X"
  obtains b where "base s b X"
    and "\<And>j. b \<le> j \<Longrightarrow> j < nepochs s \<Longrightarrow> last_seen_epoch_id_predicate w (epoch_at s j) \<Longrightarrow> j = epoch_ix s"
proof -
  let ?n = "nepochs s - wait_base w"
  obtain b where n: "?n < nepochs s" and b: "?n \<le> b + D" "base s b X"
      and up: "\<And>j. b \<le> j \<Longrightarrow> j < ?n \<Longrightarrow> epoch_at s j \<noteq> EPOCH_ID_MAX \<and> epoch_at s (Suc j) = epoch_at s j + 2"
    using se unfolding settled_def by blast
  have ids: "epoch_at s j + of_nat (2 * (?n - j)) = epoch_at s ?n" "epoch_at s j \<le> epoch_at s ?n" if "b \<le> j" "j \<le> ?n" for j
    using rising_ids [OF inv len n _ that] up by simp_all
  have "j = epoch_ix s" if j: "b \<le> j" "j < nepochs s" and p: "last_seen_epoch_id_predicate w (epoch_at s j)" for j
  proof (rule ccontr)
    assume ne: "j \<noteq> epoch_ix s"
    show False
    proof (cases w)
      case (WNoOverflow v)
      then have e: "2 \<le> nepochs s" "epoch_at s ?n \<noteq> EPOCH_ID_MAX" "v = epoch_at s ?n + 2"
        using w(1) by simp_all
      have le: "j \<le> ?n"
        using j ne WNoOverflow by (auto simp: last_ix_def)
      then have "epoch_at s j \<le> epoch_at s ?n"
        using ids(2) [OF j(1)] by simp
      moreover have "valid_epoch (epoch_at s ?n)"
        using thread_invD(4) [OF inv] n unfolding inv_epochs_def by blast
      then have "epoch_at s ?n < v"
        using plus_two_greater [of "epoch_at s ?n"] e len by simp
      ultimately show False
        using p WNoOverflow by simp
    next
      case WAfterReset
      then have e: "3 \<le> nepochs s" "epoch_at s ?n = EPOCH_ID_MAX" "epoch_at s (nepochs s - 2) = EPOCH_ID_MIN"
        "epoch_at s j = EPOCH_ID_MIN + 2"
        using w(1) p by simp_all
      then have "j \<noteq> nepochs s - 2"
        using max_not_min_plus(2) [OF len] by auto
      then have le: "j \<le> ?n"
        using j ne e(1) WAfterReset by (auto simp: last_ix_def)
      have "EPOCH_ID_MIN + 2 + of_nat (2 * (?n - j)) = (EPOCH_ID_MAX :: 'w word)"
        using ids(1) [OF j(1) le] e(2,4) by simp
      then have "of_nat (2 * (?n - j) + 6) = (0 :: 'w word)"
        by (simp add: EPOCH_ID_MIN_def EPOCH_ID_MAX_def eq_neg_iff_add_eq_0 algebra_simps)
      then have "2 ^ LENGTH('w) dvd 2 * (?n - j) + 6"
        by (simp only: word_of_nat_eq_0_iff)
      then have "2 ^ LENGTH('w) \<le> 2 * (?n - j) + 6"
        by (rule dvd_imp_le) simp
      then show False
        using D b(1) j(1) by linarith
    qed (use w(2) in simp)
  qed
  with b(2) show ?thesis
    using that by blast
qed

lemma wait_predicate_zero:
  fixes s :: "('w::len, 'g::len) rcu"
  assumes inv: "thread_inv s" and len: "2 < LENGTH('w)" and w: "wait_epochs s w" "real_wait w"
  shows "\<not> last_seen_epoch_id_predicate w 0"
proof (cases w)
  case (WNoOverflow v)
  have "epoch_ix s < nepochs s"
    using nonempty(1) [OF inv] by (simp add: last_ix_def)
  then have "valid_epoch v"
    using thread_invD(4) [OF inv] w(1) WNoOverflow unfolding inv_epochs_def last_ix_def by auto
  then show ?thesis
    using WNoOverflow by (auto simp: valid_epoch_def)
next
  case WAfterReset
  then show ?thesis
    using valid_epoch_min(2) [OF len] by (simp add: valid_epoch_def)
qed (use w(2) in simp)

lemma gp_inv_scan_begin:
  assumes gp: "gp_inv D s" and inv: "thread_inv s" and st: "poll_op q t i wk s = Some s'"
    and p: "opc (ops s q) = OScanBegin"
  shows "gp_inv D s'"
proof -
  have w: "waiting (opc (ops s q))"
    by (simp add: p)
  let ?m1 = "lk_acq t LkCurW (mem s)"
  have rd: "cur ?m1 t LLen \<le> i" "i < length (hist (mem s) LLen)"
    and s': "s' = upd_op q (\<lambda>r. r\<lparr>opc := OScan, scan_pos := 0, scan_len := val_len (mval (mem s) LLen i)\<rparr>)
        (on_mem (\<lambda>m. load Acquire t LLen i (lk_acq t LkCurW m)) s)"
    using waiting_poll [OF st w] p
    by (auto simp: begin_scan_def readable_def Let_def view_simps mval_def on_mem_def split: if_splits)
  have len: "val_len (mval (mem s) LLen i) = i"
    using thread_invD(2) [OF inv] rd(2) by (simp add: inv_len_def)
  have "mview (mem s) LLen i LLen \<le> i"
    using wf_memD(9) [OF thread_invD(1) [OF inv] rd(2)] .
  moreover have "mview ?m1 LLen i = mview (mem s) LLen i"
    by (simp add: mview_def view_simps)
  ultimately have Y: "cur (mem s') t LLen \<le> i"
    using rd(1) by (simp add: s' view_simps)
  show ?thesis
  proof (rule gp_inv_wait_move [OF gp inv st])
    assume inv': "thread_inv s'"
      and sc: "scan_clause s' (opc (ops s q)) (scan_pos (ops s q)) (scan_len (ops s q)) (cur (mem s') t)"
    then have f: "fenced s' (cur (mem s') t)"
      by (simp add: scan_clause_def p)
    have "scanned s' (cur (mem s') t) sl" if "i \<le> sl" for sl
      using f that Y scan_past [OF inv', of _ _ "cur (mem s') t" sl] by (auto simp: scanned_def fenced_def)
    with f show "scan_clause s' (opc (ops s' q)) (scan_pos (ops s' q)) (scan_len (ops s' q)) (cur (mem s') t)"
      by (simp add: scan_clause_def s' len)
  qed (simp_all add: s' view_simps p same_vars_def)
qed

lemma gp_inv_scan:
  fixes s s' :: "('w::len, 'g::len) rcu"
  assumes gp: "gp_inv D s" and inv: "thread_inv s" and st: "poll_op q t i wk s = Some s'"
    and p: "opc (ops s q) = OScan"
  shows "gp_inv D s'"
proof -
  have w: "waiting (opc (ops s q))"
    by (simp add: p)
  let ?r = "ops s q"
  let ?Y = "cur (mem s') t"
  have sl: "scan_slot q t i s = Some s'"
    using waiting_poll [OF st w] p by simp
  then have h: "\<forall>x \<in> {LEpoch, LStarted, LFinished}. hist (mem s') x = hist (mem s) x"
    and g: "gp_mutex s' = gp_mutex s" "rst_readers s' = rst_readers s" "rst_writer s' = rst_writer s"
    and v: "same_vars ?r (ops s' q)" and w': "waiting (opc (ops s' q))"
    by (auto simp: scan_slot_def Let_def view_simps same_vars_def p split: if_splits)
  show ?thesis
  proof (rule gp_inv_wait_move [OF gp inv st h g w w' v])
    assume inv': "thread_inv s'" and O: "op_inv D s' ?r ?Y" and r: "real_wait (wait_for ?r)"
      and sc: "scan_clause s' (opc ?r) (scan_pos ?r) (scan_len ?r) ?Y"
    note O = O [unfolded op_inv_waiting [OF w]]
    have f: "fenced s' ?Y" and d: "\<And>sl. sl < scan_pos ?r \<or> scan_len ?r \<le> sl \<Longrightarrow> scanned s' ?Y sl"
      using sc by (auto simp: scan_clause_def p)
    consider (fin) "scan_len ?r \<le> scan_pos ?r" "opc (ops s' q) = OScanEnd True"
      | (more) "scan_pos ?r < scan_len ?r" "opc (ops s' q) = OScan" "scan_pos (ops s' q) = Suc (scan_pos ?r)"
          "scan_len (ops s' q) = scan_len ?r" "slot_ok (wait_for ?r) (word_at s (scan_pos ?r) i)"
          "readable t (LSlot (scan_pos ?r)) i (mem s)" "mem s' = load Acquire t (LSlot (scan_pos ?r)) i (mem s)"
      | (stop) "opc (ops s' q) = OScanEnd False"
      using sl r by (cases "wait_for ?r"; cases "slot_ok (wait_for ?r) (word_at s (scan_pos ?r) i)")
        (auto simp: scan_slot_def Let_def p split: if_splits)
    then show "scan_clause s' (opc (ops s' q)) (scan_pos (ops s' q)) (scan_len (ops s' q)) ?Y"
    proof cases
      case fin
      have "scanned s' ?Y sl" for sl
        using d [of sl] fin(1) by (cases "scan_len ?r \<le> sl") auto
      then have "all_scanned s' ?Y"
        using f wf_memD(4) [OF thread_invD(1) [OF inv']]
        by (simp add: all_scanned_def completed_def fenced_def scanned_def)
      with fin show ?thesis
        by (simp add: scan_clause_def)
    next
      case more
      let ?sl = "scan_pos ?r"
      have k: "cur (mem s) t (LSlot ?sl) \<le> i" "i < nwords s ?sl"
        using more(6) by (simp_all add: readable_def)
      have "wview s ?sl i (LSlot ?sl) \<le> i"
        using wf_memD(9) [OF thread_invD(1) [OF inv] k(2)] .
      then have Y: "?Y (LSlot ?sl) \<le> i" "i \<le> ?Y (LSlot ?sl)" "wview s ?sl i \<le> ?Y"
        using k(1) by (auto simp: more(7) view_simps le_fun_def)
      have same: "nwords s' ?sl = nwords s ?sl" "word_at s' ?sl i = word_at s ?sl i" "wview s' ?sl i = wview s ?sl i"
        by (simp_all add: more(7) view_simps mval_def mview_def)
      have we: "wait_epochs s' (wait_for ?r)"
        using O by blast
      obtain b where b: "base s' b ?Y"
        and last: "\<And>j. b \<le> j \<Longrightarrow> j < nepochs s' \<Longrightarrow> last_seen_epoch_id_predicate (wait_for ?r) (epoch_at s' j) \<Longrightarrow> j = epoch_ix s'"
        using settled_last [OF inv' gp_invD(7) [OF gp] gp_invD(1) [OF gp] we r] O by blast
      have "slot_done s' (eview s' (epoch_ix s')) (epoch_ix s') ?Y ?sl"
      proof (rule scan_word [OF inv' b, where k = i and w = "wait_for ?r"])
        show "fence_ok s' (eview s' (epoch_ix s')) (epoch_ix s') ?Y"
          using f by (simp add: fenced_def)
      qed (use Y k(2) more(5) wait_predicate_zero [OF inv' gp_invD(1) [OF gp] we r] last in \<open>auto simp: same\<close>)
      then have "scanned s' ?Y ?sl"
        by (simp add: scanned_def)
      with d f more show ?thesis
        by (auto simp: scan_clause_def less_Suc_eq)
    qed (simp add: scan_clause_def)
  qed
qed

text \<open>The wait is over.\<close>

lemma gp_inv_wait_end:
  assumes gp: "gp_inv D s" and inv: "thread_inv s" and st: "poll_op q t i wk s = Some s'"
    and p: "opc (ops s q) = ODropInfo True"
  shows "gp_inv D s'"
proof -
  have w: "waiting (opc (ops s q))"
    by (simp add: p)
  let ?r = "ops s q"
  let ?Y = "cur (mem s') t"
  have d: "drop_subscriber_info True q t s = Some s'"
    using waiting_poll [OF st w] p by simp
  then have h: "\<forall>x \<in> {LEpoch, LStarted, LFinished}. hist (mem s') x = hist (mem s) x"
    and g: "gp_mutex s' = gp_mutex s" "rst_readers s' = rst_readers s" "rst_writer s' = rst_writer s"
    and v: "ops s' q = ?r\<lparr>opc := after_wait (wait_for ?r)\<rparr>"
    by (auto simp: drop_subscriber_info_def Let_def view_simps split: if_splits)
  have aw: "holder (after_wait w')" "reader (after_wait w')" "\<not> resetting (after_wait w')" "counted (after_wait w')" for w' :: "'a word wait"
    by (cases w'; simp)+
  show ?thesis
  proof (rule gp_inv_poll [OF gp inv st h])
    show "locks_inv s'"
      by (rule locks_inv_same [OF gp_invD(2) [OF gp] _ g])
        (use poll_op_frame [OF inv st] waiting_pos [OF w] in \<open>auto simp: op_frame_def v aw\<close>)
    assume inv': "thread_inv s'" and "op_inv D s' ?r ?Y"
    note O = this(2) [unfolded op_inv_waiting [OF w]]
    have b: "settled D s' (epoch_ix s') ?Y" if "all_scanned s' ?Y"
      using settled_base [of s' "epoch_ix s'", OF base_completed] that nonempty(1) [OF inv'] unfolding all_scanned_def by (simp add: last_ix_def)
    show "op_inv D s' (ops s' q) ?Y"
      using O b
      by (cases "wait_for ?r")
        (auto simp: op_inv_defs v zeroed_def epochs_ok_def base_ix_def own_id_def covers_def
          call_clause_def scan_clause_def p last_ix_def)
  qed (use g waiting_pos [OF w] in \<open>auto simp: v\<close>)
qed

theorem gp_inv_wait:
  assumes gp: "gp_inv D s" and inv: "thread_inv s" and st: "poll_op q t i wk s = Some s'"
    and w: "waiting (opc (ops s q))"
  shows "gp_inv D s'"
proof (cases "opc (ops s q)")
  case (ODropInfo b)
  then show ?thesis
    using gp_inv_wait_end [OF gp inv st] gp_inv_wait_easy [OF gp inv st] by (cases b) auto
qed (use w gp_inv_wait_fence [OF gp inv st] gp_inv_scan_begin [OF gp inv st] gp_inv_scan [OF gp inv st]
    gp_inv_wait_easy [OF gp inv st] in \<open>auto\<close>)

end
