(* ===== verification/Gp_Sync.thy ===== *)
theory Gp_Sync
  imports Gp_Wait
begin

text \<open>The steps of \<open>synchronize_rcu\<close> that write no counter keep the invariant of the futures.\<close>

lemma locks_inv_upd:
  assumes l: "locks_inv s" and oth: "\<And>r. r \<noteq> q \<Longrightarrow> ops s' r = ops s r"
    and m: "gp_mutex s' = (if holder (opc (ops s' q)) then Some q
      else if holder (opc (ops s q)) then None else gp_mutex s)"
    and r: "rst_readers s' = (if reader (opc (ops s' q)) then insert q (rst_readers s) else rst_readers s - {q})"
    and w: "rst_writer s' = (if resetting (opc (ops s' q)) then Some q
      else if resetting (opc (ops s q)) then None else rst_writer s)"
    and x: "holder (opc (ops s' q)) \<Longrightarrow> \<not> holder (opc (ops s q)) \<Longrightarrow> gp_mutex s = None"
      "resetting (opc (ops s' q)) \<Longrightarrow> \<not> resetting (opc (ops s q)) \<Longrightarrow> rst_writer s = None"
      "rst_writer s' \<noteq> None \<Longrightarrow> rst_readers s' = {}"
  shows "locks_inv s'"
proof -
  have L: "gp_mutex s = Some a \<longleftrightarrow> holder (opc (ops s a))" "a \<in> rst_readers s \<longleftrightarrow> reader (opc (ops s a))"
    "rst_writer s = Some a \<longleftrightarrow> resetting (opc (ops s a))" for a
    using l by (simp_all add: locks_inv_def)
  have "gp_mutex s' = Some a \<longleftrightarrow> holder (opc (ops s' a))" for a
    using L(1) [of a] L(1) [of q] oth [of a] m x(1) by (cases "a = q") (auto split: if_splits)
  moreover have "a \<in> rst_readers s' \<longleftrightarrow> reader (opc (ops s' a))" for a
    using L(2) [of a] oth [of a] r by (cases "a = q") auto
  moreover have "rst_writer s' = Some a \<longleftrightarrow> resetting (opc (ops s' a))" for a
    using L(3) [of a] L(3) [of q] oth [of a] w x(2) by (cases "a = q") (auto split: if_splits)
  ultimately show ?thesis
    using x(3) by (simp add: locks_inv_def)
qed

lemma no_counted:
  "locks_inv s \<Longrightarrow> rst_readers s = {} \<Longrightarrow> \<not> counted (opc (ops s r)) \<and> \<not> holder (opc (ops s r))"
  using pos_rules(3, 4) unfolding locks_inv_def by blast

lemma reader_no_writer: "locks_inv s \<Longrightarrow> reader (opc (ops s q)) \<Longrightarrow> rst_writer s = None"
  unfolding locks_inv_def by blast

lemma locksD:
  assumes "locks_inv s"
  shows "holder (opc (ops s q)) \<Longrightarrow> gp_mutex s = Some q" and "reader (opc (ops s q)) \<Longrightarrow> q \<in> rst_readers s"
    and "reader (opc (ops s q)) \<Longrightarrow> rst_writer s = None"
  using assms by (cases "rst_writer s"; auto simp: locks_inv_def)+

lemma counters_okD:
  assumes "counters_ok s X"
  shows "X LFinished \<le> j \<Longrightarrow> j < nfinished s \<Longrightarrow> finished_at s j \<le> started s"
    and "X LFinished \<le> j \<Longrightarrow> j < nfinished s \<Longrightarrow> counted (opc (ops s r)) \<Longrightarrow>
      my_gp_counter (ops s r) \<le> finished_at s j \<Longrightarrow> op_done s (ops s r) (mview (mem s) LFinished j)"
    and "X LStarted \<le> j \<Longrightarrow> j < nstarted s \<Longrightarrow> started_at s j \<le> started s"
    and "X LStarted \<le> j \<Longrightarrow> j < nstarted s \<Longrightarrow> counted (opc (ops s r)) \<Longrightarrow>
      my_gp_counter (ops s r) \<le> started_at s j \<Longrightarrow> call_view (ops s r) \<le> mview (mem s) LStarted j"
  using assms by (simp_all add: counters_ok_def)

lemma writer_no_reader: "locks_inv s \<Longrightarrow> resetting (opc (ops s q)) \<Longrightarrow> rst_readers s = {} \<and> rst_writer s = Some q"
  unfolding locks_inv_def by (metis option.distinct(1))

lemma sync_poll:
  assumes st: "poll_op q t i wk s = Some s'" and w: "\<not> waiting (opc (ops s q))"
  shows "synchronize_rcu (opc (ops s q)) q t i s = Some s' \<or>
    synchronize_rcu_serialized (opc (ops s q)) q t i s = Some s'"
  using st
  by (cases rule: poll_op_cases) (use w in \<open>cases "opc (ops s q)"; simp\<close>)+

lemma sync_cases:
  assumes st: "poll_op q t i wk s = Some s'"
  shows "opc (ops s q) = OReadLock \<Longrightarrow> read_lock_reset q t s = Some s'"
    and "opc (ops s q) = OInc \<Longrightarrow> inc_gp_started q t i s = Some s'"
    and "opc (ops s q) = OLock \<Longrightarrow> lock_gp_mutex q t s = Some s'"
    and "opc (ops s q) = OChk \<Longrightarrow> check_gp_finished q t i s = Some s'"
    and "opc (ops s q) = OLoadStarted \<Longrightarrow> load_gp_started q t i s = Some s'"
    and "opc (ops s q) \<in> {OLdrDrop, OLdrWrite, OLdrZeroStarted, OLdrZeroFinished, OLdrUnlock, OLdrNotify} \<Longrightarrow>
      reset_leader (opc (ops s q)) q t s = Some s'"
    and "opc (ops s q) \<in> {OSlvListen, OSlvDrop, OSlvWait} \<Longrightarrow>
      reset_follower (opc (ops s q)) q t s = Some s'"
    and "opc (ops s q) \<in> {OFinFence, OPub, OUnlock, ORstDrop} \<Longrightarrow>
      synchronize_rcu (opc (ops s q)) q t i s = Some s'"
    and "opc (ops s q) \<in> {OLoadEpoch, OReset, OSetAfterReset} \<union> range OSetEpoch \<Longrightarrow>
      synchronize_rcu_serialized (opc (ops s q)) q t i s = Some s'"
proof -
  show "opc (ops s q) = OReadLock \<Longrightarrow> read_lock_reset q t s = Some s'"
    and "opc (ops s q) = OInc \<Longrightarrow> inc_gp_started q t i s = Some s'"
    and "opc (ops s q) = OLock \<Longrightarrow> lock_gp_mutex q t s = Some s'"
    and "opc (ops s q) = OChk \<Longrightarrow> check_gp_finished q t i s = Some s'"
    and "opc (ops s q) = OLoadStarted \<Longrightarrow> load_gp_started q t i s = Some s'"
    and "opc (ops s q) \<in> {OFinFence, OPub, OUnlock, ORstDrop} \<Longrightarrow>
      synchronize_rcu (opc (ops s q)) q t i s = Some s'"
    and "opc (ops s q) \<in> {OLoadEpoch, OReset, OSetAfterReset} \<union> range OSetEpoch \<Longrightarrow>
      synchronize_rcu_serialized (opc (ops s q)) q t i s = Some s'"
    using sync_poll [OF st] by (auto)
  have "reset_leader p q t s = Some s'"
    if "p \<in> {OLdrDrop, OLdrWrite, OLdrZeroStarted, OLdrZeroFinished, OLdrUnlock, OLdrNotify}"
      "synchronize_rcu p q t i s = Some s'" for p
    using that by (cases p) (simp_all split: option.splits if_splits)
  moreover have "reset_follower p q t s = Some s'"
    if "p \<in> {OSlvListen, OSlvDrop, OSlvWait}" "synchronize_rcu p q t i s = Some s'" for p
    using that by (cases p) (simp_all split: option.splits)
  moreover have "synchronize_rcu_serialized p q t i s = None"
    if "p \<in> {OLdrDrop, OLdrWrite, OLdrZeroStarted, OLdrZeroFinished, OLdrUnlock, OLdrNotify} \<or>
      p \<in> {OSlvListen, OSlvDrop, OSlvWait}" for p
    using that by auto
  moreover have "\<not> waiting p"
    if "p \<in> {OLdrDrop, OLdrWrite, OLdrZeroStarted, OLdrZeroFinished, OLdrUnlock, OLdrNotify} \<or>
      p \<in> {OSlvListen, OSlvDrop, OSlvWait}" for p
    using that by auto
  ultimately show
    "opc (ops s q) \<in> {OLdrDrop, OLdrWrite, OLdrZeroStarted, OLdrZeroFinished, OLdrUnlock, OLdrNotify} \<Longrightarrow>
      reset_leader (opc (ops s q)) q t s = Some s'"
    and "opc (ops s q) \<in> {OSlvListen, OSlvDrop, OSlvWait} \<Longrightarrow>
      reset_follower (opc (ops s q)) q t s = Some s'"
    using sync_poll [OF st] by (metis option.distinct(1))+
qed

lemma poll_oth:
  assumes "thread_inv s" and "poll_op q t i wk s = Some s'" and "r \<noteq> q"
  shows "ops s' r = ops s r"
  using poll_op_frame [OF assms(1, 2)] assms(3) by (simp add: op_frame_def)

lemma poll_view:
  assumes "poll_op q t i wk s = Some s'"
  shows "opview s q = cur (mem s) t"
  using poll_op_guard(1) [OF assms] by (simp add: opview_def)

subsection \<open>The read guard and the reset\<close>

lemma gp_inv_read_lock:
  assumes gp: "gp_inv D s" and inv: "thread_inv s" and st: "poll_op q t i wk s = Some s'"
    and p: "opc (ops s q) = OReadLock"
  shows "gp_inv D s'"
proof -
  have g: "rst_writer s = None"
    and s': "s' = set_opc q OInc ((on_mem (lk_acq t LkRstW) s)\<lparr>rst_readers := insert q (rst_readers s)\<rparr>)"
    using sync_cases(1) [OF st p] by (auto simp: read_lock_reset_def split: if_splits)
  have ts: "tsteps s s'"
    by (rule tstep_quiet [OF quiet_poll [OF gp inv st]])
  show ?thesis
  proof (rule gp_inv_poll [OF gp inv st])
    show "locks_inv s'"
      by (rule locks_inv_upd [where q = q, OF gp_invD(2) [OF gp]]) (simp_all add: s' p g)
    assume O: "op_inv D s' (ops s q) (cur (mem s') t)" and cl: "counted_le s s'"
    have "counters_ok s' (cur (mem s') t)"
      by (rule counters_ok_frame [OF ts inv _ _ cl _ gp_invD(5) [OF gp g]]) (simp_all add: s' view_simps)
    with O show "op_inv D s' (ops s' q) (cur (mem s') t)"
      by (simp add: op_inv_defs p zeroed_def) (simp add: s')
  qed (simp_all add: s' view_simps p g)
qed

text \<open>Steps to positions of which the invariant says nothing but the call.\<close>

definition idle_pos :: "'e opc \<Rightarrow> bool" where
  "idle_pos p \<longleftrightarrow> p = OReadLock \<or> p = OLdrWrite \<or> p = OLdrZeroStarted \<or> p = OLdrNotify \<or> p = OSlvWait"

lemma op_inv_idle:
  assumes "op_inv D s r X" and "live (opc r)" and "idle_pos p"
  shows "op_inv D s (r\<lparr>opc := p\<rparr>) X"
proof -
  have "call_clause r X"
    using assms(1) by (simp add: op_inv_def)
  then have "call_clause (r\<lparr>opc := p\<rparr>) X"
    using assms(2) by (simp add: call_clause_def)
  then show ?thesis
    using assms(3) by (cases p) (simp_all add: op_inv_defs idle_pos_def zeroed_def)
qed

text \<open>Positions that only hold the read guard.\<close>

lemma op_inv_guard:
  assumes "call_clause r X" and "counters_ok s X" and "live (opc r)"
    and "p = OSlvListen \<or> p = OSlvDrop \<or> p = OLdrDrop \<or> p = OInc"
  shows "op_inv D s (r\<lparr>opc := p\<rparr>) X"
proof -
  have "call_clause (r\<lparr>opc := p\<rparr>) X"
    using assms(1, 3) by (simp add: call_clause_def)
  then show ?thesis
    using assms(2, 4) by (cases p) (simp_all add: op_inv_defs zeroed_def)
qed

lemma gp_inv_idle:
  assumes gp: "gp_inv D s" and inv: "thread_inv s" and st: "poll_op q t i wk s = Some s'"
    and p: "opc (ops s q) \<in> {OLdrDrop, OLdrWrite, OLdrNotify, OSlvDrop, OSlvWait}"
  shows "gp_inv D s'"
proof -
  note L = sync_cases(6, 7) [OF st]
  obtain p' where p': "ops s' q = (ops s q)\<lparr>opc := p'\<rparr>" "idle_pos p'"
    using p L by (auto simp: idle_pos_def drop_read_guard_def split: if_splits)
  have hold: "\<not> holder (opc (ops s q))" "\<not> holder p'" "\<not> counted p'" "live (opc (ops s q))" "\<not> reader p'"
    using p p'(2) by (auto simp: idle_pos_def)
  show ?thesis
  proof (rule gp_inv_poll [OF gp inv st])
    show "\<forall>x \<in> {LEpoch, LStarted, LFinished}. hist (mem s') x = hist (mem s) x"
      using p L by (auto simp: drop_read_guard_def view_simps split: if_splits)
    show "locks_inv s'"
    proof (rule locks_inv_upd [where q = q, OF gp_invD(2) [OF gp]])
      have "q \<notin> rst_readers s" if "\<not> reader (opc (ops s q))"
        using gp_invD(2) [OF gp] that by (simp add: locks_inv_def)
      then show "rst_readers s' = (if reader (opc (ops s' q)) then insert q (rst_readers s) else rst_readers s - {q})"
        using p L by (auto simp: drop_read_guard_def split: if_splits)
      have "rst_readers s = {}" if "rst_writer s \<noteq> None"
        using gp_invD(2) [OF gp] that by (simp add: locks_inv_def)
      then show "rst_writer s' \<noteq> None \<Longrightarrow> rst_readers s' = {}"
        using p L by (auto simp: drop_read_guard_def split: if_splits)
    qed (use p L in \<open>auto simp: drop_read_guard_def split: if_splits\<close>)
    show "op_inv D s' (ops s' q) (cur (mem s') t)" if "op_inv D s' (ops s q) (cur (mem s') t)"
      unfolding p'(1) by (rule op_inv_idle [OF that hold(4) p'(2)])
    show "rst_writer s' = None \<Longrightarrow> rst_writer s = None \<or> counters_ok s' (lv (mem s') LkRstW)"
      and "gp_mutex s' = None \<Longrightarrow> gp_mutex s = None \<or>
        epoch_ix s' \<le> lv (mem s') LkMutex LEpoch \<and> settled D s' (nepochs s' - 1) (lv (mem s') LkMutex)"
      using p L by (auto simp: drop_read_guard_def split: if_splits)
  qed (simp add: p' hold)
qed

lemma gp_inv_reset_unlock:
  assumes gp: "gp_inv D s" and inv: "thread_inv s" and st: "poll_op q t i wk s = Some s'"
    and p: "opc (ops s q) = OLdrUnlock"
  shows "gp_inv D s'"
proof -
  have s': "s' = set_opc q OLdrNotify ((on_mem (lk_rel t LkRstW) s)\<lparr>rst_writer := None\<rparr>)"
    using sync_cases(6) [OF st] p by simp
  have no: "rst_readers s = {}" "rst_writer s = Some q"
    using writer_no_reader [OF gp_invD(2) [OF gp], of q] by (simp_all add: p)
  note O = gp_invD(3) [OF gp, of q, unfolded poll_view [OF st]]
  then have z: "started s = 0" "last_ix (mem s) LStarted \<le> cur (mem s) t LStarted"
      "finished_at s (last_ix (mem s) LFinished) = 0" "last_ix (mem s) LFinished \<le> cur (mem s) t LFinished"
    by (simp_all add: op_inv_defs zeroed_def p)
  show ?thesis
  proof (rule gp_inv_poll [OF gp inv st])
    show "locks_inv s'"
      by (rule locks_inv_upd [where q = q, OF gp_invD(2) [OF gp]]) (simp_all add: s' p no)
    show "op_inv D s' (ops s' q) (cur (mem s') t)" if "op_inv D s' (ops s q) (cur (mem s') t)"
      using op_inv_idle [OF that, of OLdrNotify] by (simp add: s' p idle_pos_def)
    have nc: "\<not> counted (opc (ops s' r))" for r
      using no_counted [OF gp_invD(2) [OF gp] no(1), of r] by (cases "r = q") (simp_all add: s')
    have "j = last_ix (mem s) LFinished" if "lv (mem s') LkRstW LFinished \<le> j" "j < nfinished s" for j
      using that z(4) by (auto simp: s' view_simps last_ix_def)
    moreover have "j = last_ix (mem s) LStarted" if "lv (mem s') LkRstW LStarted \<le> j" "j < nstarted s" for j
      using that z(2) by (auto simp: s' view_simps last_ix_def)
    moreover have "hist (mem s') = hist (mem s)"
      by (simp add: s' view_simps)
    ultimately show "rst_writer s = None \<or> counters_ok s' (lv (mem s') LkRstW)"
      using z nc by (auto simp: counters_ok_def mval_def last_ix_def)
  qed (simp_all add: s' view_simps p)
qed

lemma gp_inv_listen:
  assumes gp: "gp_inv D s" and inv: "thread_inv s" and st: "poll_op q t i wk s = Some s'"
    and p: "opc (ops s q) = OSlvListen \<or> opc (ops s q) = OInc \<and> opc (ops s' q) = OSlvListen"
  shows "gp_inv D s'"
proof -
  have rd: "q \<in> rst_readers s" "rst_writer s = None"
    using gp_invD(2) [OF gp] reader_no_writer [OF gp_invD(2) [OF gp], of q] p
    by (auto simp: locks_inv_def)
  have h: "\<forall>x \<in> {LEpoch, LStarted, LFinished}. hist (mem s') x = hist (mem s) x"
    and same: "gp_mutex s' = gp_mutex s" "rst_readers s' = rst_readers s" "rst_writer s' = rst_writer s"
    and ops: "ops s' q = (ops s q)\<lparr>opc := opc (ops s' q)\<rparr>"
    and p': "opc (ops s' q) = OSlvListen \<or> opc (ops s' q) = OSlvDrop"
    using p sync_cases(2, 7) [OF st]
    by (auto simp: inc_gp_started_def view_simps split: if_splits option.splits)
  show ?thesis
  proof (rule gp_inv_poll [OF gp inv st h])
    show "locks_inv s'"
      by (rule locks_inv_same [where q = q, OF gp_invD(2) [OF gp] _ same]) (use p p' poll_oth [OF inv st] in auto)
    show "op_inv D s' (ops s' q) (cur (mem s') t)" if "op_inv D s' (ops s q) (cur (mem s') t)"
    proof -
      have "reader (opc (ops s q))" "live (opc (ops s q))"
        using p by auto
      then have "call_clause (ops s q) (cur (mem s') t)" "counters_ok s' (cur (mem s') t)"
        using that by (simp_all add: op_inv_def counter_clause_def)
      then have "op_inv D s' ((ops s q)\<lparr>opc := opc (ops s' q)\<rparr>) (cur (mem s') t)"
        using p' \<open>live (opc (ops s q))\<close> by (intro op_inv_guard) auto
      then show ?thesis
        by (simp flip: ops)
    qed
  qed (use same p' rd in auto)
qed

subsection \<open>The mutex\<close>

lemma gp_inv_lock:
  assumes gp: "gp_inv D s" and inv: "thread_inv s" and st: "poll_op q t i wk s = Some s'"
    and p: "opc (ops s q) = OLock"
  shows "gp_inv D s'"
proof -
  have g: "gp_mutex s = None" and s': "s' = set_opc q OChk ((on_mem (lk_acq t LkMutex) s)\<lparr>gp_mutex := Some q\<rparr>)"
    using sync_cases(3) [OF st p] by (auto simp: lock_gp_mutex_def split: if_splits)
  have ts: "tsteps s s'"
    by (rule tstep_quiet [OF quiet_poll [OF gp inv st]])
  have rd: "q \<in> rst_readers s" "rst_writer s = None"
    using gp_invD(2) [OF gp] reader_no_writer [OF gp_invD(2) [OF gp], of q] p
    by (auto simp: locks_inv_def)
  have le: "lv (mem s) LkMutex \<le> cur (mem s') t"
    by (simp add: s' view_simps)
  note E = gp_invD(4) [OF gp g]
  have e: "epoch_ix s \<le> cur (mem s') t LEpoch"
    using E le_funD [OF le, of LEpoch] by simp
  have b: "settled D s' (nepochs s - 1) (cur (mem s') t)"
    by (rule settled_mono [OF settled_tsteps [OF ts inv] le]) (use E in blast)
  have hE: "hist (mem s') LEpoch = hist (mem s) LEpoch"
    by (simp add: s' view_simps)
  show ?thesis
  proof (rule gp_inv_poll [OF gp inv st])
    show "locks_inv s'"
      by (rule locks_inv_upd [where q = q, OF gp_invD(2) [OF gp]])
        (use g rd in \<open>auto simp: s' p\<close>)
    show "op_inv D s' (ops s' q) (cur (mem s') t)" if "op_inv D s' (ops s q) (cur (mem s') t)"
    proof -
      have ops: "ops s' q = (ops s q)\<lparr>opc := OChk\<rparr>"
        by (simp add: s')
      have e': "epoch_ix s' \<le> cur (mem s') t LEpoch" "settled D s' (nepochs s' - 1) (cur (mem s') t)"
        using e b by (simp_all add: epoch_same [OF hE] hE)
      show ?thesis
        using that e' unfolding ops
        by (simp add: op_inv_defs p zeroed_def base_ix_def epochs_ok_def own_id_def)
    qed
  qed (simp_all add: s' view_simps p rd)
qed

lemma gp_inv_check:
  assumes gp: "gp_inv D s" and inv: "thread_inv s" and st: "poll_op q t i wk s = Some s'"
    and p: "opc (ops s q) = OChk"
  shows "gp_inv D s'"
proof -
  let ?r = "ops s q"
  let ?b = "my_gp_counter ?r \<le> finished_at s i"
  have rd: "cur (mem s) t LFinished \<le> i" "i < nfinished s"
    and s': "s' = set_opc q (if ?b then OFinFence else OLoadStarted) (on_mem (load Relaxed t LFinished i) s)"
    using sync_cases(4) [OF st p] by (auto simp: check_gp_finished_def readable_def split: if_splits)
  have Y: "cur (mem s') t LFinished = i" "mview (mem s') LFinished i \<le> vacq (tv (mem s') t)"
    using rd(1) by (auto simp: s' view_simps mview_def load_def Let_def le_fun_def)
  have hF: "finished_at s' i = finished_at s i" "nfinished s' = nfinished s"
    by (simp_all add: s' view_simps mval_def)
  have mtx: "gp_mutex s = Some q" "q \<in> rst_readers s" "rst_writer s = None"
    using locksD [OF gp_invD(2) [OF gp], of q] p by simp_all
  show ?thesis
  proof (rule gp_inv_poll [OF gp inv st])
    show "locks_inv s'"
      by (rule locks_inv_same [where q = q, OF gp_invD(2) [OF gp]]) (simp_all add: s' p)
    assume inv': "thread_inv s'" and O: "op_inv D s' ?r (cur (mem s') t)"
    have "op_done s' ?r (vacq (tv (mem s') t))" if ?b
    proof (rule op_done_mono [OF _ Y(2) wf_memD(3) [OF thread_invD(1) [OF inv']]])
      have "counters_ok s' (cur (mem s') t)"
        using O by (simp add: op_inv_defs p)
      from counters_okD(2) [OF this, of i q] have "op_done s' (ops s' q) (mview (mem s') LFinished i)"
        using Y(1) hF rd(2) that by (simp add: s')
      then show "op_done s' ?r (mview (mem s') LFinished i)"
        by (rule op_done_call) (simp add: s')
    qed
    then show "op_inv D s' (ops s' q) (cur (mem s') t)"
      using O poll_op_guard(1) [OF st]
      by (cases ?b) (simp_all add: s' op_inv_defs p zeroed_def base_ix_def epochs_ok_def own_id_def op_done_def)
  qed (simp_all add: s' view_simps p)
qed

lemma gp_inv_fin_fence:
  assumes gp: "gp_inv D s" and inv: "thread_inv s" and st: "poll_op q t i wk s = Some s'"
    and p: "opc (ops s q) = OFinFence"
  shows "gp_inv D s'"
proof -
  have s': "s' = set_opc q OUnlock (on_mem (fence_acq t) s)"
    using sync_cases(8) [OF st] p by simp
  have v: "vacq (tv (mem s') t) = cur (mem s') t"
    by (simp add: s' view_simps) (simp add: fence_acq_def)
  have mtx: "gp_mutex s = Some q" "q \<in> rst_readers s" "rst_writer s = None"
    using locksD [OF gp_invD(2) [OF gp], of q] p by simp_all
  have ops: "ops s' q = (ops s q)\<lparr>opc := OUnlock\<rparr>"
    by (simp add: s')
  show ?thesis
  proof (rule gp_inv_poll [OF gp inv st])
    show "locks_inv s'"
      by (rule locks_inv_same [where q = q, OF gp_invD(2) [OF gp]]) (simp_all add: s' p)
    assume O: "op_inv D s' (ops s q) (cur (mem s') t)"
    then have "op_done s' (ops s q) (cur (mem s') t)"
      using poll_op_guard(1) [OF st] v by (simp add: op_inv_def done_clause_def p)
    then have "op_done s' (ops s' q) (cur (mem s') t)"
      by (rule op_done_call) (simp add: ops)
    with O show "op_inv D s' (ops s' q) (cur (mem s') t)"
      unfolding ops by (simp add: op_inv_defs p zeroed_def base_ix_def epochs_ok_def own_id_def)
  qed (simp_all add: s' view_simps mtx p)
qed

lemma gp_inv_load_started:
  assumes gp: "gp_inv D s" and inv: "thread_inv s" and st: "poll_op q t i wk s = Some s'"
    and p: "opc (ops s q) = OLoadStarted"
  shows "gp_inv D s'"
proof -
  let ?r = "ops s q"
  have rd: "cur (mem s) t LStarted \<le> i" "i < nstarted s"
    and s': "s' = upd_op q (\<lambda>r. r\<lparr>opc := OLoadEpoch, gp_started_counter := started_at s i\<rparr>)
        (on_mem (load Acquire t LStarted i) s)"
    using sync_cases(5) [OF st p] by (auto simp: load_gp_started_def readable_def split: if_splits)
  have "mview (mem s) LStarted i LStarted \<le> i"
    using wf_memD(9) [OF thread_invD(1) [OF inv] rd(2)] .
  then have Y: "cur (mem s') t LStarted \<le> i" "mview (mem s') LStarted i \<le> cur (mem s') t"
    using rd(1) by (auto simp: s' view_simps mview_def le_fun_def)
  have hS: "started_at s' i = started_at s i" "nstarted s' = nstarted s" "started s' = started s"
    by (simp_all add: s' view_simps mval_def last_ix_def)
  have mtx: "gp_mutex s = Some q" "q \<in> rst_readers s" "rst_writer s = None"
    using locksD [OF gp_invD(2) [OF gp], of q] p by simp_all
  have ops: "ops s' q = ?r\<lparr>opc := OLoadEpoch, gp_started_counter := started_at s i\<rparr>"
    by (simp add: s')
  show ?thesis
  proof (rule gp_inv_poll [OF gp inv st])
    show "locks_inv s'"
      by (rule locks_inv_same [where q = q, OF gp_invD(2) [OF gp]]) (simp_all add: s' p)
    assume O: "op_inv D s' ?r (cur (mem s') t)"
    then have c: "counters_ok s' (cur (mem s') t)" and o: "own_id s' ?r (cur (mem s') t)"
      by (simp_all add: op_inv_defs p)
    have "my_gp_counter ?r \<le> started_at s i"
      using o [unfolded own_id_def, rule_format, of i] Y(1) rd(2) hS by simp
    moreover have "started_at s i \<le> started s'"
      using counters_okD(3) [OF c Y(1)] rd(2) hS by simp
    moreover have "call_view (ops s' r) \<le> cur (mem s') t"
      if "counted (opc (ops s' r))" "my_gp_counter (ops s' r) \<le> started_at s i" for r
      using counters_okD(4) [OF c Y(1) _ that(1)] rd(2) hS that(2) Y(2) by (auto intro: order_trans)
    ultimately have "covers s' (ops s' q) (cur (mem s') t)"
      by (simp add: covers_def ops)
    with O show "op_inv D s' (ops s' q) (cur (mem s') t)"
      unfolding ops by (simp add: op_inv_defs p zeroed_def base_ix_def epochs_ok_def own_id_def)
  qed (simp_all add: s' view_simps mtx p)
qed

lemma gp_inv_load_epoch:
  assumes gp: "gp_inv D s" and inv: "thread_inv s" and st: "poll_op q t i wk s = Some s'"
    and p: "opc (ops s q) = OLoadEpoch"
  shows "gp_inv D s'"
proof -
  let ?r = "ops s q"
  let ?p = "if epoch_at s i = EPOCH_ID_MAX then OReset else OSetEpoch (epoch_at s i)"
  have rd: "cur (mem s) t LEpoch \<le> i" "i < nepochs s"
    and s': "s' = set_opc q ?p (on_mem (load Relaxed t LEpoch i) s)"
    using sync_cases(9) [OF st] p by (auto simp: Let_def readable_def split: if_splits)
  have "epoch_ix s \<le> cur (mem s) t LEpoch"
    using gp_invD(3) [OF gp, of q] by (simp add: poll_view [OF st] op_inv_defs p)
  then have i: "i = nepochs s - 1"
    using rd by (auto simp: last_ix_def)
  have hE: "hist (mem s') LEpoch = hist (mem s) LEpoch"
    by (simp add: s' view_simps)
  have mtx: "gp_mutex s = Some q" "q \<in> rst_readers s" "rst_writer s = None"
    using locksD [OF gp_invD(2) [OF gp], of q] p by simp_all
  have ops: "ops s' q = ?r\<lparr>opc := ?p\<rparr>"
    by (simp add: s')
  show ?thesis
  proof (rule gp_inv_poll [OF gp inv st])
    show "locks_inv s'"
      by (rule locks_inv_same [where q = q, OF gp_invD(2) [OF gp]]) (simp_all add: s' p)
    assume O: "op_inv D s' ?r (cur (mem s') t)"
    have eo: "epochs_ok s' ?p (wait_for ?r)"
      by (simp add: epochs_ok_def epoch_same [OF hE] hE i)
    show "op_inv D s' (ops s' q) (cur (mem s') t)"
      using O eo unfolding ops
      by (cases "epoch_at s i = EPOCH_ID_MAX")
        (simp_all add: op_inv_defs p zeroed_def base_ix_def own_id_def covers_def)
  qed (simp_all add: s' view_simps mtx p)
qed

lemma gp_inv_unlock:
  assumes gp: "gp_inv D s" and inv: "thread_inv s" and st: "poll_op q t i wk s = Some s'"
    and p: "opc (ops s q) = OUnlock"
  shows "gp_inv D s'"
proof -
  have s': "s' = set_opc q ORstDrop ((on_mem (lk_rel t LkMutex) s)\<lparr>gp_mutex := None\<rparr>)"
    using sync_cases(8) [OF st] p by simp
  have mtx: "gp_mutex s = Some q" "q \<in> rst_readers s" "rst_writer s = None"
    using locksD [OF gp_invD(2) [OF gp], of q] p by simp_all
  have ts: "tsteps s s'"
    by (rule tstep_quiet [OF quiet_poll [OF gp inv st]])
  have ops: "ops s' q = (ops s q)\<lparr>opc := ORstDrop\<rparr>" and hE: "hist (mem s') LEpoch = hist (mem s) LEpoch"
    by (simp_all add: s' view_simps)
  have le: "cur (mem s) t \<le> lv (mem s') LkMutex"
    by (simp add: s' view_simps)
  have O: "epoch_ix s \<le> cur (mem s) t LEpoch" "settled D s (nepochs s - 1) (cur (mem s) t)"
    using gp_invD(3) [OF gp, of q] by (simp_all add: poll_view [OF st] op_inv_defs p base_ix_def)
  show ?thesis
  proof (rule gp_inv_poll [OF gp inv st])
    show "locks_inv s'"
      by (rule locks_inv_upd [where q = q, OF gp_invD(2) [OF gp]])
        (use mtx in \<open>auto simp: s' p insert_absorb\<close>)
    show "op_inv D s' (ops s' q) (cur (mem s') t)" if "op_inv D s' (ops s q) (cur (mem s') t)"
      using that unfolding ops by (simp add: op_inv_defs p zeroed_def op_done_def)
    have "epoch_ix s \<le> lv (mem s') LkMutex LEpoch"
      using O(1) le_funD [OF le, of LEpoch] by simp
    moreover have "settled D s' (nepochs s - 1) (lv (mem s') LkMutex)"
      by (rule settled_mono [OF settled_tsteps [OF ts inv O(2)] le])
    ultimately show "gp_mutex s = None \<or>
        epoch_ix s' \<le> lv (mem s') LkMutex LEpoch \<and> settled D s' (nepochs s' - 1) (lv (mem s') LkMutex)"
      by (simp add: epoch_same [OF hE] hE)
  qed (simp_all add: s' view_simps mtx p)
qed

lemma gp_inv_rst_drop:
  assumes gp: "gp_inv D s" and inv: "thread_inv s" and st: "poll_op q t i wk s = Some s'"
    and p: "opc (ops s q) = ORstDrop"
  shows "gp_inv D s'"
proof -
  have s': "s' = drop_read_guard OReturned q t s"
    using sync_cases(8) [OF st] p by simp
  have rd: "q \<in> rst_readers s" "rst_writer s = None"
    using locksD [OF gp_invD(2) [OF gp], of q] p by simp_all
  have ops: "ops s' q = (ops s q)\<lparr>opc := OReturned\<rparr>"
    by (simp add: s' drop_read_guard_def)
  show ?thesis
  proof (rule gp_inv_poll [OF gp inv st])
    show "locks_inv s'"
      by (rule locks_inv_upd [where q = q, OF gp_invD(2) [OF gp]])
        (use rd in \<open>auto simp: s' p drop_read_guard_def\<close>)
    show "op_inv D s' (ops s' q) (cur (mem s') t)" if "op_inv D s' (ops s q) (cur (mem s') t)"
      using that unfolding ops by (simp add: op_inv_defs p zeroed_def op_done_def)
  qed (simp_all add: s' view_simps p drop_read_guard_def rd)
qed

end
