(* ===== verification/Gp_Counters.thy ===== *)
theory Gp_Counters
  imports Gp_Sync
begin

text \<open>The steps of \<open>synchronize_rcu\<close> that write a grace period counter keep the invariant of the futures.\<close>

subsection \<open>The general shape: the epoch id does not change\<close>

lemma gp_inv_write:
  fixes s s' :: "('w::len, 'g::len) rcu"
  assumes gp: "gp_inv D s" and inv: "thread_inv s" and st: "poll_op q t i wk s = Some s'"
    and hE: "hist (mem s') LEpoch = hist (mem s) LEpoch" and locks: "locks_inv s'"
    and cnt: "\<And>r. r \<noteq> q \<Longrightarrow> counter_clause s (ops s r) (opview s r) \<Longrightarrow>
      opview s r \<le> opview s' r \<Longrightarrow> counter_clause s' (ops s r) (opview s' r)"
    and cov: "\<And>r. r \<noteq> q \<Longrightarrow> covers_clause s (ops s r) (opview s r) \<Longrightarrow>
      opview s r \<le> opview s' r \<Longrightarrow> covers_clause s' (ops s r) (opview s' r)"
    and own: "op_inv D s' (ops s' q) (cur (mem s') t)"
    and mutex: "gp_mutex s' = gp_mutex s"
    and writer: "rst_writer s' = None \<Longrightarrow> counters_ok s' (lv (mem s') LkRstW)"
  shows "gp_inv D s'"
proof -
  note G = gp_invD [OF gp]
  note f = poll_op_frame [OF inv st, unfolded op_frame_def]
  have ts: "tsteps s s'"
    by (rule tstep_quiet [OF quiet_poll [OF gp inv st]])
  note g = tsteps_grows [OF ts]
  have inv': "thread_inv s'"
    by (rule thread_inv_tsteps [OF ts inv])
  have lle: "lv (mem s) k \<le> lv (mem s') k" for k
    using growsD(3) [OF g] .
  have "op_inv D s' (ops s' r) (opview s' r)" for r
  proof (cases "r = q")
    case True
    have "opview s' q = cur (mem s') t"
      using poll_op_guard(1) [OF st] f by (simp add: opview_def)
    with own True show ?thesis
      by simp
  next
    case False
    have same: "ops s' r = ops s r"
      by (rule poll_oth [OF inv st False])
    have le: "opview s r \<le> opview s' r"
      by (rule opview_grows [OF g]) (simp add: same)
    have b: "bounded (mem s) (opview s r)" "bounded (mem s') (opview s' r)"
      by (intro opview_bounded inv inv')+
    note O = G(3) [of r, unfolded op_inv_def]
    have "call_clause (ops s r) (opview s' r)"
      using O call_clause_frame [OF _ le] by blast
    moreover have "epoch_clause D s' (ops s r) (opview s' r)"
      using O epoch_clause_frame [OF ts inv hE le b] by blast
    moreover have "done_clause s' (ops s r) (opview s' r)"
      using O done_clause_frame [OF ts inv le b(2)] by blast
    ultimately show ?thesis
      using O cnt [OF False _ le] cov [OF False _ le] by (simp add: op_inv_def same)
  qed
  moreover have "epoch_ix s' \<le> lv (mem s') LkMutex LEpoch \<and> settled D s' (nepochs s' - 1) (lv (mem s') LkMutex)"
    if "gp_mutex s' = None"
  proof -
    have o: "epoch_ix s \<le> lv (mem s) LkMutex LEpoch" "settled D s (nepochs s - 1) (lv (mem s) LkMutex)"
      using G(4) that mutex by simp_all
    have "epoch_ix s \<le> lv (mem s') LkMutex LEpoch"
      using o(1) le_funD [OF lle] by (rule order_trans)
    moreover have "settled D s' (nepochs s - 1) (lv (mem s') LkMutex)"
      using settled_mono [OF settled_tsteps [OF ts inv o(2)] lle] .
    ultimately show ?thesis
      by (simp add: epoch_same [OF hE] hE)
  qed
  moreover have "freed_inv s'"
    using freed_inv_frame [OF ts inv _ G(6)] f by simp
  ultimately show ?thesis
    using gp locks writer by (simp add: gp_inv_def)
qed

lemma counted_my_le:
  assumes gp: "gp_inv D s" and inv: "thread_inv s" and c: "counted (opc (ops s r))"
  shows "my_gp_counter (ops s r) \<le> started s"
proof -
  have "own_id s (ops s r) (opview s r)"
    using gp_invD(3) [OF gp, of r] c by (simp add: op_inv_defs)
  moreover have "opview s r LStarted \<le> last_ix (mem s) LStarted"
    using opview_bounded [OF inv, of r] by (simp add: bounded_def)
  moreover have "last_ix (mem s) LStarted < nstarted s"
    using last_ix_less nonempty(4) [OF inv] .
  ultimately show ?thesis
    unfolding own_id_def by blast
qed

subsection \<open>Allocating a grace period id\<close>

lemma inc_no_wrap:
  fixes v my :: "'g::len word"
  assumes "checked_add_one v = Some my"
  shows "my = v + 1" and "v < my"
proof -
  have v: "v \<noteq> - 1" and my: "my = v + 1"
    using assms by (auto simp: checked_add_one_def gp_max_def split: if_splits)
  have "1 + v \<noteq> 0"
    using v eq_neg_iff_add_eq_0 [of v 1] by (metis add.commute)
  then show "v < my"
    by (simp add: my word_less_nat_alt unatSuc add.commute [of v])
qed (use assms in \<open>auto simp: checked_add_one_def split: if_splits\<close>)

lemma counters_ok_inc:
  fixes s s' :: "('w::len, 'g::len) rcu"
  assumes ts: "tsteps s s'" and gp: "gp_inv D s" and inv: "thread_inv s"
    and hF: "hist (mem s') LFinished = hist (mem s) LFinished"
    and hS: "hist (mem s') LStarted = hist (mem s) LStarted @ [(VGp my, W)]"
    and my: "started s < my" and W: "mview (mem s) LStarted (last_ix (mem s) LStarted) \<le> W"
    and oth: "\<And>r. r \<noteq> q \<Longrightarrow> ops s' r = ops s r"
    and q: "my_gp_counter (ops s' q) = my" "call_view (ops s' q) \<le> W"
    and X: "bounded (mem s) X" "X \<le> Y" and c: "counters_ok s X"
  shows "counters_ok s' Y"
proof -
  let ?n = "nstarted s"
  have ne: "hist (mem s) LStarted \<noteq> []"
    using nonempty(4) [OF inv] .
  have old: "started_at s' j = started_at s j" "mview (mem s') LStarted j = mview (mem s) LStarted j"
    if "j < ?n" for j
    using that by (simp_all add: mval_def mview_def hS nth_append)
  have new: "started_at s' ?n = my" "mview (mem s') LStarted ?n = W" "nstarted s' = Suc ?n" "started s' = my"
    by (simp_all add: mval_def mview_def last_ix_def hS)
  have fin: "mval (mem s') LFinished = mval (mem s) LFinished" "mview (mem s') LFinished = mview (mem s) LFinished"
    by (simp_all add: fun_eq_iff mval_def mview_def hF)
  have XY: "Y x \<le> j \<Longrightarrow> X x \<le> j" for x j
    using le_funD [OF X(2)] by (rule order_trans)
  have last: "X LStarted \<le> last_ix (mem s) LStarted" "last_ix (mem s) LStarted < ?n"
    using X(1) last_ix_less [OF ne] by (simp_all add: bounded_def)
  note C = counters_okD [OF c]
  have notq: "r \<noteq> q" if "my_gp_counter (ops s' r) \<le> v" "v \<le> started s" for r v
    using that my q(1) by (metis leD order_trans)
  show ?thesis
    unfolding counters_ok_def
  proof (intro conjI allI impI; elim conjE)
    fix j
    assume j: "Y LFinished \<le> j" "j < nfinished s'"
    then have j': "X LFinished \<le> j" "j < nfinished s"
      using XY by (simp_all add: hF)
    have f: "finished_at s j \<le> started s"
      by (rule C(1) [OF j'])
    then show "finished_at s' j \<le> started s'"
      using my by (simp add: fin new)
    fix r
    assume r: "counted (opc (ops s' r))" "my_gp_counter (ops s' r) \<le> finished_at s' j"
    then have "r \<noteq> q"
      using notq f by (simp add: fin)
    then have same: "ops s' r = ops s r"
      by (rule oth)
    show "op_done s' (ops s' r) (mview (mem s') LFinished j)"
      using op_done_tsteps [OF ts inv C(2) [OF j']] r by (simp add: fin same)
  next
    fix j
    assume j: "Y LStarted \<le> j" "j < nstarted s'"
    have le: "call_view (ops s r) \<le> mview (mem s) LStarted k"
      if "k < ?n" "X LStarted \<le> k" "counted (opc (ops s r))" "my_gp_counter (ops s r) \<le> started_at s k" for k r
      using C(4) [OF that(2, 1, 3, 4)] .
    show "started_at s' j \<le> started s'"
    proof (cases "j = ?n")
      case False
      then have "started_at s j \<le> started s"
        using C(3) [of j] XY j new(3) by simp
      with False my j new(3) show ?thesis
        by (simp add: old new)
    qed (simp add: new)
    fix r
    assume r: "counted (opc (ops s' r))" "my_gp_counter (ops s' r) \<le> started_at s' j"
    show "call_view (ops s' r) \<le> mview (mem s') LStarted j"
    proof (cases "j = ?n")
      case True
      show ?thesis
      proof (cases "r = q")
        case False
        then have same: "ops s' r = ops s r"
          by (rule oth)
        have "my_gp_counter (ops s r) \<le> started s"
          using counted_my_le [OF gp inv] r(1) by (simp add: same)
        then have "call_view (ops s r) \<le> mview (mem s) LStarted (last_ix (mem s) LStarted)"
          using le [OF last(2, 1)] r(1) by (simp add: same)
        then show ?thesis
          using W True by (simp add: new same)
      qed (use q(2) True in \<open>simp add: new\<close>)
    next
      case False
      then have jn: "j < ?n" "X LStarted \<le> j"
        using j new(3) XY by simp_all
      then have "my_gp_counter (ops s' r) \<le> started_at s j" "started_at s j \<le> started s"
        using r(2) old C(3) by simp_all
      then have "r \<noteq> q"
        by (rule notq)
      then have same: "ops s' r = ops s r"
        by (rule oth)
      show ?thesis
        using le [OF jn] r by (simp add: old [OF jn(1)] same)
    qed
  qed
qed

lemma gp_inv_inc:
  fixes s s' :: "('w::len, 'g::len) rcu"
  assumes gp: "gp_inv D s" and inv: "thread_inv s" and st: "poll_op q t i wk s = Some s'"
    and p: "opc (ops s q) = OInc" "opc (ops s' q) \<noteq> OSlvListen"
  shows "gp_inv D s'"
proof -
  let ?r = "ops s q"
  note cs = sync_cases(2) [OF st p(1), unfolded inc_gp_started_def]
  obtain my where my: "checked_add_one (started s) = Some my"
    and s': "s' = upd_op q (\<lambda>r. r\<lparr>opc := if my = gp_max then OLdrDrop else OLock, my_gp_counter := my\<rparr>)
        (on_mem (rmw Release t LStarted (VGp my)) s)"
    using cs p(2) by (auto split: if_splits option.splits)
  define W where "W = rmw_view Release t LStarted (mem s)"
  define p' :: "'w word opc" where "p' = (if my = gp_max then OLdrDrop else OLock)"
  have hS: "hist (mem s') LStarted = hist (mem s) LStarted @ [(VGp my, W)]"
    and hE: "hist (mem s') LEpoch = hist (mem s) LEpoch"
    and hF: "hist (mem s') LFinished = hist (mem s) LFinished"
    by (simp_all add: s' view_simps W_def)
  have W: "mview (mem s) LStarted (last_ix (mem s) LStarted) \<le> W" "cur (mem s) t \<le> W"
    by (simp_all add: W_def rmw_view_def le_supI1 le_supI2)
  have cu: "nstarted s \<le> cur (mem s') t LStarted" "cur (mem s) t \<le> cur (mem s') t"
    by (simp_all add: s' view_simps)
  have ops: "ops s' q = ?r\<lparr>opc := p', my_gp_counter := my\<rparr>"
    by (simp add: s' p'_def)
  have same: "gp_mutex s' = gp_mutex s" "rst_readers s' = rst_readers s" "rst_writer s' = rst_writer s"
    by (simp_all add: s')
  have p': "p' = OLdrDrop \<or> p' = OLock"
    by (simp add: p'_def)
  have ts: "tsteps s s'"
    by (rule tstep_quiet [OF quiet_poll [OF gp inv st]])
  have rd: "rst_writer s = None"
    using locksD [OF gp_invD(2) [OF gp], of q] p by simp
  have lt: "started s < my"
    by (rule inc_no_wrap(2) [OF my])
  have new: "started s' = my" "nstarted s' = Suc (nstarted s)" "last_ix (mem s') LStarted = nstarted s"
    by (simp_all add: mval_def last_ix_def hS)
  note oth = poll_oth [OF inv st]
  note O = gp_invD(3) [OF gp, of q, unfolded poll_view [OF st]]
  have cl: "call_clause ?r (cur (mem s) t)" "counters_ok s (cur (mem s) t)"
    using O by (simp_all add: op_inv_def counter_clause_def p)
  then have cv: "call_view ?r \<le> cur (mem s) t"
    by (simp add: call_clause_def p)
  have c: "counters_ok s' Y" if "bounded (mem s) X" "X \<le> Y" "counters_ok s X" for X Y
    by (rule counters_ok_inc [where q = q, OF ts gp inv hF hS lt W(1) oth _ _ that])
      (use cv W(2) in \<open>simp_all add: ops\<close>)
  show ?thesis
  proof (rule gp_inv_write [OF gp inv st hE])
    show "locks_inv s'"
      by (rule locks_inv_same [where q = q, OF gp_invD(2) [OF gp] oth same]) (use p' p(1) in \<open>auto simp: ops\<close>)
    show "op_inv D s' (ops s' q) (cur (mem s') t)"
    proof -
      have "counters_ok s' (cur (mem s') t)"
        using c [OF wf_memD(4) [OF thread_invD(1) [OF inv]] cu(2) cl(2)] .
      moreover have "j = nstarted s" if "cur (mem s') t LStarted \<le> j" "j < nstarted s'" for j
        using that cu(1) new(2) by simp
      then have "own_id s' (ops s' q) (cur (mem s') t)"
        using new(1, 3) unfolding own_id_def ops by auto
      moreover have "call_clause (ops s' q) (cur (mem s') t)"
        using call_clause_frame [OF cl(1) cu(2)] p(1) p' by (auto simp: call_clause_def ops)
      ultimately show ?thesis
        using p' by (auto simp: op_inv_defs zeroed_def ops)
    qed
    show "counter_clause s' (ops s r) (opview s' r)"
      if r: "r \<noteq> q" and cc: "counter_clause s (ops s r) (opview s r)" and le: "opview s r \<le> opview s' r" for r
    proof -
      have "own_id s' (ops s r) (opview s' r)" if "counted (opc (ops s r))"
        unfolding own_id_def
      proof (intro allI impI; elim conjE)
        fix j
        assume j: "opview s' r LStarted \<le> j" "j < nstarted s'"
        show "my_gp_counter (ops s r) \<le> started_at s' j"
        proof (cases "j = nstarted s")
          case True
          then show ?thesis
            using counted_my_le [OF gp inv that] lt new(1, 3) by simp
        next
          case False
          then have "j < nstarted s" "opview s r LStarted \<le> j"
            using j new(2) le_funD [OF le, of LStarted] by simp_all
          then show ?thesis
            using cc that by (simp add: counter_clause_def own_id_def mval_def hS nth_append)
        qed
      qed
      moreover have "\<not> resetting (opc (ops s r))"
        using gp_invD(2) [OF gp] rd by (simp add: locks_inv_def)
      then have "zeroed s' (opc (ops s r)) (opview s' r)"
        by (auto simp: zeroed_def)
      ultimately show ?thesis
        using cc c [OF opview_bounded [OF inv] le] by (simp add: counter_clause_def)
    qed
    show "covers_clause s' (ops s r) (opview s' r)"
      if "r \<noteq> q" "covers_clause s (ops s r) (opview s r)" "opview s r \<le> opview s' r" for r
    proof (rule covers_clause_frame [OF hE _ _ that(3, 2)])
      show "started s \<le> started s'"
        using lt new(1) by simp
      show "counted (opc (ops s a)) \<and> my_gp_counter (ops s' a) = my_gp_counter (ops s a) \<and>
          call_view (ops s' a) = call_view (ops s a) \<or> started s < my_gp_counter (ops s' a)"
        if "counted (opc (ops s' a))" for a
        using that oth [of a] lt by (cases "a = q") (simp_all add: ops)
    qed
    show "counters_ok s' (lv (mem s') LkRstW)"
      by (rule c [OF wf_memD(7) [OF thread_invD(1) [OF inv]] growsD(3) [OF tsteps_grows [OF ts]]
            gp_invD(5) [OF gp rd]])
  qed (rule same(1))
qed

subsection \<open>Resetting the counters\<close>

lemma gp_inv_zero:
  fixes s s' :: "('w::len, 'g::len) rcu"
  assumes gp: "gp_inv D s" and inv: "thread_inv s" and st: "poll_op q t i wk s = Some s'"
    and p: "opc (ops s q) = OLdrZeroStarted \<or> opc (ops s q) = OLdrZeroFinished"
  shows "gp_inv D s'"
proof -
  let ?x = "if opc (ops s q) = OLdrZeroStarted then LStarted else LFinished"
  let ?p = "if opc (ops s q) = OLdrZeroStarted then OLdrZeroFinished else OLdrUnlock"
  have s': "s' = set_opc q ?p (on_mem (store Relaxed t ?x (VGp 0)) s)"
    using p sync_cases(6) [OF st] by auto
  have res: "resetting (opc (ops s q))"
    using p by auto
  have no: "rst_readers s = {}" "rst_writer s = Some q"
    using writer_no_reader [OF gp_invD(2) [OF gp] res] by simp_all
  have hE: "hist (mem s') LEpoch = hist (mem s) LEpoch"
    using p by (auto simp: s' view_simps)
  note oth = poll_oth [OF inv st]
  have nr: "\<not> reader (opc (ops s r))" "\<not> serial (opc (ops s r))" "\<not> counted (opc (ops s r))" for r
    using gp_invD(2) [OF gp] no(1) pos_rules(2, 3, 4) unfolding locks_inv_def by blast+
  have res_q: "resetting (opc (ops s r)) \<longleftrightarrow> r = q" for r
    using gp_invD(2) [OF gp] no(2) unfolding locks_inv_def by (metis option.inject)
  have ts: "tsteps s s'"
    by (rule tstep_quiet [OF quiet_poll [OF gp inv st]])
  have same: "gp_mutex s' = gp_mutex s" "rst_readers s' = rst_readers s" "rst_writer s' = rst_writer s"
    by (simp_all add: s')
  have ops: "ops s' q = (ops s q)\<lparr>opc := ?p\<rparr>"
    by (simp add: s')
  note O = gp_invD(3) [OF gp, of q, unfolded poll_view [OF st]]
  show ?thesis
  proof (rule gp_inv_write [OF gp inv st hE])
    show "locks_inv s'"
      by (rule locks_inv_same [where q = q, OF gp_invD(2) [OF gp] oth same]) (use p in \<open>auto simp: ops\<close>)
    show "counter_clause s' (ops s r) (opview s' r)" if "r \<noteq> q" for r
    proof -
      have "opc (ops s r) \<noteq> OLdrZeroFinished" "opc (ops s r) \<noteq> OLdrUnlock"
        using res_q [of r] that by auto
      then show ?thesis
        using nr [of r] by (simp add: counter_clause_def zeroed_def)
    qed
    show "covers_clause s' (ops s r) (opview s' r)" for r
      using nr [of r] by (auto simp: covers_clause_def dest: pos_rules(1))
    have "call_clause (ops s q) (cur (mem s) t)"
      using O by (simp add: op_inv_def)
    then have "call_clause (ops s' q) (cur (mem s') t)"
      using call_clause_frame growsD(1) [OF tsteps_grows [OF ts]] p
      by (auto simp: call_clause_def ops intro: order_trans)
    moreover have "zeroed s' ?p (cur (mem s') t)"
    proof (cases "opc (ops s q) = OLdrZeroStarted")
      case True
      then show ?thesis
        by (simp add: zeroed_def s' view_simps mval_def last_ix_def)
    next
      case False
      then have "zeroed s OLdrZeroFinished (cur (mem s) t)"
        using O p by (simp add: op_inv_def counter_clause_def)
      with False show ?thesis
        by (simp add: zeroed_def s' view_simps mval_def last_ix_def)
    qed
    ultimately show "op_inv D s' (ops s' q) (cur (mem s') t)"
      by (simp add: op_inv_defs ops)
  qed (simp_all add: same no)
qed

subsection \<open>Publishing a grace period\<close>

lemma counters_ok_pub:
  fixes s s' :: "('w::len, 'g::len) rcu"
  assumes ts: "tsteps s s'" and inv: "thread_inv s"
    and hS: "hist (mem s') LStarted = hist (mem s) LStarted"
    and hF: "hist (mem s') LFinished = hist (mem s) LFinished @ [(VGp v, W)]"
    and cl: "counted_le s s'" and v: "v \<le> started s"
    and new: "\<And>r. counted (opc (ops s' r)) \<Longrightarrow> my_gp_counter (ops s r) \<le> v \<Longrightarrow> op_done s' (ops s r) W"
    and le: "X \<le> Y" and c: "counters_ok s X"
  shows "counters_ok s' Y"
proof -
  have same: "mval (mem s') LStarted = mval (mem s) LStarted" "mview (mem s') LStarted = mview (mem s) LStarted"
    "last_ix (mem s') LStarted = last_ix (mem s) LStarted"
    by (simp_all add: fun_eq_iff mval_def mview_def last_ix_def hS)
  have old: "finished_at s' j = finished_at s j" "mview (mem s') LFinished j = mview (mem s) LFinished j"
    if "j < nfinished s" for j
    using that by (simp_all add: mval_def mview_def hF nth_append)
  have last: "finished_at s' (nfinished s) = v" "mview (mem s') LFinished (nfinished s) = W"
    "nfinished s' = Suc (nfinished s)"
    by (simp_all add: mval_def mview_def hF)
  have XY: "Y x \<le> j \<Longrightarrow> X x \<le> j" for x j
    using le_funD [OF le] by (rule order_trans)
  have e: "counted (opc (ops s r))" "my_gp_counter (ops s' r) = my_gp_counter (ops s r)"
    "call_view (ops s' r) = call_view (ops s r)" if "counted (opc (ops s' r))" for r
    using cl that by (simp_all add: counted_le_def)
  note C = counters_okD [OF c]
  show ?thesis
    unfolding counters_ok_def same hS
  proof (intro conjI allI impI; elim conjE)
    fix j
    assume j: "Y LFinished \<le> j" "j < nfinished s'"
    have cases: "j = nfinished s \<or> j < nfinished s \<and> X LFinished \<le> j"
      using j(2) XY [OF j(1)] last(3) by (simp add: less_Suc_eq disj_commute)
    then show "finished_at s' j \<le> started s"
      using C(1) [of j] v old last by auto
    fix r
    assume r: "counted (opc (ops s' r))" "my_gp_counter (ops s' r) \<le> finished_at s' j"
    show "op_done s' (ops s' r) (mview (mem s') LFinished j)"
      using cases
    proof (elim disjE conjE)
      assume "j = nfinished s"
      then show ?thesis
        using new [OF r(1)] r(2) e [OF r(1)] op_done_call by (simp add: last) blast
    next
      assume o: "j < nfinished s" "X LFinished \<le> j"
      then have "op_done s (ops s r) (mview (mem s) LFinished j)"
        using C(2) [OF o(2, 1) e(1) [OF r(1)]] r(2) by (simp add: old e(2) [OF r(1)])
      then have "op_done s' (ops s' r) (mview (mem s) LFinished j)"
        using op_done_tsteps [OF ts inv] op_done_call e(3) [OF r(1)] by blast
      then show ?thesis
        by (simp add: old(2) [OF o(1)])
    qed
  next
    fix j
    assume j: "Y LStarted \<le> j" "j < nstarted s"
    then show "started_at s j \<le> started s"
      using C(3) XY by simp
    fix r
    assume r: "counted (opc (ops s' r))" "my_gp_counter (ops s' r) \<le> started_at s j"
    show "call_view (ops s' r) \<le> mview (mem s) LStarted j"
      using C(4) [OF XY [OF j(1)] j(2) e(1) [OF r(1)]] r(2) by (simp add: e(2, 3) [OF r(1)])
  qed
qed

lemma gp_inv_pub:
  fixes s s' :: "('w::len, 'g::len) rcu"
  assumes gp: "gp_inv D s" and inv: "thread_inv s" and st: "poll_op q t i wk s = Some s'"
    and p: "opc (ops s q) = OPub"
  shows "gp_inv D s'"
proof -
  let ?r = "ops s q" and ?e = "eview s (epoch_ix s)"
  have s': "s' = set_opc q OUnlock (on_mem (store Release t LFinished (VGp (gp_started_counter ?r))) s)"
    using sync_cases(8) [OF st] p by simp
  define W where "W = cur (mem s') t"
  have hS: "hist (mem s') LStarted = hist (mem s) LStarted" and hE: "hist (mem s') LEpoch = hist (mem s) LEpoch"
    and hF: "hist (mem s') LFinished = hist (mem s) LFinished @ [(VGp (gp_started_counter ?r), W)]"
    by (simp_all add: s' view_simps W_def)
  have ts: "tsteps s s'"
    by (rule tstep_quiet [OF quiet_poll [OF gp inv st]])
  note g = tsteps_grows [OF ts]
  have inv': "thread_inv s'"
    by (rule thread_inv_tsteps [OF ts inv])
  note oth = poll_oth [OF inv st]
  have ops: "ops s' q = ?r\<lparr>opc := OUnlock\<rparr>"
    by (simp add: s')
  have same: "gp_mutex s' = gp_mutex s" "rst_readers s' = rst_readers s" "rst_writer s' = rst_writer s"
    by (simp_all add: s')
  have rd: "rst_writer s = None"
    using locksD [OF gp_invD(2) [OF gp], of q] p by simp
  note O = gp_invD(3) [OF gp, of q, unfolded poll_view [OF st]]
  have O': "counters_ok s (cur (mem s) t)" "covers s ?r ?e" "completed s ?e (epoch_ix s) (cur (mem s) t)"
    using O by (simp_all add: op_inv_defs p all_scanned_def)
  have cW: "cur (mem s) t \<le> W" and bW: "bounded (mem s') W"
    using growsD(1) [OF g] wf_memD(4) [OF thread_invD(1) [OF inv']] by (simp_all add: W_def)
  have od: "op_done s' (ops s r) W"
    if "counted (opc (ops s r))" "my_gp_counter (ops s r) \<le> gp_started_counter ?r" for r
  proof -
    have "call_view (ops s r) \<le> ?e"
      using O'(2) that unfolding covers_def by blast
    then have "op_done s (ops s r) (cur (mem s) t)"
      using O'(3) unfolding op_done_def by blast
    then show ?thesis
      using op_done_mono [OF op_done_tsteps [OF ts inv] cW bW] by blast
  qed
  have cl: "counted_le s s'"
    by (rule counted_le_others [where q = q, OF oth]) (simp_all add: ops)
  have c: "counters_ok s' Y" if "X \<le> Y" "counters_ok s X" for X Y
  proof (rule counters_ok_pub [OF ts inv hS hF cl _ _ that])
    show "gp_started_counter ?r \<le> started s"
      using O'(2) by (simp add: covers_def)
    show "op_done s' (ops s r) W"
      if "counted (opc (ops s' r))" "my_gp_counter (ops s r) \<le> gp_started_counter ?r" for r
      using od [OF _ that(2)] cl that(1) by (simp add: counted_le_def)
  qed
  show ?thesis
  proof (rule gp_inv_write [OF gp inv st hE])
    show "locks_inv s'"
      by (rule locks_inv_same [where q = q, OF gp_invD(2) [OF gp] oth same]) (simp_all add: ops p)
    show "counter_clause s' (ops s r) (opview s' r)"
      if "counter_clause s (ops s r) (opview s r)" and le: "opview s r \<le> opview s' r" for r
    proof -
      have sa: "mval (mem s') LStarted j = mval (mem s) LStarted j" for j
        by (simp add: mval_def hS)
      have "own_id s (ops s r) (opview s r) \<Longrightarrow> own_id s' (ops s r) (opview s' r)"
        using le_funD [OF le, of LStarted] unfolding own_id_def hS sa by (meson order_trans)
      moreover have "\<not> resetting (opc (ops s r))"
        using gp_invD(2) [OF gp] rd by (simp add: locks_inv_def)
      then have "zeroed s' (opc (ops s r)) (opview s' r)"
        by (auto simp: zeroed_def)
      ultimately show ?thesis
        using that(1) c [OF le] by (simp add: counter_clause_def)
    qed
    show "covers_clause s' (ops s r) (opview s' r)"
      if "covers_clause s (ops s r) (opview s r)" "opview s r \<le> opview s' r" for r
    proof (rule covers_clause_frame [OF hE _ _ that(2, 1)])
      show "started s \<le> started s'"
        by (simp add: mval_def last_ix_def hS)
    qed (use cl in \<open>simp add: counted_le_def\<close>)
    have "op_done s' ?r W"
      by (rule od) (use O'(2) p in \<open>simp_all add: covers_def\<close>)
    then have "op_done s' (ops s' q) W"
      by (rule op_done_call) (simp add: ops)
    moreover have "call_clause ?r W"
      by (rule call_clause_frame [OF _ cW]) (use O in \<open>simp add: op_inv_def\<close>)
    then have "call_clause (ops s' q) W"
      by (simp add: call_clause_def ops p)
    moreover have "epoch_clause D s' ?r W"
      using O epoch_clause_frame [OF ts inv hE cW wf_memD(4) [OF thread_invD(1) [OF inv]] bW]
      by (simp add: op_inv_def)
    then have "epoch_clause D s' (ops s' q) W"
      by (simp add: epoch_clause_def ops p base_ix_def epochs_ok_def)
    ultimately show "op_inv D s' (ops s' q) (cur (mem s') t)"
      using c [OF cW O'(1)] unfolding W_def
      by (simp add: op_inv_def counter_clause_def covers_clause_def done_clause_def zeroed_def ops)
    show "counters_ok s' (lv (mem s') LkRstW)"
      by (rule c [OF growsD(3) [OF g] gp_invD(5) [OF gp rd]])
  qed (rule same(1))
qed

subsection \<open>Changing the epoch id\<close>

text \<open>Only the holder of the mutex speaks of the last epoch message.\<close>

lemma gp_inv_epoch_write:
  fixes s s' :: "('w::len, 'g::len) rcu"
  assumes gp: "gp_inv D s" and inv: "thread_inv s" and st: "poll_op q t i wk s = Some s'"
    and p: "serial (opc (ops s q))"
    and m: "mem s' = store ord t LEpoch (VEpoch e) (mem s)"
    and ops: "ops s' q = (ops s q)\<lparr>opc := OSub, wait_for := w\<rparr>"
    and same: "gp_mutex s' = gp_mutex s" "rst_readers s' = rst_readers s" "rst_writer s' = rst_writer s"
    and rel: "real_wait w \<Longrightarrow> ord = Release"
    and ix: "nepochs s + 1 - wait_base w = base_ix s (opc (ops s q)) (wait_for (ops s q))"
    and eps: "wait_epochs s' w"
  shows "gp_inv D s'"
proof -
  let ?r = "ops s q" and ?Y = "cur (mem s') t"
  have h: "\<forall>x \<in> {LStarted, LFinished}. hist (mem s') x = hist (mem s) x"
    by (simp add: m view_simps)
  then have hS: "hist (mem s') LStarted = hist (mem s) LStarted"
    and hF: "hist (mem s') LFinished = hist (mem s) LFinished"
    by simp_all
  have ts: "tsteps s s'"
    by (rule tstep_quiet [OF quiet_poll [OF gp inv st]])
  note g = tsteps_grows [OF ts]
  have inv': "thread_inv s'"
    by (rule thread_inv_tsteps [OF ts inv])
  note oth = poll_oth [OF inv st]
  note f = poll_op_frame [OF inv st, unfolded op_frame_def]
  have hold: "holder (opc ?r)" "counted (opc ?r)" "live (opc ?r)"
    using p pos_rules by blast+
  have nh: "\<not> holder (opc (ops s r))" if "r \<noteq> q" for r
    using locksD(1) [OF gp_invD(2) [OF gp]] hold(1) that by (metis option.inject)
  note O = gp_invD(3) [OF gp, of q, unfolded poll_view [OF st]]
  have O': "call_clause ?r (cur (mem s) t)" "counter_clause s ?r (cur (mem s) t)" "covers s ?r (cur (mem s) t)"
    using O p by (simp_all add: op_inv_def covers_clause_def)
  have "settled D s (base_ix s (opc ?r) (wait_for ?r)) (cur (mem s) t)"
    using O hold(1) by (simp add: op_inv_def epoch_clause_def)
  then have b: "settled D s (nepochs s + 1 - wait_base w) (cur (mem s) t)"
    by (simp only: ix)
  have le: "cur (mem s) t \<le> ?Y"
    by (rule growsD(1) [OF g])
  have cl: "counted_le s s'"
    by (rule counted_le_others [where q = q, OF oth]) (use f hold in \<open>simp_all add: ops\<close>)
  have fr: "counter_clause s' (ops s r) Y" if "counter_clause s (ops s r) X" "X \<le> Y" for r X Y
    by (rule counter_clause_frame [OF ts inv hS hF cl that(2, 1)])
  have "op_inv D s' (ops s' r) (opview s' r)" for r
  proof (cases "r = q")
    case True
    have "opview s' q = ?Y"
      using poll_op_guard(1) [OF st] f by (simp add: opview_def)
    moreover have "op_inv D s' (ops s' q) ?Y"
    proof -
      have "call_clause (ops s' q) ?Y"
        using call_clause_frame [OF O'(1) le] hold(3) by (simp add: call_clause_def ops)
      moreover have cc: "counter_clause s' ?r ?Y"
        by (rule fr [OF O'(2) le])
      have "covers s' ?r ?Y"
        by (rule covers_frame [OF _ _ le O'(3)])
          (use cl in \<open>simp_all add: mval_def last_ix_def hS counted_le_def\<close>)
      then have cov: "covers s' (ops s' q) ?Y"
        by (simp add: covers_def ops)
      moreover have "settled D s' (nepochs s + 1 - wait_base w) ?Y"
        by (rule settled_mono [OF settled_tsteps [OF ts inv b] le])
      moreover have E: "epoch_ix s' = nepochs s" "nepochs s' = nepochs s + 1"
        by (simp_all add: m view_simps last_ix_def)
      moreover have "nepochs s \<le> ?Y LEpoch"
        by (simp add: m view_simps)
      moreover have "eview s' (nepochs s) = ?Y" if "real_wait w"
        using rel [OF that] by (simp add: m view_simps mview_def)
      ultimately show ?thesis
        using cc hold pos_rules(3) [OF hold(1)] eps
        by (simp add: op_inv_waiting ops counter_clause_def own_id_def scan_clause_def)
    qed
    ultimately show ?thesis
      using True by simp
  next
    case False
    have same: "ops s' r = ops s r"
      by (rule oth [OF False])
    have lr: "opview s r \<le> opview s' r"
      by (rule opview_grows [OF g]) (simp add: same)
    note R = gp_invD(3) [OF gp, of r, unfolded op_inv_def]
    have "\<not> serial (opc (ops s r))" "\<not> waiting (opc (ops s r))" "opc (ops s r) \<noteq> OPub"
      using nh [OF False] pos_rules(1, 2) by auto
    then have "covers_clause s' (ops s r) (opview s' r)" "epoch_clause D s' (ops s r) (opview s' r)"
      using nh [OF False] by (simp_all add: covers_clause_def epoch_clause_def)
    then show ?thesis
      using R call_clause_frame [where r = "ops s r", OF _ lr] fr [where r = r, OF _ lr]
        done_clause_frame [where r = "ops s r", OF ts inv lr opview_bounded [OF inv']]
      by (simp add: op_inv_def same)
  qed
  moreover have "locks_inv s'"
    by (rule locks_inv_same [where q = q, OF gp_invD(2) [OF gp] oth same])
      (use hold pos_rules(3) [OF hold(1)] pos_rules(8) in \<open>auto simp: ops\<close>)
  moreover have "gp_mutex s' = Some q"
    using locksD(1) [OF gp_invD(2) [OF gp] hold(1)] same by simp
  moreover have "counters_ok s' (lv (mem s') LkRstW)" if "rst_writer s' = None"
    using counters_ok_frame [OF ts inv hS hF cl growsD(3) [OF g]] gp_invD(5) [OF gp] that same by simp
  moreover have "freed_inv s'"
    using freed_inv_frame [OF ts inv _ gp_invD(6) [OF gp]] f by simp
  ultimately show ?thesis
    using gp by (simp add: gp_inv_def)
qed

lemma gp_inv_set_epoch:
  fixes s s' :: "('w::len, 'g::len) rcu"
  assumes gp: "gp_inv D s" and inv: "thread_inv s" and st: "poll_op q t i wk s = Some s'"
    and p: "opc (ops s q) \<in> {OReset, OSetAfterReset} \<union> range OSetEpoch"
  shows "gp_inv D s'"
proof -
  have n: "1 \<le> nepochs s" "nepochs s - Suc 0 < nepochs s"
    using nonempty(1) [OF inv] by (simp_all add: Suc_le_eq)
  note O = gp_invD(3) [OF gp, of q]
  note c = sync_cases(9) [OF st]
  consider (inc) e where "opc (ops s q) = OSetEpoch e" | (reset) "opc (ops s q) = OReset"
    | (after) "opc (ops s q) = OSetAfterReset"
    using p by auto
  then show ?thesis
  proof cases
    case inc
    then have s': "s' = upd_op q (\<lambda>r. r\<lparr>opc := OSub, wait_for := WNoOverflow (e + 2)\<rparr>)
        (on_mem (store Release t LEpoch (VEpoch (e + 2))) s)"
      using c by simp
    have "epoch_at s (nepochs s - 1) = e" "e \<noteq> EPOCH_ID_MAX"
      using O by (simp_all add: op_inv_defs inc epochs_ok_def)
    then have "wait_epochs s' (WNoOverflow (e + 2))"
      using n by (simp add: s' view_simps mval_def nth_append)
    then show ?thesis
      by (rule gp_inv_epoch_write [OF gp inv st, rotated -1])
        (use n in \<open>simp_all add: s' inc base_ix_def\<close>)
  next
    case reset
    then have s': "s' = upd_op q (\<lambda>r. r\<lparr>opc := OSub, wait_for := WReset\<rparr>)
        (on_mem (store Relaxed t LEpoch (VEpoch EPOCH_ID_MIN)) s)"
      using c by simp
    have "epoch_at s (nepochs s - 1) = EPOCH_ID_MAX"
      using O by (simp add: op_inv_defs reset epochs_ok_def)
    then have "wait_epochs s' WReset"
      using n by (simp add: s' view_simps mval_def nth_append after_max_def)
    then show ?thesis
      by (rule gp_inv_epoch_write [OF gp inv st, rotated -1])
        (use n in \<open>simp_all add: s' reset base_ix_def\<close>)
  next
    case after
    then have s': "s' = upd_op q (\<lambda>r. r\<lparr>opc := OSub, wait_for := WAfterReset\<rparr>)
        (on_mem (store Release t LEpoch (VEpoch (EPOCH_ID_MIN + 2))) s)"
      using c by simp
    have "after_max s"
      using O by (simp add: op_inv_defs after epochs_ok_def)
    then have "wait_epochs s' WAfterReset"
      using nonempty(1) [OF inv] by (simp add: s' view_simps mval_def nth_append after_max_def)
    then show ?thesis
      by (rule gp_inv_epoch_write [OF gp inv st, rotated -1])
        (use n in \<open>simp_all add: s' after base_ix_def\<close>)
  qed
qed

subsection \<open>Every step of a future\<close>

theorem gp_inv_poll_op:
  fixes s s' :: "('w::len, 'g::len) rcu"
  assumes gp: "gp_inv D s" and inv: "thread_inv s" and st: "poll_op q t i wk s = Some s'"
  shows "gp_inv D s'"
proof (cases "waiting (opc (ops s q))")
  case True
  then show ?thesis
    by (rule gp_inv_wait [OF gp inv st])
next
  case False
  note rules = gp_inv_read_lock gp_inv_idle gp_inv_reset_unlock gp_inv_listen gp_inv_lock gp_inv_check
    gp_inv_fin_fence gp_inv_load_started gp_inv_load_epoch gp_inv_unlock gp_inv_rst_drop gp_inv_inc
    gp_inv_zero gp_inv_pub gp_inv_set_epoch
  have "opc (ops s q) \<notin> {ONone, OReturned, OFinished}"
    using sync_poll [OF st False] by auto
  then show ?thesis
    using False rules [OF gp inv st] by (cases "opc (ops s q)") auto
qed

end
