(* ===== verification/Safety.thy ===== *)
theory Safety
  imports Gp_Counters
begin

text \<open>The invariants hold in every reachable state.\<close>

subsection \<open>The initial state\<close>

lemma init_fields [simp]:
  "mem (init_sys e0 addr) = init_mem e0 addr" "tpc (thr (init_sys e0 addr) t) = Idle"
  "tslot (thr (init_sys e0 addr) t) = None" "held (thr (init_sys e0 addr) t) = {}"
  "ops (init_sys e0 addr) q = init_oper" "free_slots (init_sys e0 addr) = []" "accs (init_sys e0 addr) = {}"
  "gp_mutex (init_sys e0 addr) = None" "rst_writer (init_sys e0 addr) = None"
  "rst_readers (init_sys e0 addr) = {}" "freed (init_sys e0 addr) = {}" "opc init_oper = ONone"
  "old_data (init_sys e0 addr) = {}"
  by (simp_all add: init_sys_def init_oper_def)

lemma init_hist [simp]:
  "hist (init_mem e0 addr) (LSlot sl) = []" "hist (init_mem e0 addr) LLen = [(VLen 0, \<lambda>_. 0)]"
  "hist (init_mem e0 addr) LEpoch = [(VEpoch e0, \<lambda>_. 0)]"
  "hist (init_mem e0 addr) LStarted = [(VGp 0, \<lambda>_. 0)]"
  "hist (init_mem e0 addr) LFinished = [(VGp 0, \<lambda>_. 0)]"
  "hist (init_mem e0 addr) LNum = [(VNum 0, \<lambda>_. 0)]" "hist (init_mem e0 addr) LHasSub = [(VBool False, \<lambda>_. 0)]"
  "hist (init_mem e0 addr) (LPtr b) = [(VPtr (addr b), \<lambda>_. 0)]"
  "hist (init_mem e0 addr) (LClk t) = [(VAccess, \<lambda>_. 0)]"
  "scv (init_mem e0 addr) = (\<lambda>_. 0)" "lv (init_mem e0 addr) k = (\<lambda>_. 0)"
  "tv (init_mem e0 addr) t = \<lparr>vcur = (\<lambda>_. 0), vacq = (\<lambda>_. 0), vrel = (\<lambda>_. 0)\<rparr>"
  by (simp_all add: init_mem_def)

lemma wf_init: "wf_mem (init_mem e0 addr)"
proof (rule wf_memI)
  show "bounded (init_mem e0 addr) (mview (init_mem e0 addr) x i)"
    and "mview (init_mem e0 addr) x i x \<le> i" if "i < length (hist (init_mem e0 addr) x)" for x i
    using that by (cases x; simp add: mview_def bounded_def)+
qed (simp_all add: bounded_def)

lemma thread_inv_init: "valid_epoch e0 \<Longrightarrow> thread_inv (init_sys e0 addr)"
  by (auto simp: thread_inv_def inv_defs wf_init last_ix_def mval_def)

lemma gp_inv_init:
  assumes "start_ok (e0 :: 'w::len word)"
  shows "gp_inv 0 (init_sys e0 addr :: ('w, 'g::len) rcu)"
proof -
  let ?s = "init_sys e0 addr :: ('w, 'g) rcu"
  have "op_inv 0 ?s init_oper X" for X
    by (simp add: op_inv_defs zeroed_def)
  moreover have "settled 0 ?s 0 (\<lambda>_. 0)"
    by (rule settled_base) (simp_all add: base_def fresh_at_def fresh_owner_def)
  moreover have "counters_ok ?s (\<lambda>_. 0)"
    by (simp add: counters_ok_def mval_def last_ix_def)
  moreover have "(2::nat) ^ 3 \<le> 2 ^ LENGTH('w)"
    using assms by (intro power_increasing) (auto simp: start_ok_def)
  ultimately show ?thesis
    using assms by (simp add: gp_inv_def start_ok_def locks_inv_def freed_inv_def last_ix_def)
qed

subsection \<open>Every step\<close>

lemma step_invs:
  assumes inv: "thread_inv s" and gp: "gp_inv D s" and st: "step ev s = Some s'"
  shows "thread_inv s' \<and> gp_inv D s'"
proof -
  have hook: "thread_inv s' \<and> gp_inv D s'" if "hook_steps s s'"
    using hook_steps_inv [OF that inv] gp_inv_hook_steps [OF gp inv that] by blast
  have task: "thread_inv s'" if "task_frame q s s'" for q
    using that thread_inv_quiet [OF inv] by (simp add: task_frame_def)
  show ?thesis
  proof (cases ev)
    case (Poll q t i wk)
    then show ?thesis
      using st thread_inv_quiet [OF inv quiet_poll [OF gp inv]] gp_inv_poll_op [OF gp inv] by auto
  qed (use st hook task in \<open>auto intro: hook_steps_run_hook inv hook_steps_read hook_steps_use hook_steps_drop_guards
      hook_steps_swap task_frame_wait_call task_frame_wait_return task_frame_suspend task_frame_resume
      gp_inv_wait_call [OF gp] gp_inv_wait_return [OF gp] gp_inv_suspend [OF gp] gp_inv_resume [OF gp]\<close>)
qed

lemma reachable_invs: "reachable s \<Longrightarrow> thread_inv s \<and> gp_inv 0 s"
proof (induction rule: reachable.induct)
  case (init e0 addr)
  then show ?case
    by (simp add: gp_inv_init thread_inv_init start_ok_def)
next
  case (step s ev s')
  then show ?case
    using step_invs by blast
qed

lemmas reachable_thread_inv = reachable_invs [THEN conjunct1]
lemmas reachable_gp_inv = reachable_invs [THEN conjunct2]

subsection \<open>What a caller of \<open>synchronize_rcu\<close> gets\<close>

text \<open>The contract rests on the two invariants, in whatever states \<open>R\<close> a use of the crate can reach.\<close>

locale grace_periods =
  fixes R :: "('w::len, 'g::len) rcu \<Rightarrow> bool"
  assumes threads: "R s \<Longrightarrow> thread_inv s"
    and futures: "R s \<Longrightarrow> \<exists>D. gp_inv D s"
begin

lemma op_clauses:
  assumes "R s"
  shows "call_clause (ops s q) (opview s q)" and "done_clause s (ops s q) (opview s q)"
proof -
  obtain D where "gp_inv D s"
    using futures [OF assms] by blast
  from gp_invD(3) [OF this, of q] show "call_clause (ops s q) (opview s q)" and "done_clause s (ops s q) (opview s q)"
    by (simp_all add: op_inv_def)
qed

lemma returned_completed:
  assumes r: "R s" and p: "opc (ops s q) = OReturned"
  obtains V i where "call_view (ops s q) \<le> V" and "completed s V i (opview s q)"
  using op_clauses(2) [OF r, of q] p by (auto simp: done_clause_def op_done_def)

lemma returned_not_held:
  assumes r: "R s" and p: "opc (ops s q) = OReturned" and o: "ts < call_view (ops s q) (LPtr b)"
  shows "(b, ts) \<notin> held (thr s t)"
proof
  assume h: "(b, ts) \<in> held (thr s t)"
  obtain V i where V: "call_view (ops s q) \<le> V" "completed s V i (opview s q)"
    using r p by (rule returned_completed)
  have "V (LPtr b) \<le> ts"
    by (rule completed_not_held [OF threads [OF r] V(2) h])
  then show False
    using o le_funD [OF V(1), of "LPtr b"] by simp
qed

lemma returned_happens_before:
  assumes r: "R s" and p: "opc (ops s q) = OReturned" and a: "a \<in> accs s"
    and o: "a_ts a < call_view (ops s q) (LPtr (a_box a))"
  shows "a_clk a \<le> opview s q (LClk (a_tid a))"
proof -
  obtain V i where V: "call_view (ops s q) \<le> V" "completed s V i (opview s q)"
    using r p by (rule returned_completed)
  show ?thesis
    by (rule completed_happens_before [OF V(2) a order_less_le_trans [OF o le_funD [OF V(1)]]])
qed

lemma olds_before_call:
  assumes "R s" and "live (opc (ops s q))" and "(b, ts) \<in> olds (ops s q)"
  shows "ts < call_view (ops s q) (LPtr b)"
  using op_clauses(1) [OF assms(1), of q] assms(2, 3) by (auto simp: call_clause_def)

lemma freed_not_held:
  assumes r: "R s" and f: "(b, ts) \<in> freed s"
  shows "(b, ts) \<notin> held (thr s t)"
proof
  assume h: "(b, ts) \<in> held (thr s t)"
  have "freed_inv s"
    using futures [OF r] gp_invD(6) by blast
  then obtain V i X where "ts < V (LPtr b)" "completed s V i X"
    using f by (auto simp: freed_inv_def)
  with completed_not_held [OF threads [OF r] _ h] show False
    by fastforce
qed

end

interpretation calls: grace_periods reachable
  by unfold_locales (blast intro: reachable_thread_inv reachable_gp_inv)+

end
