(* ===== verification/Hook_Frame.thy ===== *)
theory Hook_Frame
  imports Safety
begin

text \<open>
  What no hook touches: the other threads, the references and the futures of its own thread, and
  everything of the futures and of user code.
\<close>

definition hook_frame :: "tid \<Rightarrow> ('e, 'g) sys \<Rightarrow> ('e, 'g) sys \<Rightarrow> bool" where
  "hook_frame t s s' \<longleftrightarrow>
     old_data s' = old_data s \<and> freed s' = freed s \<and> ops s' = ops s \<and> accs s' = accs s \<and>
     (\<forall>u. u \<noteq> t \<longrightarrow> thr s' u = thr s u) \<and> held (thr s' t) = held (thr s t) \<and> tops (thr s' t) = tops (thr s t)"

fun_cases before_pollE: "on_before_task_poll p t i s = Some s'"
fun_cases unparkE: "on_thread_unpark p t i s = Some s'"
fun_cases after_pollE: "on_after_task_poll p t i s = Some s'"
fun_cases parkE: "on_thread_park p t i s = Some s'"
fun_cases stopE: "on_thread_stop p t i s = Some s'"

lemmas hookE = before_pollE unparkE after_pollE parkE stopE

lemma hook_frame_notify:
  "thread_epoch_updated_notify_inner skip h n t i s = Some s' \<Longrightarrow> hook_frame t s s'"
  by (cases n) (auto simp: hook_frame_def upd_defs Let_def split: if_splits option.splits)

lemma hook_frame_set_state: "set_state t i st p s = Some s' \<Longrightarrow> hook_frame t s s'"
  by (auto simp: hook_frame_def set_state_def with_slot_def upd_defs Let_def split: if_splits option.splits)

lemma hook_frame_alloc: "alloc_slot t g a s = Some s1 \<Longrightarrow> hook_frame t s (set_tpc t p s1)"
  by (auto simp: hook_frame_def alloc_slot_def alloc_from_free_slot_def alloc_no_free_slots_def init_slot_def
      upd_defs Let_def split: if_splits)

lemma hook_frame_see_epoch: "this_thread_see_new_epoch_id f t i s = Some s' \<Longrightarrow> hook_frame t s s'"
  by (auto simp: hook_frame_def this_thread_see_new_epoch_id_def upd_defs split: if_splits)

lemma hook_frame_own:
  "load_own_state e t i s = Some s' \<Longrightarrow> hook_frame t s s'"
  "clear_own_busy t i s = Some s' \<Longrightarrow> hook_frame t s s'"
  by (auto simp: hook_frame_def load_own_state_def clear_own_busy_def with_slot_def upd_defs Let_def
      split: if_splits option.splits)

lemma hook_frame_simple:
  "hook_frame t s (set_tpc t p s)" "hook_frame t s (start_fence h t s)" "hook_frame t s (notify_fence h t s)"
  "hook_frame t s (set_tpc t p (dealloc_slot t sl s))"
  by (simp_all add: hook_frame_def start_fence_def notify_fence_def dealloc_slot_def upd_defs)

lemmas hook_frames = hook_frame_simple hook_frame_notify hook_frame_set_state hook_frame_alloc
  hook_frame_see_epoch hook_frame_own

lemma hook_frame_run_hook:
  assumes "run_hook h t i s = Some s'"
  shows "hook_frame t s s'"
proof (cases h)
  case BeforePoll
  then have "on_before_task_poll (tpc (thr s t)) t i s = Some s'"
    using assms by simp
  then show ?thesis
    by (rule before_pollE) (auto intro: hook_frames dest!: sym [of "Some s'"] split: if_splits option.splits)
next
  case Unpark
  then have "on_thread_unpark (tpc (thr s t)) t i s = Some s'"
    using assms by simp
  then show ?thesis
    by (rule unparkE) (auto intro: hook_frames dest!: sym [of "Some s'"] split: if_splits option.splits)
next
  case AfterPoll
  then have "on_after_task_poll (tpc (thr s t)) t i s = Some s'"
    using assms by simp
  then show ?thesis
    by (rule after_pollE) (auto intro: hook_frames dest!: sym [of "Some s'"] split: if_splits option.splits)
next
  case Park
  then have "on_thread_park (tpc (thr s t)) t i s = Some s'"
    using assms by simp
  then show ?thesis
    by (rule parkE) (auto intro: hook_frames dest!: sym [of "Some s'"] split: if_splits option.splits)
next
  case Stop
  then have "on_thread_stop (tpc (thr s t)) t i s = Some s'"
    using assms by simp
  then show ?thesis
    by (rule stopE) (auto intro: hook_frames dest!: sym [of "Some s'"] split: if_splits option.splits)
qed

end
