(* ===== verification/Ownership.thy ===== *)
theory Ownership
  imports Hook_Frame
begin

text \<open>
  Who owns a replaced version of a box: it is with an old data object, in a \<open>wait\<close> that is under way, or
  reclaimed, and never in two of these places. The current version of a box is in none of them.
\<close>

subsection \<open>Invariants of the machine\<close>

text \<open>
  The rule every invariant of the machine is proved with: it holds at the start, and steps from
  reachable states keep it.
\<close>

locale machine_invariant =
  fixes I :: "('w::len, 'g::len) rcu \<Rightarrow> bool"
  assumes init: "start_ok e0 \<Longrightarrow> I (init_sys e0 addr)"
    and step: "reachable s \<Longrightarrow> I s \<Longrightarrow> step ev s = Some s' \<Longrightarrow> I s'"
begin

lemma holds: "reachable s \<Longrightarrow> I s"
  by (induction rule: reachable.induct) (auto intro: init step)

lemma holds_run: "reachable s \<Longrightarrow> run evs s = Some s' \<Longrightarrow> I s'"
  by (rule holds [OF reachable_run])

end

interpretation thread: machine_invariant thread_inv
  by unfold_locales (auto intro: thread_inv_init reachable_thread_inv reachable.step simp: start_ok_def)

interpretation gp: machine_invariant "gp_inv 0"
  by unfold_locales (auto intro: gp_inv_init reachable_gp_inv reachable.step)

subsection \<open>Places of a version\<close>

definition in_wait :: "('e, 'g) sys \<Rightarrow> nat \<Rightarrow> (nat \<times> nat) set" where
  "in_wait s q = (if live (opc (ops s q)) then olds (ops s q) else {})"

definition placed :: "('e, 'g) sys \<Rightarrow> nat \<times> nat \<Rightarrow> bool" where
  "placed s x \<longleftrightarrow> x \<in> old_data s \<or> x \<in> freed s \<or> (\<exists>q. x \<in> in_wait s q)"

definition owned_once :: "('e, 'g) sys \<Rightarrow> bool" where
  "owned_once s \<longleftrightarrow> (\<forall>x.
     (x \<in> old_data s \<longrightarrow> x \<notin> freed s) \<and>
     (\<forall>q. x \<in> in_wait s q \<longrightarrow> x \<notin> old_data s \<and> x \<notin> freed s) \<and>
     (\<forall>q r. x \<in> in_wait s q \<and> x \<in> in_wait s r \<longrightarrow> q = r) \<and>
     (placed s x \<longrightarrow> snd x < last_ix (mem s) (LPtr (fst x))))"

lemma owned_onceD:
  assumes "owned_once s"
  shows "x \<in> old_data s \<Longrightarrow> x \<notin> freed s" and "x \<in> in_wait s q \<Longrightarrow> x \<notin> old_data s"
    and "x \<in> in_wait s q \<Longrightarrow> x \<notin> freed s" and "x \<in> in_wait s q \<Longrightarrow> x \<in> in_wait s r \<Longrightarrow> q = r"
    and "placed s x \<Longrightarrow> snd x < last_ix (mem s) (LPtr (fst x))"
  using assms unfolding owned_once_def by blast+

text \<open>A step that moves versions between places and leaves the boxes alone.\<close>

lemma owned_onceI:
  assumes o: "owned_once s" and g: "\<And>b. last_ix (mem s) (LPtr b) \<le> last_ix (mem s') (LPtr b)"
    and p: "\<And>x. placed s' x \<Longrightarrow> placed s x"
    and old: "\<And>x. x \<in> old_data s' \<Longrightarrow> x \<notin> freed s'"
    and wait: "\<And>x q. x \<in> in_wait s' q \<Longrightarrow> x \<notin> old_data s' \<and> x \<notin> freed s'"
    and one: "\<And>x q r. x \<in> in_wait s' q \<Longrightarrow> x \<in> in_wait s' r \<Longrightarrow> q = r"
  shows "owned_once s'"
  unfolding owned_once_def using old wait one
  by (blast intro: order_less_le_trans [OF owned_onceD(5) [OF o p] g])

lemma owned_once_frame:
  assumes o: "owned_once s" and g: "grows (mem s) (mem s')" and h: "old_data s' = old_data s" "freed s' = freed s"
    and w: "\<And>q. in_wait s' q = in_wait s q"
  shows "owned_once s'"
  by (rule owned_onceI [OF o growsD(5) [OF g]])
    (use owned_onceD [OF o] in \<open>simp_all add: placed_def h w\<close>)

lemma synchronize_rcu_live:
  "synchronize_rcu p q t i s = Some s' \<Longrightarrow> live (opc (ops s' q))"
  by (cases p) (auto simp: op_defs Let_def split: if_splits option.splits)

lemma serialized_live:
  "synchronize_rcu_serialized p q t i s = Some s' \<Longrightarrow> live (opc (ops s' q))"
  by (cases p) (auto simp: op_defs Let_def split: if_splits option.splits)

lemma after_wait_live: "live (after_wait w)"
  by (cases w) simp_all

lemma wait_live:
  "wait_for_running_threads_to_see_epoch_id p q t i wk s = Some s' \<Longrightarrow> opc (ops s q) = p \<Longrightarrow> live (opc (ops s' q))"
  by (cases p) (auto simp: op_defs Let_def after_wait_live split: if_splits option.splits)

lemma poll_op_live:
  assumes p: "poll_op q t i wk s = Some s'"
  shows "live (opc (ops s q))" and "live (opc (ops s' q))"
proof -
  show "live (opc (ops s q))"
    using p by (cases "opc (ops s q)") (auto simp: poll_op_def split: if_splits)
  show "live (opc (ops s' q))"
    using p by (cases rule: poll_op_cases) (auto intro: synchronize_rcu_live serialized_live wait_live)
qed

lemma in_wait_poll:
  assumes inv: "thread_inv s" and p: "poll_op q t i wk s = Some s'"
  shows "in_wait s' r = in_wait s r"
  using poll_op_frame [OF inv p] poll_op_live [OF p]
  by (cases "r = q") (simp_all add: op_frame_def in_wait_def)

lemma old_data_user:
  "rcu_box_read t b i s = Some s' \<Longrightarrow> old_data s' = old_data s"
  "use_reference t b ts s = Some s' \<Longrightarrow> old_data s' = old_data s"
  "drop_guards t keep s = Some s' \<Longrightarrow> old_data s' = old_data s"
  by (auto simp: rcu_box_read_def use_reference_def drop_guards_def record_access_def Let_def
      split: option.splits if_splits)

lemma move_task:
  "suspend q t s = Some s' \<Longrightarrow> old_data s' = old_data s \<and> freed s' = freed s \<and> (\<forall>r. in_wait s' r = in_wait s r)"
  "resume q t s = Some s' \<Longrightarrow> old_data s' = old_data s \<and> freed s' = freed s \<and> (\<forall>r. in_wait s' r = in_wait s r)"
  by (auto simp: suspend_def resume_def in_wait_def split: if_splits)

lemma owned_once_step:
  assumes inv: "thread_inv s" and o: "owned_once s" and st: "step ev s = Some s'"
  shows "owned_once s'"
proof -
  note D = owned_onceD [OF o]
  have frame: "owned_once s'" if "gp_frame s s'" "old_data s' = old_data s"
    by (rule owned_once_frame [OF o]) (use that in \<open>simp_all add: gp_frame_def in_wait_def\<close>)
  show ?thesis
  proof (cases ev)
    case (Hook h t i)
    then have "run_hook h t i s = Some s'"
      using st by simp
    then show ?thesis
      using frame hook_frame_run_hook hook_steps_run_hook [OF inv] unfolding hook_steps_def hook_frame_def by blast
  next
    case (Poll q t i wk)
    then have p: "poll_op q t i wk s = Some s'"
      using st by simp
    show ?thesis
      by (rule owned_once_frame [OF o])
        (use poll_op_frame [OF inv p] in_wait_poll [OF inv p] in \<open>simp_all add: op_frame_def calm_def\<close>)
  next
    case (WaitCall q t vs)
    then have o1: "in_wait s q = {}" "vs \<subseteq> old_data s"
      and o2: "old_data s' = old_data s - vs" "freed s' = freed s" "mem s' = mem s"
      and o3: "\<And>r. in_wait s' r = (if r = q then vs else in_wait s r)"
      using st by (auto simp: wait_call_def in_wait_def split: if_splits)
    show ?thesis
    proof (rule owned_onceI [OF o])
      show "placed s' x \<Longrightarrow> placed s x" for x
        using o1(2) by (auto simp: placed_def o2 o3 split: if_splits)
      show "x \<in> in_wait s' r \<Longrightarrow> x \<in> in_wait s' u \<Longrightarrow> r = u" for x r u
        using D(2) [of x] D(4) [of x r u] o1(2) by (auto simp: o3 split: if_splits)
    qed (use D(1-3) o1(2) in \<open>auto simp: o2 o3 split: if_splits\<close>)
  next
    case (WaitReturn q t)
    then have o2: "old_data s' = old_data s" "freed s' = freed s \<union> in_wait s q" "mem s' = mem s"
      and o3: "\<And>r. in_wait s' r = (if r = q then {} else in_wait s r)"
      using st by (auto simp: wait_return_def in_wait_def split: if_splits)
    show ?thesis
    proof (rule owned_onceI [OF o])
      show "placed s' x \<Longrightarrow> placed s x" for x
        by (auto simp: placed_def o2 o3 split: if_splits)
      show "x \<in> in_wait s' r \<Longrightarrow> x \<notin> old_data s' \<and> x \<notin> freed s'" for x r
        using D(2, 3) [of x r] D(4) [of x q r] by (auto simp: o2 o3 split: if_splits)
    qed (use D(1, 2, 4) in \<open>auto simp: o2 o3 split: if_splits\<close>)
  next
    case (Swap t b p)
    let ?v = "(b, last_ix (mem s) (LPtr b))"
    have o2: "old_data s' = insert ?v (old_data s)" "freed s' = freed s" "in_wait s' r = in_wait s r" for r
      using Swap st by (auto simp: rcu_box_swap_def in_wait_def split: if_splits)
    have l: "last_ix (mem s') (LPtr c) = (if c = b then Suc (last_ix (mem s) (LPtr b)) else last_ix (mem s) (LPtr c))" for c
      using Swap st nonempty(6) [OF inv, of b]
      by (auto simp: rcu_box_swap_def last_ix_def view_simps split: if_splits)
    have new: "\<not> placed s ?v"
      using D(5) [of ?v] by auto
    have "placed s' x \<Longrightarrow> x = ?v \<or> placed s x" for x
      by (auto simp: placed_def o2)
    then have "placed s' x \<Longrightarrow> snd x < last_ix (mem s') (LPtr (fst x))" for x
      using D(5) [of x] by (fastforce simp: l)
    then show ?thesis
      using D(1-4) new unfolding owned_once_def placed_def o2 by auto
  next
    case (Read t b i)
    then have "rcu_box_read t b i s = Some s'"
      using st by simp
    then show ?thesis
      using frame hook_steps_read [OF inv] old_data_user(1) unfolding hook_steps_def by blast
  next
    case (UseRef t b ts)
    then have "use_reference t b ts s = Some s'"
      using st by simp
    then show ?thesis
      using frame hook_steps_use [OF inv] old_data_user(2) unfolding hook_steps_def by blast
  next
    case (DropGuards t keep)
    then have "drop_guards t keep s = Some s'"
      using st by simp
    then show ?thesis
      using frame hook_steps_drop_guards [OF inv] old_data_user(3) unfolding hook_steps_def by blast
  next
    case (Suspend q t)
    then have "suspend q t s = Some s'"
      using st by simp
    from move_task(1) [OF this] show ?thesis
      using task_frame_suspend [OF inv \<open>suspend q t s = Some s'\<close>]
      by (intro owned_once_frame [OF o]) (simp_all add: task_frame_def quiet_def)
  next
    case (Resume q t)
    then have "resume q t s = Some s'"
      using st by simp
    from move_task(2) [OF this] show ?thesis
      using task_frame_resume [OF inv \<open>resume q t s = Some s'\<close>]
      by (intro owned_once_frame [OF o]) (simp_all add: task_frame_def quiet_def)
  qed
qed

lemma owned_once_init: "owned_once (init_sys e0 addr)"
  by (simp add: owned_once_def in_wait_def placed_def)

interpretation owned: machine_invariant owned_once
  by unfold_locales (auto intro: owned_once_init owned_once_step reachable_thread_inv)

end
