(* ===== verification/Rcu_Spec.thy ===== *)
theory Rcu_Spec
  imports Ownership
begin

text \<open>
  The abstract specification of read-copy-update the crate documents in \<open>lib.rs\<close>: readers hold
  references to versions, writers retire versions, and a retired version is reclaimed when no reader
  holds it. The machine refines it: each of its steps is a step of the specification or changes
  nothing the specification sees.
\<close>

subsection \<open>The specification\<close>

type_synonym version = "nat \<times> nat"

record rcu_spec =
  readers :: "tid \<Rightarrow> version set"
  retired :: "version set"
  reclaimed :: "version set"

definition spec_init :: rcu_spec where
  "spec_init = \<lparr>readers = (\<lambda>_. {}), retired = {}, reclaimed = {}\<rparr>"

inductive spec_step :: "rcu_spec \<Rightarrow> rcu_spec \<Rightarrow> bool" where
  skip: "spec_step a a"
| acquire: "v \<notin> reclaimed a \<Longrightarrow>
    spec_step a (a\<lparr>readers := (readers a)(t := insert v (readers a t))\<rparr>)"
| release: "spec_step a (a\<lparr>readers := (readers a)(t := readers a t \<inter> keep)\<rparr>)"
| retire: "v \<notin> retired a \<Longrightarrow> v \<notin> reclaimed a \<Longrightarrow> spec_step a (a\<lparr>retired := insert v (retired a)\<rparr>)"
| reclaim: "vs \<subseteq> retired a \<Longrightarrow> (\<And>t. readers a t \<inter> vs = {}) \<Longrightarrow>
    spec_step a (a\<lparr>retired := retired a - vs, reclaimed := reclaimed a \<union> vs\<rparr>)"

inductive_cases spec_stepE: "spec_step a a'"

inductive spec_reachable :: "rcu_spec \<Rightarrow> bool" where
  init: "spec_reachable spec_init"
| step: "spec_reachable a \<Longrightarrow> spec_step a a' \<Longrightarrow> spec_reachable a'"

definition spec_safe :: "rcu_spec \<Rightarrow> bool" where
  "spec_safe a \<longleftrightarrow> retired a \<inter> reclaimed a = {} \<and> (\<forall>t. readers a t \<inter> reclaimed a = {})"

lemma spec_reachable_safe: "spec_reachable a \<Longrightarrow> spec_safe a"
proof (induction rule: spec_reachable.induct)
  case (step a a')
  from step.hyps(2) step.IH show ?case
    by (cases rule: spec_step.cases) (auto simp: spec_safe_def)
qed (simp add: spec_safe_def spec_init_def)

subsection \<open>Refinement\<close>

text \<open>
  A machine that simulates the specification only reaches states whose abstraction the specification
  reaches; so what holds of all states of the specification holds of the machine.
\<close>

locale simulates =
  fixes creach :: "'s \<Rightarrow> bool" and cinit :: "'s \<Rightarrow> bool" and cstep :: "'s \<Rightarrow> 's \<Rightarrow> bool"
    and abs :: "'s \<Rightarrow> rcu_spec"
  assumes creach_induct: "creach s \<Longrightarrow> (\<And>u. cinit u \<Longrightarrow> P u) \<Longrightarrow>
      (\<And>u v. creach u \<Longrightarrow> P u \<Longrightarrow> cstep u v \<Longrightarrow> P v) \<Longrightarrow> P s"
    and abs_init: "cinit s \<Longrightarrow> abs s = spec_init"
    and abs_step: "creach s \<Longrightarrow> cstep s s' \<Longrightarrow> spec_step (abs s) (abs s')"
begin

lemma abs_reachable: "creach s \<Longrightarrow> spec_reachable (abs s)"
  by (erule creach_induct) (auto simp: abs_init intro: spec_reachable.intros abs_step)

lemma abs_safe: "creach s \<Longrightarrow> spec_safe (abs s)"
  by (rule spec_reachable_safe [OF abs_reachable])

end

definition abs_rcu :: "('e, 'g) sys \<Rightarrow> rcu_spec" where
  "abs_rcu s = \<lparr>readers = (\<lambda>t. held (thr s t)), retired = old_data s \<union> (\<Union>q. in_wait s q),
     reclaimed = freed s\<rparr>"

lemma abs_eqI:
  assumes "\<And>t. held (thr s' t) = held (thr s t)" and "old_data s' = old_data s" and "freed s' = freed s"
    and "\<And>q. in_wait s' q = in_wait s q"
  shows "abs_rcu s' = abs_rcu s"
  using assms by (simp add: abs_rcu_def)

lemma spec_step_eq: "a' = a \<Longrightarrow> spec_step a a'"
  by (simp add: spec_step.skip)

lemma in_wait_ops: "ops s' = ops s \<Longrightarrow> in_wait s' q = in_wait s q"
  by (simp add: in_wait_def)

lemma abs_rcu_step:
  assumes r: "reachable s" and st: "step ev s = Some s'"
  shows "spec_step (abs_rcu s) (abs_rcu s')"
proof -
  note inv = reachable_thread_inv [OF r]
  have r': "reachable s'"
    using r st by (rule reachable.step)
  note o = owned.holds [OF r]
  show ?thesis
  proof (cases ev)
    case (Hook h t i)
    then have "hook_frame t s s'"
      using st hook_frame_run_hook by simp
    then have f: "old_data s' = old_data s" "freed s' = freed s" "ops s' = ops s"
        "held (thr s' t) = held (thr s t)" and oth: "\<And>u. u \<noteq> t \<Longrightarrow> thr s' u = thr s u"
      unfolding hook_frame_def by blast+
    have "held (thr s' u) = held (thr s u)" for u
      by (cases "u = t") (simp_all add: f oth)
    then show ?thesis
      by (intro spec_step_eq abs_eqI) (simp_all add: in_wait_ops [OF f(3)] f(1, 2))
  next
    case (Poll q t i wk)
    then have p: "poll_op q t i wk s = Some s'"
      using st by simp
    show ?thesis
      using poll_op_frame [OF inv p] in_wait_poll [OF inv p]
      by (intro spec_step_eq abs_eqI) (simp_all add: op_frame_def)
  next
    case (WaitCall q t vs)
    then have p: "in_wait s q = {}" "vs \<subseteq> old_data s" "old_data s' = old_data s - vs" "freed s' = freed s"
      and w: "\<And>r. in_wait s' r = (if r = q then vs else in_wait s r)"
      and h: "\<And>u. held (thr s' u) = held (thr s u)"
      using st by (auto simp: wait_call_def in_wait_def split: if_splits)
    have "in_wait s r \<subseteq> in_wait s' r" "in_wait s' r \<subseteq> vs \<union> in_wait s r" "vs = in_wait s' q" for r
      using p(1) by (cases "r = q"; simp add: w)+
    then have "old_data s' \<union> (\<Union>r. in_wait s' r) = old_data s \<union> (\<Union>r. in_wait s r)"
      unfolding p(3) using p(2) by blast
    then show ?thesis
      by (intro spec_step_eq) (simp add: abs_rcu_def h p)
  next
    case (WaitReturn q t)
    then have p: "opc (ops s q) = OReturned" "old_data s' = old_data s" "freed s' = freed s \<union> in_wait s q"
      and w: "\<And>r. in_wait s' r = (if r = q then {} else in_wait s r)"
      and h: "\<And>u. held (thr s' u) = held (thr s u)"
      using st by (auto simp: wait_return_def in_wait_def split: if_splits)
    let ?a = "abs_rcu s"
    have "in_wait s' r = in_wait s r - in_wait s q" for r
      using owned_onceD(4) [OF o] by (cases "r = q"; simp add: w; blast)
    moreover have "old_data s \<inter> in_wait s q = {}"
      using owned_onceD(2) [OF o] by blast
    ultimately have "old_data s' \<union> (\<Union>r. in_wait s' r) = (old_data s \<union> (\<Union>r. in_wait s r)) - in_wait s q"
      unfolding p(2) by blast
    then have "abs_rcu s' = ?a\<lparr>retired := retired ?a - in_wait s q, reclaimed := reclaimed ?a \<union> in_wait s q\<rparr>"
      by (simp add: abs_rcu_def h p)
    moreover have "readers ?a u \<inter> in_wait s q = {}" for u
      using calls.returned_not_held [OF r p(1)] calls.olds_before_call [OF r, of q] p(1)
      by (auto simp: abs_rcu_def in_wait_def)
    ultimately show ?thesis
      using spec_step.reclaim [of "in_wait s q" ?a] by (auto simp: abs_rcu_def)
  next
    case (Suspend q t)
    then have p: "suspend q t s = Some s'"
      using st by simp
    then have "held (thr s' u) = held (thr s u)" for u
      by (auto simp: suspend_def split: if_splits)
    with move_task(1) [OF p] show ?thesis
      by (intro spec_step_eq abs_eqI) simp_all
  next
    case (Resume q t)
    then have p: "resume q t s = Some s'"
      using st by simp
    then have "held (thr s' u) = held (thr s u)" for u
      by (auto simp: resume_def split: if_splits)
    with move_task(2) [OF p] show ?thesis
      by (intro spec_step_eq abs_eqI) simp_all
  next
    case (Read t b i)
    then have p: "rcu_box_read t b i s = Some s'"
      using st by simp
    then have h: "held (thr s' u) = (if u = t then insert (b, i) (held (thr s t)) else held (thr s u))"
      and o: "ops s' = ops s" "freed s' = freed s" for u
      by (auto simp: rcu_box_read_def record_access_def on_mem_def Let_def split: option.splits if_splits)
    have "(b, i) \<notin> freed s"
      using calls.freed_not_held [OF r', of b i t] by (auto simp: h o)
    then have "spec_step (abs_rcu s) ((abs_rcu s)\<lparr>readers := (readers (abs_rcu s))(t := insert (b, i) (readers (abs_rcu s) t))\<rparr>)"
      by (intro spec_step.acquire) (simp add: abs_rcu_def)
    moreover have "abs_rcu s' = (abs_rcu s)\<lparr>readers := (readers (abs_rcu s))(t := insert (b, i) (readers (abs_rcu s) t))\<rparr>"
      using old_data_user(1) [OF p] by (simp add: abs_rcu_def h o in_wait_ops [OF o(1)] fun_eq_iff)
    ultimately show ?thesis
      by simp
  next
    case (UseRef t b ts)
    then have p: "use_reference t b ts s = Some s'"
      using st by simp
    then have h: "thr s' = thr s" "ops s' = ops s" "freed s' = freed s"
      by (auto simp: use_reference_def record_access_def on_mem_def split: option.splits if_splits)
    with old_data_user(2) [OF p] show ?thesis
      by (intro spec_step_eq abs_eqI) (simp_all add: in_wait_ops [OF h(2)])
  next
    case (DropGuards t keep)
    then have p: "s' = s\<lparr>thr := (thr s)(t := (thr s t)\<lparr>held := held (thr s t) \<inter> keep\<rparr>)\<rparr>"
      using st by (auto simp: drop_guards_def split: if_splits)
    have "abs_rcu s' = (abs_rcu s)\<lparr>readers := (readers (abs_rcu s))(t := readers (abs_rcu s) t \<inter> keep)\<rparr>"
      by (simp add: abs_rcu_def p in_wait_def fun_eq_iff)
    then show ?thesis
      by (simp add: spec_step.release)
  next
    case (Swap t b v)
    let ?v = "(b, last_ix (mem s) (LPtr b))"
    have p: "old_data s' = insert ?v (old_data s)" "freed s' = freed s" "in_wait s' r = in_wait s r" "thr s' = thr s" for r
      using Swap st by (auto simp: rcu_box_swap_def in_wait_def split: if_splits)
    have "\<not> placed s ?v"
      using owned_onceD(5) [OF o, of ?v] by auto
    then have "spec_step (abs_rcu s) ((abs_rcu s)\<lparr>retired := insert ?v (retired (abs_rcu s))\<rparr>)"
      by (intro spec_step.retire) (auto simp: abs_rcu_def placed_def)
    then show ?thesis
      by (simp add: abs_rcu_def p)
  qed
qed

interpretation machine: simulates "reachable :: ('w::len, 'g::len) rcu \<Rightarrow> bool"
  "\<lambda>s. \<exists>e0 addr. start_ok e0 \<and> s = init_sys e0 addr" "\<lambda>s s'. \<exists>ev. step ev s = Some s'" abs_rcu
proof unfold_locales
  fix s :: "('w::len, 'g::len) rcu" and P :: "('w, 'g) rcu \<Rightarrow> bool"
  assume "reachable s" and "\<And>u. \<exists>e0 addr. start_ok e0 \<and> u = init_sys e0 addr \<Longrightarrow> P u"
    and "\<And>u v. reachable u \<Longrightarrow> P u \<Longrightarrow> \<exists>ev. step ev u = Some v \<Longrightarrow> P v"
  then show "P s"
    by (induction rule: reachable.induct) blast+
next
  fix s :: "('w::len, 'g::len) rcu"
  assume "\<exists>e0 addr. start_ok e0 \<and> s = init_sys e0 addr"
  then show "abs_rcu s = spec_init"
    by (auto simp: abs_rcu_def spec_init_def in_wait_def)
qed (auto intro: abs_rcu_step)

end
