(* ===== verification/Box_Frame.thy ===== *)
theory Box_Frame
  imports Rcu_Spec
begin

text \<open>
  The versions of the boxes: only \<open>RcuBox::swap\<close> makes a new one, and only the return of \<open>wait\<close> gives any back.
\<close>

definition version_ptr :: "('e, 'g) sys \<Rightarrow> nat \<times> nat \<Rightarrow> nat" where
  "version_ptr s x = val_ptr (mval (mem s) (LPtr (fst x)) (snd x))"

subsection \<open>What a step does to the versions\<close>

definition versions :: "('e, 'g) sys \<Rightarrow> (nat \<times> nat) set" where
  "versions s = {x. snd x < length (hist (mem s) (LPtr (fst x))) \<and> x \<notin> freed s}"

definition same_boxes :: "('e, 'g) sys \<Rightarrow> ('e, 'g) sys \<Rightarrow> bool" where
  "same_boxes s s' \<longleftrightarrow> (\<forall>b. hist (mem s') (LPtr b) = hist (mem s) (LPtr b))"

lemma same_boxes_refl [simp]: "same_boxes s s"
  by (simp add: same_boxes_def)

lemma same_boxesD:
  assumes "same_boxes s s'" and "freed s' = freed s"
  shows "versions s' = versions s" and "version_ptr s' = version_ptr s"
  using assms by (auto simp: same_boxes_def versions_def version_ptr_def mval_def fun_eq_iff)

text \<open>The hooks know nothing of boxes and of the grace period counters.\<close>

definition hook_keeps :: "('e, 'g) sys \<Rightarrow> ('e, 'g) sys \<Rightarrow> bool" where
  "hook_keeps s s' \<longleftrightarrow> rst_waiters s' = rst_waiters s \<and> (\<forall>x \<in> insert LStarted (range LPtr). hist (mem s') x = hist (mem s) x)"

lemma hook_keeps_notify:
  "thread_epoch_updated_notify_inner skip h n t i s = Some s' \<Longrightarrow> hook_keeps s s'"
  by (cases n) (auto simp: hook_keeps_def upd_defs view_simps Let_def split: if_splits option.splits)

lemma hook_keeps_set_state: "set_state t i st p s = Some s' \<Longrightarrow> hook_keeps s s'"
  by (auto simp: hook_keeps_def set_state_def with_slot_def upd_defs view_simps Let_def split: if_splits option.splits)

lemma hook_keeps_alloc: "alloc_slot t g a s = Some s1 \<Longrightarrow> hook_keeps s (set_tpc t p s1)"
  by (auto simp: hook_keeps_def alloc_slot_def alloc_from_free_slot_def alloc_no_free_slots_def init_slot_def
      upd_defs view_simps Let_def split: if_splits)

lemma hook_keeps_see_epoch: "this_thread_see_new_epoch_id f t i s = Some s' \<Longrightarrow> hook_keeps s s'"
  by (auto simp: hook_keeps_def this_thread_see_new_epoch_id_def upd_defs view_simps split: if_splits)

lemma hook_keeps_own:
  "load_own_state e t i s = Some s' \<Longrightarrow> hook_keeps s s'"
  "clear_own_busy t i s = Some s' \<Longrightarrow> hook_keeps s s'"
  by (auto simp: hook_keeps_def load_own_state_def clear_own_busy_def with_slot_def upd_defs view_simps Let_def
      split: if_splits option.splits)

lemma hook_keeps_simple:
  "hook_keeps s (set_tpc t p s)" "hook_keeps s (start_fence h t s)" "hook_keeps s (notify_fence h t s)"
  "hook_keeps s (set_tpc t p (dealloc_slot t sl s))"
  by (simp_all add: hook_keeps_def start_fence_def notify_fence_def dealloc_slot_def upd_defs view_simps)

lemmas hook_keeps_all = hook_keeps_simple hook_keeps_notify hook_keeps_set_state hook_keeps_alloc
  hook_keeps_see_epoch hook_keeps_own

lemma hook_keeps_run_hook: "run_hook h t i s = Some s' \<Longrightarrow> hook_keeps s s'"
  by (cases h; simp; elim hookE)
    (auto intro: hook_keeps_all dest!: sym [of "Some s'"] split: if_splits option.splits)

lemma same_boxes_run_hook: "run_hook h t i s = Some s' \<Longrightarrow> same_boxes s s'"
  using hook_keeps_run_hook [of h t i s s'] by (simp add: hook_keeps_def same_boxes_def)

lemma same_boxes_poll_op:
  assumes "poll_op q t i wk s = Some s'"
  shows "same_boxes s s'"
  using assms
proof (cases rule: poll_op_cases)
  case 1
  show ?thesis
  proof (cases "reset_leader (opc (ops s q)) q t s = None \<and> reset_follower (opc (ops s q)) q t s = None")
    case True
    then show ?thesis
      using 1 by (cases "opc (ops s q)")
        (auto simp: same_boxes_def op_defs Let_def view_simps split: if_splits option.splits)
  next
    case False
    with 1 have "reset_leader (opc (ops s q)) q t s = Some s' \<or> reset_follower (opc (ops s q)) q t s = Some s'"
      by (cases "opc (ops s q)") (simp_all split: option.splits if_splits)
    then show ?thesis
      by (cases "opc (ops s q)") (auto simp: same_boxes_def op_defs view_simps split: if_splits)
  qed
next
  case 2
  then show ?thesis
    by (cases "opc (ops s q)") (auto simp: same_boxes_def Let_def view_simps split: if_splits)
next
  case 3
  then show ?thesis
    by (cases "opc (ops s q)") (auto simp: same_boxes_def op_defs Let_def view_simps split: if_splits option.splits)
qed

lemma same_boxes_step:
  assumes r: "reachable s" and st: "step ev s = Some s'" and n: "\<not> (\<exists>t b p. ev = Swap t b p)"
  shows "same_boxes s s'"
proof (cases ev)
  case (Hook h t i)
  then show ?thesis
    using st by (auto intro: same_boxes_run_hook)
next
  case (Poll q t i wk)
  then show ?thesis
    using st by (auto intro: same_boxes_poll_op)
next
  case (Read t b i)
  then show ?thesis
    using st by (auto simp: rcu_box_read_def record_access_def same_boxes_def view_simps Let_def split: if_splits option.splits)
next
  case (UseRef t b ts)
  then show ?thesis
    using st by (auto simp: use_reference_def record_access_def same_boxes_def view_simps split: if_splits option.splits)
qed (use st n in \<open>auto simp: wait_call_def wait_return_def suspend_def resume_def drop_guards_def same_boxes_def
    view_simps split: if_splits\<close>)

lemma same_freed_step:
  assumes r: "reachable s" and st: "step ev s = Some s'" and n: "\<not> (\<exists>q t. ev = WaitReturn q t)"
  shows "freed s' = freed s"
proof (cases ev)
  case (Hook h t i)
  then show ?thesis
    using st hook_frame_run_hook [of h t i s s'] by (simp add: hook_frame_def)
next
  case (Poll q t i wk)
  then show ?thesis
    using st poll_op_frame [OF reachable_thread_inv [OF r], of q t i wk s'] by (simp add: op_frame_def)
next
  case (Read t b i)
  then show ?thesis
    using st by (auto simp: rcu_box_read_def record_access_def Let_def split: if_splits option.splits)
next
  case (UseRef t b ts)
  then show ?thesis
    using st by (auto simp: use_reference_def record_access_def split: if_splits option.splits)
qed (use st n in \<open>auto simp: wait_call_def suspend_def resume_def drop_guards_def rcu_box_swap_def
    split: if_splits\<close>)

lemma versions_step:
  assumes r: "reachable s" and st: "step ev s = Some s'"
    and n: "\<not> (\<exists>t b p. ev = Swap t b p)" "\<not> (\<exists>q t. ev = WaitReturn q t)"
  shows "versions s' = versions s" and "version_ptr s' = version_ptr s"
  using same_boxesD [OF same_boxes_step [OF r st n(1)] same_freed_step [OF r st n(2)]] .

lemma versions_swap:
  assumes r: "reachable s" and st: "rcu_box_swap t b p s = Some s'"
  defines "x \<equiv> (b, last_ix (mem s') (LPtr b))"
  shows "versions s' = insert x (versions s)" and "x \<notin> versions s" and "version_ptr s' x = p"
    and "y \<in> versions s \<Longrightarrow> version_ptr s' y = version_ptr s y"
proof -
  have h: "\<exists>V. hist (mem s') (LPtr b) = hist (mem s) (LPtr b) @ [(VPtr p, V)]"
      "\<And>c. c \<noteq> b \<Longrightarrow> hist (mem s') (LPtr c) = hist (mem s) (LPtr c)" and f: "freed s' = freed s"
    using st by (auto simp: rcu_box_swap_def view_simps split: if_splits)
  then obtain V where h: "hist (mem s') (LPtr b) = hist (mem s) (LPtr b) @ [(VPtr p, V)]"
      "\<And>c. c \<noteq> b \<Longrightarrow> hist (mem s') (LPtr c) = hist (mem s) (LPtr c)"
    by blast
  have x: "x = (b, length (hist (mem s) (LPtr b)))"
    by (simp add: x_def last_ix_def h)
  have "placed s y \<Longrightarrow> snd y < length (hist (mem s) (LPtr (fst y)))" for y
    using owned_onceD(5) [OF owned.holds [OF r], of y] by (auto simp: last_ix_def)
  then have nf: "x \<notin> freed s"
    using x by (fastforce simp: placed_def)
  show "x \<notin> versions s"
    by (simp add: versions_def x)
  have "y \<in> versions s' \<longleftrightarrow> y \<in> insert x (versions s)" for y
    using nf by (cases "fst y = b"; cases y) (auto simp: versions_def h f x)
  then show "versions s' = insert x (versions s)"
    by blast
  show "version_ptr s' x = p"
    by (simp add: version_ptr_def mval_def x h)
  show "y \<in> versions s \<Longrightarrow> version_ptr s' y = version_ptr s y"
    by (cases "fst y = b") (auto simp: version_ptr_def mval_def h versions_def nth_append)
qed

lemma versions_wait_return:
  assumes r: "reachable s" and st: "wait_return q t s = Some s'"
  shows "versions s' = versions s - olds (ops s q)" and "olds (ops s q) \<subseteq> versions s"
    and "version_ptr s' = version_ptr s"
proof -
  have o: "opc (ops s q) = OReturned" and m: "mem s' = mem s" "freed s' = freed s \<union> olds (ops s q)"
    using st by (auto simp: wait_return_def split: if_splits)
  have w: "in_wait s q = olds (ops s q)"
    by (simp add: in_wait_def o)
  show "versions s' = versions s - olds (ops s q)"
    by (auto simp: versions_def m)
  show "version_ptr s' = version_ptr s"
    by (simp add: version_ptr_def fun_eq_iff m)
  have "x \<in> versions s" if "x \<in> olds (ops s q)" for x
    using owned_onceD(3) [OF owned.holds [OF r], of x q] owned_onceD(5) [OF owned.holds [OF r], of x] that w
    by (fastforce simp: versions_def last_ix_def placed_def)
  then show "olds (ops s q) \<subseteq> versions s"
    by blast
qed

subsection \<open>References are to versions\<close>

lemma hook_frame_held: "run_hook h t i s = Some s' \<Longrightarrow> held (thr s' u) = held (thr s u)"
  using hook_frame_run_hook [of h t i s s'] by (cases "u = t") (simp_all add: hook_frame_def)

lemma held_step:
  assumes r: "reachable s" and st: "step ev s = Some s'" and h: "x \<in> held (thr s' u)"
  shows "x \<in> held (thr s u) \<or> snd x < length (hist (mem s) (LPtr (fst x)))"
proof (cases ev)
  case (Hook h t i)
  then show ?thesis
    using st h hook_frame_held [of _ t i s s' u] by auto
next
  case (Poll q t i wk)
  then show ?thesis
    using st h poll_op_frame [OF reachable_thread_inv [OF r], of q t i wk s'] by (simp add: op_frame_def)
next
  case (Read t b i)
  then show ?thesis
    using st h by (auto simp: rcu_box_read_def readable_def record_access_def Let_def split: if_splits option.splits)
next
  case (UseRef t b ts)
  then show ?thesis
    using st h by (auto simp: use_reference_def record_access_def split: if_splits option.splits)
qed (use st h in \<open>auto simp: wait_call_def wait_return_def suspend_def resume_def drop_guards_def rcu_box_swap_def
    split: if_splits\<close>)

definition held_exist :: "('e, 'g) sys \<Rightarrow> bool" where
  "held_exist s \<longleftrightarrow> (\<forall>t. \<forall>x \<in> held (thr s t). snd x < length (hist (mem s) (LPtr (fst x))))"

lemma box_grows_step:
  assumes r: "reachable s" and st: "step ev s = Some s'"
  shows "\<exists>ys. hist (mem s') (LPtr b) = hist (mem s) (LPtr b) @ ys"
proof (cases "\<exists>t b p. ev = Swap t b p")
  case True
  then show ?thesis
    using st by (auto simp: rcu_box_swap_def view_simps split: if_splits)
next
  case False
  then show ?thesis
    using same_boxes_step [OF r st] by (simp add: same_boxes_def)
qed

interpretation held: machine_invariant held_exist
proof unfold_locales
  fix s s' :: "('w::len, 'g::len) rcu" and ev
  assume r: "reachable s" and h: "held_exist s" and st: "step ev s = Some s'"
  have "snd x < length (hist (mem s) (LPtr (fst x)))" if "x \<in> held (thr s' u)" for x u
    using held_step [OF r st that] h by (auto simp: held_exist_def)
  then show "held_exist s'"
    using box_grows_step [OF r st] unfolding held_exist_def by (metis length_append trans_less_add1)
qed (simp add: held_exist_def)

text \<open>What a thread holds a reference to, or has just read, has not been given back.\<close>

lemma held_versions:
  assumes r: "reachable s" and h: "x \<in> held (thr s t)"
  shows "x \<in> versions s"
  using calls.freed_not_held [OF r, of "fst x" "snd x" t] held.holds [OF r] h by (auto simp: held_exist_def versions_def)

subsection \<open>Publication\<close>

lemma box_grows_run:
  "reachable s \<Longrightarrow> run evs s = Some s' \<Longrightarrow> \<exists>ys. hist (mem s') (LPtr b) = hist (mem s) (LPtr b) @ ys"
proof (induction evs arbitrary: s)
  case (Cons ev evs)
  then obtain s1 where s1: "step ev s = Some s1" "run evs s1 = Some s'"
    by (auto split: option.splits)
  obtain ys zs where "hist (mem s1) (LPtr b) = hist (mem s) (LPtr b) @ ys" "hist (mem s') (LPtr b) = hist (mem s1) (LPtr b) @ zs"
    using box_grows_step [OF Cons.prems(1) s1(1)] Cons.IH [OF reachable.step [OF Cons.prems(1) s1(1)] s1(2)] by blast
  then show ?case
    by simp
qed simp

text \<open>The message of a swap carries what the swapping thread knows; whoever reads it learns that.\<close>

lemma swap_publishes:
  assumes st: "rcu_box_swap t b p s = Some s'"
  shows "cur (mem s) t \<le> mview (mem s') (LPtr b) (last_ix (mem s') (LPtr b))"
  using st by (auto simp: rcu_box_swap_def mview_def last_ix_def view_simps rmw_view_def le_supI1 le_supI2 split: if_splits)

lemma read_learns:
  assumes st: "rcu_box_read t b i s = Some s'"
  shows "mview (mem s) (LPtr b) i \<le> cur (mem s') t"
  using st by (auto simp: rcu_box_read_def record_access_def view_simps Let_def le_supI1 le_supI2 split: option.splits if_splits)

lemma published_before_read:
  assumes r: "reachable s" and sw: "rcu_box_swap t b p s = Some s1" and run: "run evs s1 = Some s2"
    and rd: "rcu_box_read u b (last_ix (mem s1) (LPtr b)) s2 = Some s3"
  shows "cur (mem s) t \<le> cur (mem s3) u"
proof -
  have r1: "reachable s1"
    using reachable.step [OF r, of "Swap t b p"] sw by simp
  have "hist (mem s1) (LPtr b) \<noteq> []"
    using sw by (auto simp: rcu_box_swap_def view_simps split: if_splits)
  then have "mview (mem s2) (LPtr b) (last_ix (mem s1) (LPtr b)) = mview (mem s1) (LPtr b) (last_ix (mem s1) (LPtr b))"
    using box_grows_run [OF r1 run, of b] by (auto simp: mview_def last_ix_def nth_append)
  then show ?thesis
    using swap_publishes [OF sw] read_learns [OF rd] by simp
qed

end
