(* ===== verification/Progress.thy ===== *)
theory Progress
  imports Rcu_Spec
begin

text \<open>
  No hook panics and nothing gets stuck inside the crate: from every reachable state a thread that is
  inside a hook, and a future that is being polled, has a next step, unless it waits for a lock, for
  the reset leader, or for a notifier that holds the subscriber information.
\<close>

subsection \<open>More of what hooks do\<close>

abbreviation clearing :: "('e, 'g) sys \<Rightarrow> tid \<Rightarrow> bool" where
  "clearing s t \<equiv> \<exists>h. tpc (thr s t) = Notifying h NClear"

definition hook_side :: "tid \<Rightarrow> ('w::len, 'g::len) rcu \<Rightarrow> ('w, 'g) rcu \<Rightarrow> bool" where
  "hook_side t s s' \<longleftrightarrow>
     (if clearing s t then info_writer s' = None
      else info_writer s' = info_writer s \<or> info_writer s' = Some t \<and> clearing s' t) \<and>
     (slots_len s' = slots_len s \<or> slots_len s < max_slots \<and> slots_len s' = Suc (slots_len s)) \<and>
     (\<forall>e w. tpc (thr s' t) = AfterStore e w \<longrightarrow> (\<exists>sl i. tslot (thr s t) = Some sl \<and>
        readable t (LSlot sl) i (mem s) \<and> w = word_at s sl i \<and> tpc (thr s t) = AfterLoad e))"

lemma slots_len_simps [simp]:
  "slots_len (set_tpc t p s) = slots_len s" "slots_len (set_tslot t x s) = slots_len s"
  "slots_len (upd_op q f s) = slots_len s" "slots_len (set_opc q opn s) = slots_len s"
  "slots_len (on_mem g s) = val_len (mval (g (mem s)) LLen (last_ix (g (mem s)) LLen))"
  by (simp_all add: slots_len_def upd_defs)

lemma hook_side_notify:
  "thread_epoch_updated_notify_inner skip h n t i s = Some s' \<Longrightarrow> tpc (thr s t) = Notifying h n \<Longrightarrow> hook_side t s s'"
  by (cases n; cases h)
    (auto simp: hook_side_def upd_defs slots_len_def mval_def last_ix_def view_simps Let_def
      split: if_splits option.splits)

lemma hook_side_set_state:
  "set_state t i st p s = Some s' \<Longrightarrow> \<not> clearing s t \<Longrightarrow> (\<And>e w. p \<noteq> AfterStore e w) \<Longrightarrow> hook_side t s s'"
  by (auto simp: hook_side_def set_state_def with_slot_def upd_defs slots_len_def mval_def last_ix_def
      view_simps Let_def split: if_splits option.splits)

lemma hook_side_alloc:
  assumes "alloc_slot t g a s = Some s1" "\<not> clearing s t" "\<And>e w. p \<noteq> AfterStore e w"
  shows "hook_side t s (set_tpc t p s1)"
proof -
  have "info_writer s1 = info_writer s"
    using assms(1) by (auto simp: alloc_slot_def alloc_from_free_slot_def alloc_no_free_slots_def init_slot_def
        upd_defs Let_def split: if_splits)
  moreover have "slots_len s1 = slots_len s \<or> slots_len s < max_slots \<and> slots_len s1 = Suc (slots_len s)"
    using assms(1) by (auto simp: alloc_slot_def alloc_from_free_slot_def alloc_no_free_slots_def init_slot_def
        upd_defs slots_len_def mval_def last_ix_def view_simps Let_def split: if_splits)
  ultimately show ?thesis
    using assms(2, 3) by (simp add: hook_side_def set_tpc_def slots_len_def)
qed

lemma hook_side_see_epoch:
  "this_thread_see_new_epoch_id f t i s = Some s' \<Longrightarrow> \<not> clearing s t \<Longrightarrow> (\<And>x e w. f x \<noteq> AfterStore e w) \<Longrightarrow>
    hook_side t s s'"
  by (auto simp: hook_side_def this_thread_see_new_epoch_id_def upd_defs slots_len_def mval_def last_ix_def
      view_simps split: if_splits)

lemma hook_side_own:
  "load_own_state e t i s = Some s' \<Longrightarrow> tpc (thr s t) = AfterLoad e \<Longrightarrow> hook_side t s s'"
  "clear_own_busy t i s = Some s' \<Longrightarrow> \<not> clearing s t \<Longrightarrow> hook_side t s s'"
  by (auto simp: hook_side_def load_own_state_def clear_own_busy_def with_slot_def upd_defs slots_len_def
      mval_def last_ix_def view_simps Let_def split: if_splits option.splits)

lemma hook_side_simple:
  "\<not> clearing s t \<Longrightarrow> (\<And>e w. p \<noteq> AfterStore e w) \<Longrightarrow> hook_side t s (set_tpc t p s)"
  "\<not> clearing s t \<Longrightarrow> hook_side t s (start_fence h t s)" "\<not> clearing s t \<Longrightarrow> hook_side t s (notify_fence h t s)"
  "\<not> clearing s t \<Longrightarrow> (\<And>e w. p \<noteq> AfterStore e w) \<Longrightarrow> hook_side t s (set_tpc t p (dealloc_slot t sl s))"
  by (simp_all add: hook_side_def start_fence_def notify_fence_def dealloc_slot_def upd_defs slots_len_def
      mval_def last_ix_def view_simps)

lemmas hook_sides = hook_side_simple hook_side_notify hook_side_set_state hook_side_alloc
  hook_side_see_epoch hook_side_own

lemma hook_side_run_hook:
  assumes "run_hook h t i s = Some s'"
  shows "hook_side t s s'"
proof (cases h)
  case BeforePoll
  then have "on_before_task_poll (tpc (thr s t)) t i s = Some s'"
    using assms by simp
  then show ?thesis
    by (rule before_pollE) (auto intro: hook_sides dest!: sym [of "Some s'"] split: if_splits option.splits)
next
  case Unpark
  then have "on_thread_unpark (tpc (thr s t)) t i s = Some s'"
    using assms by simp
  then show ?thesis
    by (rule unparkE) (auto intro: hook_sides dest!: sym [of "Some s'"] split: if_splits option.splits)
next
  case AfterPoll
  then have "on_after_task_poll (tpc (thr s t)) t i s = Some s'"
    using assms by simp
  then show ?thesis
    by (rule after_pollE) (auto intro: hook_sides dest!: sym [of "Some s'"] split: if_splits option.splits)
next
  case Park
  then have "on_thread_park (tpc (thr s t)) t i s = Some s'"
    using assms by simp
  then show ?thesis
    by (rule parkE) (auto intro: hook_sides dest!: sym [of "Some s'"] split: if_splits option.splits)
next
  case Stop
  then have "on_thread_stop (tpc (thr s t)) t i s = Some s'"
    using assms by simp
  then show ?thesis
    by (rule stopE) (auto intro: hook_sides dest!: sym [of "Some s'"] split: if_splits option.splits)
qed

subsection \<open>The invariant\<close>

definition hooks_inv :: "('w::len, 'g::len) rcu \<Rightarrow> bool" where
  "hooks_inv s \<longleftrightarrow>
     (\<forall>u. info_writer s = Some u \<longrightarrow> clearing s u) \<and> slots_len s \<le> max_slots \<and>
     (\<forall>t e w. tpc (thr s t) = AfterStore e w \<longrightarrow> word_busy w \<and> word_seen w \<noteq> 0)"

lemma hooks_invD:
  assumes "hooks_inv s"
  shows "info_writer s = Some u \<Longrightarrow> clearing s u" and "slots_len s \<le> max_slots"
    and "tpc (thr s t) = AfterStore e w \<Longrightarrow> word_busy w" and "tpc (thr s t) = AfterStore e w \<Longrightarrow> word_seen w \<noteq> 0"
  using assms by (auto simp: hooks_inv_def)

text \<open>The owner of a slot can only read the slot's last word.\<close>

lemma own_word:
  assumes inv: "thread_inv s" and sl: "tslot (thr s t) = Some sl" and r: "readable t (LSlot sl) i (mem s)"
  shows "i = last_ix (mem s) (LSlot sl)"
  using owner_knows(1) [OF inv sl] r unfolding readable_def last_ix_def by linarith

lemma hooks_inv_hook:
  assumes inv: "thread_inv s" and hi: "hooks_inv s" and st: "run_hook h t i s = Some s'"
  shows "hooks_inv s'"
proof -
  note D = hooks_invD [OF hi]
  note S = hook_side_run_hook [OF st, unfolded hook_side_def]
  have oth: "thr s' u = thr s u" if "u \<noteq> t" for u
    using hook_frame_run_hook [OF st] that unfolding hook_frame_def by blast
  have "clearing s' u" if u: "info_writer s' = Some u" for u
  proof (cases "clearing s t")
    case False
    with S u have "info_writer s = Some u \<or> u = t \<and> clearing s' t"
      by (metis option.inject)
    then show ?thesis
      using D(1) [of u] oth [of u] False by (cases "u = t") auto
  qed (use S u in simp)
  moreover have "slots_len s' \<le> max_slots"
    using S D(2) by auto
  moreover have "word_busy w \<and> word_seen w \<noteq> 0" if p: "tpc (thr s' u) = AfterStore e w" for u e w
  proof (cases "u = t")
    case True
    then obtain sl i where sl: "tslot (thr s t) = Some sl" "readable t (LSlot sl) i (mem s)" "w = word_at s sl i"
        "tpc (thr s t) = AfterLoad e"
      using S p by blast
    have "last_word_ok (KLoaded False e) (word_at s sl (last_ix (mem s) (LSlot sl)))"
      using thread_invD(7) [OF inv] sl(1, 4) unfolding inv_last_def by fastforce
    then show ?thesis
      using own_word [OF inv sl(1, 2)] sl(3) by (simp add: last_word_ok_def)
  next
    case False
    then show ?thesis
      using D(3, 4) p oth by simp
  qed
  ultimately show ?thesis
    by (simp add: hooks_inv_def)
qed

lemma hooks_inv_frame:
  assumes hi: "hooks_inv s" and "\<And>t. tpc (thr s' t) = tpc (thr s t)" and "info_writer s' = info_writer s"
    and "hist (mem s') LLen = hist (mem s) LLen"
  shows "hooks_inv s'"
  using hi assms(2, 3) slots_len_mem [OF assms(4)] by (simp add: hooks_inv_def)

lemma synchronize_rcu_info:
  "synchronize_rcu p q t i s = Some s' \<Longrightarrow> info_writer s' = info_writer s"
  "synchronize_rcu_serialized p q t i s = Some s' \<Longrightarrow> info_writer s' = info_writer s"
  by (cases p; auto simp: op_defs upd_defs Let_def split: if_splits option.splits)+

lemma wait_info:
  "wait_for_running_threads_to_see_epoch_id p q t i wk s = Some s' \<Longrightarrow> info_writer s' = info_writer s"
  by (cases p) (auto simp: op_defs upd_defs Let_def split: if_splits option.splits)

lemma hooks_inv_step:
  assumes inv: "thread_inv s" and hi: "hooks_inv s" and st: "step ev s = Some s'"
  shows "hooks_inv s'"
proof (cases ev)
  case (Hook h t i)
  then show ?thesis
    using hooks_inv_hook [OF inv hi] st by simp
next
  case (Poll q t i wk)
  then have p: "poll_op q t i wk s = Some s'"
    using st by simp
  have "info_writer s' = info_writer s"
    using p by (cases rule: poll_op_cases) (auto dest: synchronize_rcu_info wait_info)
  then show ?thesis
    using poll_op_frame [OF inv p] by (intro hooks_inv_frame [OF hi]) (auto simp: op_frame_def calm_def)
qed (use st in \<open>auto intro!: hooks_inv_frame [OF hi] simp: wait_call_def wait_return_def suspend_def resume_def
    rcu_box_read_def use_reference_def drop_guards_def rcu_box_swap_def record_access_def upd_defs view_simps Let_def
    split: if_splits option.splits\<close>)

lemma hooks_inv_init: "hooks_inv (init_sys e0 addr)"
  by (simp add: hooks_inv_def slots_len_def mval_def last_ix_def) (simp add: init_sys_def)

interpretation hooks: machine_invariant hooks_inv
  by unfold_locales (auto intro: hooks_inv_init hooks_inv_step reachable_thread_inv)

subsection \<open>Every operation of the memory is possible\<close>

lemma readable_last:
  assumes "thread_inv s" and "hist (mem s) x \<noteq> []"
  shows "readable t x (last_ix (mem s) x) (mem s)"
  using wf_memD(4) [OF thread_invD(1) [OF assms(1)], of t] last_ix_less [OF assms(2)]
  by (simp add: readable_def bounded_def)

lemma notify_enabled:
  assumes inv: "thread_inv s" and w: "n = NRead \<or> n = NWrite \<Longrightarrow> info_writer s = None"
  shows "thread_epoch_updated_notify_inner skip h n t (last_ix (mem s) LHasSub) s \<noteq> None"
  using readable_last [OF inv nonempty(2) [OF inv]] w by (cases n) (auto simp: Let_def split: option.splits)

subsection \<open>Hooks\<close>

text \<open>The hook a thread is inside of.\<close>

fun in_hook :: "'e tpc \<Rightarrow> hook option" where
  "in_hook (StartFence h) = Some h"
| "in_hook (StartLoad h) = Some h"
| "in_hook (StartStore h _) = Some h"
| "in_hook (AfterLoad _) = Some AfterPoll"
| "in_hook (AfterStore _ _) = Some AfterPoll"
| "in_hook (NotifyFence h) = Some h"
| "in_hook (Notifying h _) = Some h"
| "in_hook _ = None"

text \<open>A notifier that has to wait for another one to release the subscriber information.\<close>

definition awaits_info :: "('e, 'g) sys \<Rightarrow> tid \<Rightarrow> bool" where
  "awaits_info s t \<longleftrightarrow> info_writer s \<noteq> None \<and>
     (\<exists>h. tpc (thr s t) = Notifying h NRead \<or> tpc (thr s t) = Notifying h NWrite)"

text \<open>The one who holds the subscriber information can always go on.\<close>

lemma info_writer_enabled:
  assumes r: "reachable s" and w: "info_writer s = Some u"
  shows "\<exists>h i s'. run_hook h u i s = Some s' \<and> info_writer s' = None"
proof -
  obtain h where h: "tpc (thr s u) = Notifying h NClear"
    using hooks_invD(1) [OF hooks.holds [OF r] w] by blast
  then have "\<exists>s'. run_hook h u 0 s = Some s' \<and> info_writer s' = None"
    by (cases h) (auto simp: upd_defs)
  then show ?thesis
    by blast
qed

subsection \<open>The scan stays inside the slice\<close>

definition scan_inv :: "('w::len, 'g::len) rcu \<Rightarrow> bool" where
  "scan_inv s \<longleftrightarrow> (\<forall>q. opc (ops s q) = OScan \<longrightarrow> scan_len (ops s q) \<le> slots_len s)"

lemma begin_scan_len:
  assumes inv: "thread_inv s" and st: "begin_scan q t i s = Some s'"
  shows "scan_len (ops s' q) \<le> slots_len s"
proof -
  let ?m = "lk_acq t LkCurW (mem s)"
  have i: "i < length (hist (mem s) LLen)" and len: "scan_len (ops s' q) = val_len (mval ?m LLen i)"
    using st by (auto simp: begin_scan_def readable_def view_simps Let_def split: if_splits)
  have "mval (mem s) LLen i = VLen i"
    using thread_invD(2) [OF inv] i by (simp add: inv_len_def)
  then have "scan_len (ops s' q) = i"
    by (simp add: len mval_def view_simps)
  then show ?thesis
    using i slots_len_eq [OF inv] by (simp add: last_ix_def)
qed

lemma to_scan:
  assumes "poll_op q t i wk s = Some s'" and "opc (ops s' q) = OScan"
  shows "begin_scan q t i s = Some s' \<or>
    opc (ops s q) = OScan \<and> scan_len (ops s' q) = scan_len (ops s q)"
  using assms(1)
proof (cases rule: poll_op_cases)
  case 1
  then show ?thesis
    using assms(2) by (cases "opc (ops s q)") (auto simp: op_defs Let_def split: if_splits option.splits)
next
  case 2
  then show ?thesis
    using assms(2) by (cases "opc (ops s q)") (auto simp: Let_def split: if_splits)
next
  case 3
  then show ?thesis
    using assms(2)
    by (cases "opc (ops s q)"; cases "wait_for (ops s q)")
      (auto simp: op_defs Let_def split: if_splits option.splits)
qed

lemma scan_inv_step:
  assumes inv: "thread_inv s" and si: "scan_inv s" and st: "step ev s = Some s'"
  shows "scan_inv s'"
proof -
  have frame: "scan_inv s'" if "slots_len s \<le> slots_len s'"
      "\<And>q. opc (ops s' q) = OScan \<Longrightarrow> opc (ops s q) = OScan \<and> scan_len (ops s' q) = scan_len (ops s q)"
    using that si unfolding scan_inv_def by fastforce
  show ?thesis
  proof (cases ev)
    case (Hook h t i)
    then have h: "run_hook h t i s = Some s'"
      using st by simp
    have "slots_len s \<le> slots_len s'" "ops s' = ops s"
      using hook_side_run_hook [OF h] hook_frame_run_hook [OF h] by (auto simp: hook_side_def hook_frame_def)
    then show ?thesis
      by (intro frame) simp_all
  next
    case (Poll q t i wk)
    then have p: "poll_op q t i wk s = Some s'"
      using st by simp
    note f = poll_op_frame [OF inv p, unfolded op_frame_def]
    have l: "slots_len s' = slots_len s"
      by (rule slots_len_mem) (use f in \<open>simp add: calm_def\<close>)
    have "scan_len (ops s' r) \<le> slots_len s'" if c: "opc (ops s' r) = OScan" for r
    proof (cases "r = q")
      case True
      then show ?thesis
        using to_scan [OF p] c begin_scan_len [OF inv] si l unfolding scan_inv_def by metis
    next
      case False
      then show ?thesis
        using f c si l unfolding scan_inv_def by simp
    qed
    then show ?thesis
      by (simp add: scan_inv_def)
  qed ((rule frame; use st in \<open>auto simp: wait_call_def wait_return_def suspend_def resume_def slots_len_def mval_def
      last_ix_def rcu_box_read_def use_reference_def drop_guards_def rcu_box_swap_def record_access_def upd_defs view_simps Let_def
      split: if_splits option.splits\<close>)+)
qed

lemma scan_inv_init: "scan_inv (init_sys e0 addr)"
  by (simp add: scan_inv_def)

interpretation scan: machine_invariant scan_inv
  by unfold_locales (auto intro: scan_inv_init scan_inv_step reachable_thread_inv)

subsection \<open>Futures\<close>

text \<open>What a polled future can have to wait for: locks, the reset leader, a notifier.\<close>

fun blocked :: "('w::len, 'g::len) rcu \<Rightarrow> nat \<Rightarrow> 'w word opc \<Rightarrow> bool" where
  "blocked s q OReadLock = (rst_writer s \<noteq> None)"
| "blocked s q OLdrWrite = (rst_writer s \<noteq> None \<or> rst_readers s \<noteq> {})"
| "blocked s q OSlvWait = (q \<in> rst_waiters s)"
| "blocked s q OLock = (gp_mutex s \<noteq> None)"
| "blocked s q OReg = (info_writer s \<noteq> None)"
| "blocked s q (ORegW _ _) = (info_writer s \<noteq> None)"
| "blocked s q (ODropInfo _) = (info_writer s \<noteq> None)"
| "blocked s q _ = False"

lemma poll_opI:
  assumes a: "attached (ops s q) = Some t" "tpc (thr s t) = Polling"
    and p: "synchronize_rcu (opc (ops s q)) q t i s \<noteq> None \<or>
      synchronize_rcu_serialized (opc (ops s q)) q t i s \<noteq> None \<or>
      wait_for_running_threads_to_see_epoch_id (opc (ops s q)) q t i wk s \<noteq> None"
  shows "\<exists>i s'. poll_op q t i wk s = Some s'"
proof -
  have "poll_op q t i wk s \<noteq> None"
    using a p by (auto simp: poll_op_def Let_def split: option.splits)
  then show ?thesis
    by blast
qed

lemma begin_scan_enabled:
  assumes inv: "thread_inv s"
  shows "begin_scan q t (last_ix (mem s) LLen) s \<noteq> None"
proof -
  let ?m = "lk_acq t LkCurW (mem s)" and ?i = "last_ix (mem s) LLen"
  have "cur ?m t LLen \<le> ?i"
    using wf_memD(4, 7) [OF thread_invD(1) [OF inv]] by (simp add: view_simps bounded_def)
  moreover have "?i < length (hist (mem s) LLen)"
    by (rule last_ix_less [OF nonempty(8) [OF inv]])
  ultimately show ?thesis
    by (simp add: begin_scan_def readable_def view_simps)
qed

lemma scan_slot_enabled:
  assumes r: "reachable s" and p: "opc (ops s q) = OScan"
  shows "scan_slot q t (last_ix (mem s) (LSlot (scan_pos (ops s q)))) s \<noteq> None"
proof -
  note inv = reachable_thread_inv [OF r]
  have "scan_len (ops s q) \<le> last_ix (mem s) LLen"
    using scan.holds [OF r] p slots_len_eq [OF inv] by (simp add: scan_inv_def)
  moreover have "hist (mem s) (LSlot sl) \<noteq> []" if "sl < last_ix (mem s) LLen" for sl
    using thread_invD(2) [OF inv] that unfolding inv_len_def by fastforce
  ultimately show ?thesis
    using readable_last [OF inv] by (simp add: scan_slot_def Let_def)
qed

lemma poll_enabled:
  fixes s :: "('w::len, 'g::len) rcu"
  assumes r: "reachable s" and a: "attached (ops s q) = Some t" "tpc (thr s t) = Polling"
    and l: "live (opc (ops s q))" "opc (ops s q) \<noteq> OReturned" and b: "\<not> blocked s q (opc (ops s q))"
  shows "\<exists>i s'. poll_op q t i wk s = Some s'"
proof -
  note inv = reachable_thread_inv [OF r]
  note rd = readable_last [OF inv]
  have slot: "tslot (thr s t) \<noteq> None"
    using thread_invD(6) [OF inv] a(2) by (auto simp: inv_pos_def)
  have I: "\<exists>i s'. poll_op q t i wk s = Some s'"
    if "\<exists>i. synchronize_rcu (opc (ops s q)) q t i s \<noteq> None \<or>
      synchronize_rcu_serialized (opc (ops s q)) q t i s \<noteq> None \<or>
      wait_for_running_threads_to_see_epoch_id (opc (ops s q)) q t i wk s \<noteq> None"
    using that poll_opI [OF a] by blast
  note ne = nonempty [OF inv]
  let ?i = "case opc (ops s q) of
      OInc \<Rightarrow> last_ix (mem s) LStarted | OChk \<Rightarrow> last_ix (mem s) LFinished | OLoadStarted \<Rightarrow> last_ix (mem s) LStarted
    | OLoadEpoch \<Rightarrow> last_ix (mem s) LEpoch | OScanBegin \<Rightarrow> last_ix (mem s) LLen
    | OScan \<Rightarrow> last_ix (mem s) (LSlot (scan_pos (ops s q))) | _ \<Rightarrow> last_ix (mem s) LNum"
  show ?thesis
  proof (rule I, rule exI [of _ ?i], cases "opc (ops s q)")
  qed (use l b rd ne slot begin_scan_enabled [OF inv] scan_slot_enabled [OF r, of q t] in
    \<open>auto simp: op_defs Let_def split: option.splits\<close>)
qed

text \<open>
  One round of the wait, from the subscription to the point where the future is done or has to be
  woken, takes a bounded number of steps: each of them lowers the rank.
\<close>

fun wait_rank :: "('e, 'g) oper \<Rightarrow> nat" where
  "wait_rank r = (case opc r of
      OSub \<Rightarrow> max_slots + 15 | OSnap \<Rightarrow> max_slots + 14 | OFence \<Rightarrow> max_slots + 13 | OTid \<Rightarrow> max_slots + 12
    | OScanBegin \<Rightarrow> max_slots + 11 | OScan \<Rightarrow> (scan_len r - scan_pos r) + 10 | OScanEnd _ \<Rightarrow> 9
    | OPoll1 \<Rightarrow> 8 | OReg \<Rightarrow> 7 | ORegW _ _ \<Rightarrow> 6 | OPoll2 \<Rightarrow> 5 | OReady \<Rightarrow> 4 | OPend \<Rightarrow> 3
    | ODrop _ \<Rightarrow> 2 | ODropInfo _ \<Rightarrow> 1 | _ \<Rightarrow> 0)"

declare wait_rank.simps [simp del]

text \<open>The two points where a new round starts: the future has been woken, or the wait is repeated.\<close>

definition round_end :: "'e opc \<Rightarrow> bool" where
  "round_end p \<longleftrightarrow> p = OPend \<or> p = ODropInfo False"

lemma wait_rank_less:
  assumes r: "reachable s" and st: "poll_op q t i wk s = Some s'" and w: "waiting (opc (ops s q))"
    and e: "\<not> round_end (opc (ops s q))"
  shows "wait_rank (ops s' q) < wait_rank (ops s q)"
proof -
  note inv = reachable_thread_inv [OF r]
  have len: "scan_len (ops s' q) \<le> max_slots" if "begin_scan q t i s = Some s'"
    using begin_scan_len [OF inv that] hooks_invD(2) [OF hooks.holds [OF r]] by simp
  have "wait_for_running_threads_to_see_epoch_id (opc (ops s q)) q t i wk s = Some s'"
    using st by (cases rule: poll_op_cases) (use w in \<open>cases "opc (ops s q)"; simp\<close>)+
  moreover have "wait_rank (ops s' q) < wait_rank (ops s q)"
    if "begin_scan q t i s = Some s'" "opc (ops s q) = OScanBegin"
    using len [OF that(1)] that by (auto simp: begin_scan_def wait_rank.simps Let_def split: if_splits)
  ultimately show ?thesis
    using w e
    by (cases "opc (ops s q)"; cases "wait_for (ops s q)")
      (auto simp: wait_rank.simps round_end_def scan_slot_def subscribe_flag_def subscribe_snapshot_def
        did_num_notifications_change_since_snapshot_def register_subscriber_info_def register_slow_path_def
        drop_subscriber_flag_def drop_subscriber_info_def Let_def split: if_splits option.splits)
qed

end
