(* ===== verification/Gp_Ids.thy ===== *)
theory Gp_Ids
  imports Progress
begin

text \<open>
  The ids the grace period counters hand out, and the guarantee of the SC fence after a change of the
  epoch id.
\<close>

subsection \<open>Grace period ids\<close>

definition ids_inv :: "('w::len, 'g::len) rcu \<Rightarrow> bool" where
  "ids_inv s \<longleftrightarrow> (\<forall>q r. counted (opc (ops s q)) \<and> counted (opc (ops s r)) \<and>
     my_gp_counter (ops s q) = my_gp_counter (ops s r) \<longrightarrow> q = r)"

lemma poll_counted:
  assumes st: "poll_op q t i wk s = Some s'" and c: "counted (opc (ops s' q))"
  shows "counted (opc (ops s q)) \<and> my_gp_counter (ops s' q) = my_gp_counter (ops s q) \<or>
    opc (ops s q) = OInc \<and> started s < my_gp_counter (ops s' q)"
  using st
proof (cases rule: poll_op_cases)
  case 1
  then show ?thesis
    using c inc_no_wrap(2)
    by (cases "opc (ops s q)") (auto simp: op_defs Let_def split: if_splits option.splits)
next
  case 2
  then show ?thesis
    by (cases "opc (ops s q)") (auto simp: Let_def split: if_splits)
next
  case 3
  then show ?thesis
    using c by (cases "opc (ops s q)"; cases "wait_for (ops s q)")
      (auto simp: op_defs Let_def split: if_splits option.splits)
qed

lemma ids_inv_step:
  assumes r: "reachable s" and ii: "ids_inv s" and st: "step ev s = Some s'"
  shows "ids_inv s'"
proof -
  note inv = reachable_thread_inv [OF r] and gp = reachable_gp_inv [OF r]
  have frame: "ids_inv s'" if "\<And>q. counted (opc (ops s' q)) \<Longrightarrow>
      counted (opc (ops s q)) \<and> my_gp_counter (ops s' q) = my_gp_counter (ops s q)"
    using that ii unfolding ids_inv_def by metis
  show ?thesis
  proof (cases ev)
    case (Hook h t i)
    then have "run_hook h t i s = Some s'"
      using st by simp
    from hook_frame_run_hook [OF this] have "ops s' = ops s"
      by (simp add: hook_frame_def)
    then show ?thesis
      by (intro frame) simp
  next
    case (Poll q t i wk)
    then have p: "poll_op q t i wk s = Some s'"
      using st by simp
    have oth: "ops s' u = ops s u" if "u \<noteq> q" for u
      by (rule poll_oth [OF inv p that])
    have new: "my_gp_counter (ops s' q) \<noteq> my_gp_counter (ops s' u)"
      if "u \<noteq> q" "counted (opc (ops s' q))" "counted (opc (ops s' u))" for u
    proof -
      have u: "counted (opc (ops s u))" "ops s' u = ops s u"
        using that oth by simp_all
      then have "my_gp_counter (ops s u) \<le> started s"
        using counted_my_le [OF gp inv] by simp
      then show ?thesis
        using poll_counted [OF p that(2)] ii u that(1) unfolding ids_inv_def by (metis leD)
    qed
    have "a = b" if "counted (opc (ops s' a))" "counted (opc (ops s' b))"
      "my_gp_counter (ops s' a) = my_gp_counter (ops s' b)" for a b
    proof (cases "a = q \<or> b = q")
      case True
      then show ?thesis
        using new that by metis
    next
      case False
      then show ?thesis
        using that oth [of a] oth [of b] ii unfolding ids_inv_def by metis
    qed
    then show ?thesis
      by (simp add: ids_inv_def)
  qed (rule frame; use st in \<open>auto simp: wait_call_def wait_return_def suspend_def resume_def
      rcu_box_read_def use_reference_def drop_guards_def rcu_box_swap_def record_access_def upd_defs Let_def
      split: if_splits option.splits\<close>)+
qed

lemma ids_inv_init: "ids_inv (init_sys e0 addr)"
  by (simp add: ids_inv_def)

interpretation ids: machine_invariant ids_inv
  by unfold_locales (auto intro: ids_inv_init ids_inv_step)

end
