(* ===== verification/Execution.thy ===== *)
theory Execution
  imports Gp_Ids
begin

text \<open>
  Concrete runs of the machine, in the widths of the feature \<open>test_mode\<close>. Views are functions; to evaluate
  a run the simplifier keeps them as association lists with \<open>vw\<close>.
\<close>

subsection \<open>Evaluating views\<close>


fun vw :: "('l \<times> nat) list \<Rightarrow> 'l view" where
  "vw [] y = 0"
| "vw ((x, n) # l) y = max (if y = x then n else 0) (vw l y)"

fun vput :: "'l \<Rightarrow> nat \<Rightarrow> ('l \<times> nat) list \<Rightarrow> ('l \<times> nat) list" where
  "vput x n [] = [(x, n)]"
| "vput x n ((y, m) # l) = (if x = y then (y, max m n) # l else (y, m) # vput x n l)"

fun vmerge :: "('l \<times> nat) list \<Rightarrow> ('l \<times> nat) list \<Rightarrow> ('l \<times> nat) list" where
  "vmerge [] b = b"
| "vmerge ((x, n) # a) b = vmerge a (vput x n b)"

lemma vw_vput: "vw (vput x n l) y = max (vw l y) (if y = x then n else 0)"
  by (induction x n l rule: vput.induct) auto

lemma vw_sup: "sup (vw a) (vw b) = vw (vmerge a b)"
proof -
  have "sup (vw a) (vw b) y = vw (vmerge a b) y" for y
    by (induction a b rule: vmerge.induct) (auto simp: vw_vput)
  then show ?thesis
    by (simp add: fun_eq_iff)
qed

lemma vw_at: "at x i = vw [(x, i)]"
  by (simp add: fun_eq_iff)

lemma vw_zero: "(\<lambda>_. 0) = vw []"
  by (simp add: fun_eq_iff)

subsection \<open>Runs\<close>

fun outcome :: "(('w::len, 'g::len) rcu \<Rightarrow> bool) \<Rightarrow> ('w, 'g) rcu option \<Rightarrow> bool" where
  "outcome P None = False"
| "outcome P (Some s) = P s"

lemma outcomeD: "outcome P x \<Longrightarrow> \<exists>s. x = Some s \<and> P s"
  by (cases x) auto

lemmas exec_defs = rcu_box_read_def use_reference_def drop_guards_def rcu_box_swap_def wait_call_def wait_return_def record_access_def
  suspend_def resume_def await_point_def poll_op_def read_lock_reset_def drop_read_guard_def inc_gp_started_def
  checked_add_one_def gp_max_def lock_gp_mutex_def check_gp_finished_def load_gp_started_def slot_ok_def
  begin_scan_def scan_slot_def subscribe_flag_def subscribe_snapshot_def EPOCH_ID_MAX_def EPOCH_ID_MIN_def
  did_num_notifications_change_since_snapshot_def register_subscriber_info_def register_slow_path_def
  drop_subscriber_flag_def drop_subscriber_info_def decode_def NONE_ENCODED_VALUE_def clear_busy_def dealloc_slot_def
  clear_own_busy_def start_ok_def init_sys_def init_oper_def on_mem_def set_tpc_def set_tslot_def upd_op_def
  set_opc_def alloc_slot_def alloc_from_free_slot_def alloc_no_free_slots_def init_slot_def slots_len_def
  prim_defs last_ix_def mval_def mview_def readable_def with_slot_def set_state_def start_fence_def
  this_thread_see_new_epoch_id_def notify_fence_def load_own_state_def is_rcu_tracked_thread_def
  encode_asserts_def encode_def max_slots_def rmw_view_def Let_def


lemmas exec = exec_defs init_mem_def vw_zero vw_at vw_sup initial_epoch_def

definition demo_start :: "(8, 8) rcu" where
  "demo_start = init_sys initial_epoch (\<lambda>_. 0)"

lemma demo_start_reachable: "reachable demo_start"
  unfolding demo_start_def by (rule reachable.init) (simp add: start_ok_def valid_epoch_def exec)

lemma outcome_reachable:
  assumes "outcome P (run evs s)" and "reachable s"
  shows "\<exists>s'. reachable s' \<and> P s'"
  using assms reachable_run by (cases "run evs s") auto

text \<open>
  A reader on thread 0 reads version 0 of box 0 and drops the guard; the version is replaced; the old data
  is waited for. The future suspends once, the thread passes a quiescent state, and the future returns.
\<close>

abbreviation hooks_of :: "hook \<Rightarrow> tid \<Rightarrow> nat list \<Rightarrow> event list" where
  "hooks_of h t \<equiv> map (Hook h t)"

abbreviation polls_of :: "nat \<Rightarrow> tid \<Rightarrow> nat list \<Rightarrow> event list" where
  "polls_of q t \<equiv> map (\<lambda>i. Poll q t i 7)"

definition start_run :: "event list" where
  "start_run = hooks_of BeforePoll 0 [1, 0, 0, 1, 0, 0] @
     [Read 0 0 0, DropGuards 0 {}, Swap 0 0 1, WaitCall 0 0 {(0, 0)}]"

definition wait_run :: "event list" where
  "wait_run = polls_of 0 0 [0, 0, 0, 0, 1, 0, 0, 0, 0, 0, 0, 1, 1, 0, 0, 0, 0] @ [Suspend 0 0]"

definition quiescent_run :: "event list" where
  "quiescent_run = hooks_of AfterPoll 0 [1, 1, 1, 0, 1, 0, 0, 0, 0] @ [Hook BeforePoll 0 0]"

definition finish_run :: "event list" where
  "finish_run = Resume 0 0 # polls_of 0 0 [0, 1, 0, 0, 0, 0, 1, 0, 0, 1, 2, 0, 0, 0, 0, 0, 0, 0]"

lemmas run_defs = start_run_def wait_run_def quiescent_run_def finish_run_def demo_start_def

abbreviation grace_period_run :: "event list" where
  "grace_period_run \<equiv> start_run @ wait_run @ quiescent_run @ finish_run"

lemma run_returned:
  "outcome (\<lambda>s. opc (ops s 0) = OReturned \<and> attached (ops s 0) = Some 0 \<and> olds (ops s 0) = {(0, 0)} \<and>
      call_view (ops s 0) (LPtr 0) = 1 \<and>
      accs s = {\<lparr>a_tid = 0, a_slot = 0, a_box = 0, a_ts = 0, a_clk = 1, a_idx = 2\<rparr>})
    (run grace_period_run demo_start)"
  by (simp add: run_defs exec del: at_apply)

lemma run_reclaimed:
  "outcome (\<lambda>s. freed s = {(0, 0)} \<and> tpc (thr s 0) = Polling)
    (run (grace_period_run @ [WaitReturn 0 0]) demo_start)"
  by (simp add: run_defs exec del: at_apply)

text \<open>
  Thread 1 sleeps while the future changes the epoch id and fences; then it wakes up and polls.
\<close>

definition sleeper_run :: "event list" where
  "sleeper_run =
     hooks_of BeforePoll 1 [1, 0, 0, 1, 0, 0] @ hooks_of AfterPoll 1 [0, 1, 1] @ hooks_of Park 1 [1, 0, 0] @
     hooks_of BeforePoll 0 [1, 0, 0, 2, 0, 0] @ [Swap 0 0 1, WaitCall 0 0 {(0, 0)}] @
     polls_of 0 0 [0, 0, 0, 0, 1, 0, 0, 0, 0, 0] @
     hooks_of Unpark 1 [2, 0, 1, 2, 0, 1, 0, 0] @ [Hook BeforePoll 1 0]"

lemma run_sleeper:
  "outcome (\<lambda>s. opc (ops s 0) = OTid \<and> attached (ops s 0) = Some 0 \<and> wait_for (ops s 0) = WNoOverflow 6 \<and>
      tslot (thr s 1) = Some 0 \<and> tpc (thr s 1) = Polling \<and> readable 0 (LSlot 0) 3 (mem s) \<and>
      \<not> word_busy (word_at s 0 3))
    (run sleeper_run demo_start)"
  by (simp add: sleeper_run_def demo_start_def exec word_busy_def del: at_apply)

end
