(* ===== verification/Hook_Panics.thy ===== *)
theory Hook_Panics
  imports Progress
begin

text \<open>
  No hook panics, whatever its loads return: an operation of a hook that may be done, with any message the load may
  return, has a next step. The one exception is the allocation of a slot when all of them are in use.
\<close>

text \<open>Where a thread has to be when a hook is called; \<open>after_hook\<close> says where it is afterwards.\<close>

fun hook_pre :: "hook \<Rightarrow> 'e tpc" where
  "hook_pre BeforePoll = Idle"
| "hook_pre Unpark = Parked"
| "hook_pre AfterPoll = Polling"
| "hook_pre Park = Idle"
| "hook_pre Stop = Idle"

abbreviation no_refs :: "tid \<Rightarrow> ('e, 'g) sys \<Rightarrow> bool" where
  "no_refs t s \<equiv> held (thr s t) = {} \<and> tops (thr s t) = {}"

text \<open>The thread is inside the hook, or it may call it; \<open>on_after_task_poll\<close> is called when the poll has returned.\<close>

definition at_hook :: "hook \<Rightarrow> tid \<Rightarrow> ('e, 'g) sys \<Rightarrow> bool" where
  "at_hook h t s \<longleftrightarrow> in_hook (tpc (thr s t)) = Some h \<or>
     tpc (thr s t) = hook_pre h \<and> (h = AfterPoll \<longrightarrow> no_refs t s)"

text \<open>The location the next operation of the hook loads, on a thread with the given slot.\<close>

definition hook_load :: "hook \<Rightarrow> 'e tpc \<Rightarrow> nat option \<Rightarrow> loc option" where
  "hook_load h p slot =
     (case p of
        Polling \<Rightarrow> Some LEpoch
      | StartLoad _ \<Rightarrow> Some LEpoch
      | StartStore _ _ \<Rightarrow> Some LLen
      | AfterLoad _ \<Rightarrow> map_option LSlot slot
      | AfterStore _ _ \<Rightarrow> Some LLen
      | Notifying _ NLoad \<Rightarrow> Some LHasSub
      | _ \<Rightarrow> if (h = Unpark \<and> p = Parked \<or> h = Park \<and> p = Idle) \<and> slot \<noteq> None then Some LLen else None)"

text \<open>The load may return message \<open>i\<close>. The length is loaded under the read lock.\<close>

definition may_load :: "hook \<Rightarrow> tid \<Rightarrow> nat \<Rightarrow> ('e, 'g) sys \<Rightarrow> bool" where
  "may_load h t i s \<longleftrightarrow> (case hook_load h (tpc (thr s t)) (tslot (thr s t)) of
     None \<Rightarrow> True
   | Some l \<Rightarrow> readable t l i (if l = LLen then lk_acq t LkCurW (mem s) else mem s))"

text \<open>The thread has a slot, or the allocator has one to give.\<close>

definition slot_left :: "tid \<Rightarrow> ('e, 'g) sys \<Rightarrow> bool" where
  "slot_left t s \<longleftrightarrow> is_rcu_tracked_thread t s \<or> free_slots s \<noteq> [] \<or> slots_len s < max_slots"

subsection \<open>No index is out of bounds\<close>

lemma with_slot_any:
  assumes inv: "thread_inv s" and sl: "tslot (thr s t) = Some sl" and i: "readable t LLen i (lk_acq t LkCurW (mem s))"
  shows "with_slot t i sl body s \<noteq> None"
proof -
  have "cur (mem s) t LLen \<le> i" and l: "i < length (hist (mem s) LLen)"
    using i by (auto simp: readable_def view_simps)
  then have "sl < i"
    using owner_knows(2) [OF inv sl] by simp
  moreover have "mval (mem s) LLen i = VLen i"
    using thread_invD(2) [OF inv] l by (simp add: inv_len_def)
  then have "val_len (mval (lk_acq t LkCurW (mem s)) LLen i) = i"
    by (simp add: mval_def view_simps)
  ultimately show ?thesis
    using i by (simp add: with_slot_def Let_def)
qed

lemma set_state_any:
  assumes "thread_inv s" and "tslot (thr s t) = Some sl" and "readable t LLen i (lk_acq t LkCurW (mem s))"
    and "encode_asserts st"
  shows "\<exists>s'. set_state t i st p s = Some s'"
  using with_slot_any [OF assms(1-3)] assms(2, 4) by (simp add: set_state_def)

lemma busy_state_asserts: "valid_epoch e \<Longrightarrow> encode_asserts (busy_state e)" "encode_asserts (busy_state 0)"
  by (simp_all add: encode_asserts_iff valid_epoch_def)

lemma notify_any:
  assumes "n = NLoad \<Longrightarrow> readable t LHasSub i (mem s)" and "n = NRead \<or> n = NWrite \<Longrightarrow> info_writer s = None"
  shows "\<exists>s'. thread_epoch_updated_notify_inner skip h n t i s = Some s'"
  using assms by (cases n) (auto simp: Let_def split: option.splits)

subsection \<open>The operations inside a hook\<close>

lemma in_hook_slot:
  assumes "thread_inv s" and "tpc (thr s t) \<in> {StartStore h e, AfterLoad e, AfterStore e w}"
  obtains sl where "tslot (thr s t) = Some sl" and "encode_asserts (busy_state e)"
proof -
  have "tslot (thr s t) \<noteq> None"
    using thread_invD(6) [OF assms(1)] assms(2) by (auto simp: inv_pos_def)
  moreover have "\<exists>b. tkind s t = KLoaded b e"
    using assms(2) by auto
  then have "valid_epoch e"
    using thread_invD(4) [OF assms(1)] unfolding inv_epochs_def by blast
  ultimately show ?thesis
    using that busy_state_asserts(1) by auto
qed

lemma inside_hook_steps:
  assumes r: "reachable s" and h: "in_hook (tpc (thr s t)) = Some h" and w: "\<not> awaits_info s t" and i: "may_load h t i s"
  shows "\<exists>s'. run_hook h t i s = Some s'"
proof -
  note inv = reachable_thread_inv [OF r] and load = i [unfolded may_load_def hook_load_def]
  have start: "h = BeforePoll \<or> h = Unpark"
    if "tpc (thr s t) = StartFence h \<or> tpc (thr s t) = StartLoad h \<or> (\<exists>e. tpc (thr s t) = StartStore h e)" for h
    using thread_invD(6) [OF inv] that unfolding inv_pos_def by (metis proper.simps(1-3))
  show ?thesis
  proof (cases "tpc (thr s t)")
    case (StartFence x)
    then show ?thesis
      using h start by auto
  next
    case (StartLoad x)
    then show ?thesis
      using h start [of x] load by (auto simp: this_thread_see_new_epoch_id_def)
  next
    case (StartStore x e)
    then obtain sl where "tslot (thr s t) = Some sl" "encode_asserts (busy_state e)"
      using in_hook_slot [OF inv, of t x e e] by auto
    then show ?thesis
      using StartStore h start [of x] load set_state_any [OF inv] by auto
  next
    case (AfterLoad e)
    then obtain sl where sl: "tslot (thr s t) = Some sl"
      using in_hook_slot [OF inv, of t BeforePoll e e] by auto
    then show ?thesis
      using AfterLoad h load by (auto simp: load_own_state_def)
  next
    case (AfterStore e x)
    then obtain sl where sl: "tslot (thr s t) = Some sl" "encode_asserts (busy_state e)"
      using in_hook_slot [OF inv, of t BeforePoll e x] by auto
    have "word_busy x"
      using hooks_invD(3) [OF hooks.holds [OF r]] AfterStore .
    then obtain st where "decode x = Some st" "is_busy st"
      by (auto simp: word_busy_def split: option.splits)
    then show ?thesis
      using AfterStore h load sl set_state_any [OF inv sl(1)] by auto
  next
    case (NotifyFence x)
    then show ?thesis
      using h by (cases x) auto
  next
    case (Notifying x n)
    then have "n = NLoad \<Longrightarrow> readable t LHasSub i (mem s)" "n = NRead \<or> n = NWrite \<Longrightarrow> info_writer s = None"
      using w load by (auto simp: awaits_info_def)
    from notify_any [OF this] show ?thesis
      using Notifying h by (cases x) auto
  qed (use h in auto)
qed

subsection \<open>The calls of the hooks\<close>

lemma hook_call_steps:
  assumes r: "reachable s" and p: "tpc (thr s t) = hook_pre h" and refs: "h = AfterPoll \<Longrightarrow> no_refs t s" and i: "may_load h t i s"
  shows "(\<exists>s'. run_hook h t i s = Some s') \<longleftrightarrow> (h = BeforePoll \<longrightarrow> slot_left t s)"
proof -
  note inv = reachable_thread_inv [OF r] and load = i [unfolded may_load_def hook_load_def]
  show ?thesis
  proof (cases h)
    case BeforePoll
    then show ?thesis
      using p by (auto simp: slot_left_def alloc_slot_def Let_def)
  next
    case Unpark
    then show ?thesis
      using p load set_state_any [OF inv _ _ busy_state_asserts(2)]
      by (cases "tslot (thr s t)") (auto simp: is_rcu_tracked_thread_def)
  next
    case AfterPoll
    then show ?thesis
      using p load refs by (auto simp: this_thread_see_new_epoch_id_def)
  next
    case Park
    then show ?thesis
      using p load with_slot_any [OF inv]
      by (cases "tslot (thr s t)") (auto simp: is_rcu_tracked_thread_def clear_own_busy_def)
  next
    case Stop
    then show ?thesis
      using p owner_knows(5) [OF inv] slots_len_eq [OF inv] by (auto split: option.splits)
  qed
qed

text \<open>Only the allocation of a slot panics.\<close>

lemma hook_steps_unless_out_of_slots:
  assumes "reachable s" and "at_hook h t s" and "\<not> awaits_info s t" and "may_load h t i s"
  shows "run_hook h t i s = None \<longleftrightarrow> tpc (thr s t) = Idle \<and> h = BeforePoll \<and> \<not> slot_left t s"
proof (cases "in_hook (tpc (thr s t)) = Some h")
  case True
  then show ?thesis
    using inside_hook_steps [OF assms(1) True assms(3, 4)] by auto
next
  case False
  then have p: "tpc (thr s t) = hook_pre h" "h = AfterPoll \<Longrightarrow> no_refs t s"
    using assms(2) by (auto simp: at_hook_def)
  then show ?thesis
    using hook_call_steps [OF assms(1) p assms(4)] by (cases h) auto
qed

text \<open>A load can always return the newest message.\<close>

lemma may_load_newest:
  assumes r: "reachable s"
  shows "\<exists>i. may_load h t i s"
proof (cases "hook_load h (tpc (thr s t)) (tslot (thr s t))")
  case (Some l)
  note inv = reachable_thread_inv [OF r]
  have "hist (mem s) l \<noteq> []"
    using Some nonempty(1, 2, 8) [OF inv] owner_knows(6) [OF inv]
    by (auto simp: hook_load_def split: tpc.splits notify_pc.splits if_splits)
  moreover from this have "readable t l (last_ix (mem s) l) (lk_acq t LkCurW (mem s))" if "l = LLen"
    using wf_memD(4, 7) [OF thread_invD(1) [OF inv]] last_ix_less [of "mem s" l]
    by (simp add: readable_def view_simps bounded_def)
  ultimately show ?thesis
    using readable_last [OF inv] Some by (auto simp: may_load_def)
qed (simp add: may_load_def)

lemma hook_enabled:
  assumes "reachable s" and "at_hook h t s" and "\<not> awaits_info s t" and "h = BeforePoll \<Longrightarrow> slot_left t s"
  shows "\<exists>i s'. run_hook h t i s = Some s'"
proof -
  obtain i where "may_load h t i s"
    using may_load_newest [OF assms(1)] by blast
  then show ?thesis
    using hook_steps_unless_out_of_slots [OF assms(1-3), of i] assms(4) by auto
qed

end
