(* ===== verification/Root_Future.thy ===== *)
theory Root_Future
  imports Execution Hook_Panics
begin

text \<open>
  \<open>src/src/tokio_ext.rs\<close>: the registration of the hooks with the runtime, and the wrapper of the root future,
  which calls the hooks itself because the runtime does not do so on the thread of \<open>block_on\<close>. The future
  inside is a parameter. The second part runs what the wrapper does on the machine: whatever the future inside does
  when it is polled, every hook that the wrapper calls can be run to its end.
\<close>

subsection \<open>The runtime\<close>

text \<open>The callbacks of \<open>tokio::runtime::Builder\<close> that the program sets, and what it sets them to.\<close>

datatype runtime_callback = CbBeforeTaskPoll | CbThreadStop | CbThreadPark | CbThreadUnpark | CbAfterTaskPoll

fun enable_rcu :: "runtime_callback \<Rightarrow> hook" where
  "enable_rcu CbBeforeTaskPoll = BeforePoll"
| "enable_rcu CbThreadStop = Stop"
| "enable_rcu CbThreadPark = Park"
| "enable_rcu CbThreadUnpark = Unpark"
| "enable_rcu CbAfterTaskPoll = AfterPoll"

datatype runtime_flavor = CurrentThread | MultiThread

subsection \<open>The root future\<close>

datatype 'a poll_result = Ready 'a | Pending

record 'f root_future =
  inner_future :: 'f
  has_already_been_polled :: bool

definition root_future_new :: "'f \<Rightarrow> 'f root_future" where
  "root_future_new f = \<lparr>inner_future = f, has_already_been_polled = False\<rparr>"

text \<open>One poll: its result and what it does, in order: the hooks it calls, and the poll of the future inside.\<close>

datatype act = CallHook hook | PollInner

definition root_future_poll ::
    "('f \<Rightarrow> 'a poll_result \<times> 'f) \<Rightarrow> 'f root_future \<Rightarrow> 'a poll_result \<times> act list \<times> 'f root_future" where
  "root_future_poll inner_poll r =
     (let unpark = (if \<not> has_already_been_polled r then [] else [CallHook Unpark]);
          (res, f) = inner_poll (inner_future r)
      in (res,
          unpark @ [CallHook BeforePoll, PollInner, CallHook AfterPoll] @
            (case res of Ready _ \<Rightarrow> [CallHook Stop] | Pending \<Rightarrow> [CallHook Park]),
          \<lparr>inner_future = f, has_already_been_polled = True\<rparr>))"

text \<open>
  \<open>Runtime::block_on\<close> polls the future until it is ready, and parks the thread in between. At most \<open>n\<close> polls are
  looked at.
\<close>

fun block_on :: "('f \<Rightarrow> 'a poll_result \<times> 'f) \<Rightarrow> nat \<Rightarrow> 'f root_future \<Rightarrow> 'a poll_result \<times> act list" where
  "block_on inner_poll 0 r = (Pending, [])"
| "block_on inner_poll (Suc n) r =
     (case root_future_poll inner_poll r of
        (Ready a, hs, _) \<Rightarrow> (Ready a, hs)
      | (Pending, hs, r') \<Rightarrow> (case block_on inner_poll n r' of (res, hs') \<Rightarrow> (res, hs @ hs')))"

definition rcu_block_on ::
    "runtime_flavor \<Rightarrow> ('f \<Rightarrow> 'a poll_result \<times> 'f) \<Rightarrow> nat \<Rightarrow> 'f \<Rightarrow> ('a poll_result \<times> act list) option" where
  "rcu_block_on flavor inner_poll n f =
     (if flavor = MultiThread then Some (block_on inner_poll n (root_future_new f)) else None)"

subsection \<open>The life of a thread\<close>

text \<open>Where a thread has to be for an act, and where it is afterwards.\<close>

fun act_pre :: "act \<Rightarrow> 'e tpc" where
  "act_pre (CallHook h) = hook_pre h"
| "act_pre PollInner = Polling"

fun act_post :: "act \<Rightarrow> 'e tpc" where
  "act_post (CallHook h) = after_hook h"
| "act_post PollInner = Polling"

fun life :: "'e tpc \<Rightarrow> act list \<Rightarrow> 'e tpc option" where
  "life p [] = Some p"
| "life p (a # as) = (if p = act_pre a then life (act_post a) as else None)"

lemma act_pre_Stopped: "act_pre a \<noteq> Stopped"
proof (cases a)
  case (CallHook h)
  then show ?thesis
    by (cases h) simp_all
qed simp

lemma life_Stopped: "life Stopped as = Some p \<Longrightarrow> as = []"
  by (cases as) (auto simp: act_pre_Stopped act_pre_Stopped [symmetric] split: if_splits)

lemma life_append: "life p (hs @ hs') = Option.bind (life p hs) (\<lambda>p'. life p' hs')"
  by (induction hs arbitrary: p) auto

lemma life_appendI: "life p hs = Some p1 \<Longrightarrow> life p1 hs' = Some p2 \<Longrightarrow> life p (hs @ hs') = Some p2"
  by (simp add: life_append)

lemma root_future_poll_life:
  assumes "root_future_poll inner_poll r = (res, hs, r')"
  shows "life (if has_already_been_polled r then Parked else Idle) hs =
      Some (case res of Ready _ \<Rightarrow> Stopped | Pending \<Rightarrow> Parked)" and "has_already_been_polled r'"
  using assms by (auto simp: root_future_poll_def Let_def split: prod.splits poll_result.splits)

lemma block_on_life:
  assumes "block_on inner_poll n r = (res, hs)" and "0 < n"
  shows "life (if has_already_been_polled r then Parked else (Idle :: 'e tpc)) hs =
      Some (case res of Ready _ \<Rightarrow> Stopped | Pending \<Rightarrow> Parked)"
  using assms
proof (induction n arbitrary: r res hs)
  case (Suc n)
  note IH = Suc.IH
  obtain res1 hs1 r' where p: "root_future_poll inner_poll r = (res1, hs1, r')" by (cases "root_future_poll inner_poll r")
  note L = root_future_poll_life [OF p]
  show ?case
  proof (cases res1)
    case (Ready a)
    thus ?thesis using Suc.prems p L by simp
  next
    case Pending
    obtain res2 hs2 where b: "block_on inner_poll n r' = (res2, hs2)" by (cases "block_on inner_poll n r'")
    have eq: "hs = hs1 @ hs2" "res = res2" using Suc.prems p b Pending by simp_all
    show ?thesis
    proof (cases n)
      case 0
      thus ?thesis using eq b L(1) Pending by simp
    next
      case (Suc k)
      show ?thesis
        unfolding eq
      proof (rule life_appendI)
        show "life (if has_already_been_polled r then Parked else (Idle :: 'e tpc)) hs1 = Some Parked"
          using L(1) Pending by simp
        show "life (Parked :: 'e tpc) hs2 = Some (case res2 of Ready _ \<Rightarrow> Stopped | Pending \<Rightarrow> Parked)"
          using IH [OF b] L(2) \<open>n = Suc k\<close> by simp
      qed
    qed
  qed
qed simp

subsection \<open>Hooks end\<close>

text \<open>The number of atomic operations a hook still has to do.\<close>

fun hook_rank :: "'e tpc \<Rightarrow> nat" where
  "hook_rank (StartFence _) = 9"
| "hook_rank (StartLoad _) = 8"
| "hook_rank (StartStore _ _) = 7"
| "hook_rank (AfterLoad _) = 8"
| "hook_rank (AfterStore _ _) = 7"
| "hook_rank (NotifyFence _) = 6"
| "hook_rank (Notifying _ NLoad) = 5"
| "hook_rank (Notifying _ NAdd) = 4"
| "hook_rank (Notifying _ NRead) = 3"
| "hook_rank (Notifying _ NWrite) = 2"
| "hook_rank (Notifying _ NClear) = 1"
| "hook_rank _ = 0"

lemma hook_rank_le: "hook_rank p \<le> 9"
  by (cases p rule: hook_rank.cases) simp_all

text \<open>What a step of a hook leaves of its own thread.\<close>

definition hook_goes_on :: "hook \<Rightarrow> tid \<Rightarrow> ('w::len, 'g::len) rcu \<Rightarrow> ('w, 'g) rcu \<Rightarrow> bool" where
  "hook_goes_on h t s s' \<longleftrightarrow>
     hook_rank (tpc (thr s' t)) < hook_rank (tpc (thr s t)) \<and>
     (in_hook (tpc (thr s' t)) = Some h \<or> tpc (thr s' t) = after_hook h) \<and> tslot (thr s' t) = tslot (thr s t)"

lemma goes_on_notify:
  "thread_epoch_updated_notify_inner skip h n t i s = Some s' \<Longrightarrow> tpc (thr s t) = Notifying h n \<Longrightarrow>
   hook_goes_on h t s s'"
  by (cases n; cases h) (auto simp: hook_goes_on_def upd_defs Let_def split: if_splits option.splits)

lemma goes_on_set_state:
  "set_state t i st p s = Some s' \<Longrightarrow> hook_rank p < hook_rank (tpc (thr s t)) \<Longrightarrow>
   in_hook p = Some h \<or> p = after_hook h \<Longrightarrow> hook_goes_on h t s s'"
  by (auto simp: hook_goes_on_def set_state_def with_slot_def upd_defs Let_def split: if_splits option.splits)

lemma goes_on_see_epoch:
  "this_thread_see_new_epoch_id f t i s = Some s' \<Longrightarrow> (\<And>e. hook_rank (f e) < hook_rank (tpc (thr s t))) \<Longrightarrow>
   (\<And>e. in_hook (f e) = Some h) \<Longrightarrow> hook_goes_on h t s s'"
  by (auto simp: hook_goes_on_def this_thread_see_new_epoch_id_def upd_defs split: if_splits)

lemma goes_on_own:
  "load_own_state e t i s = Some s' \<Longrightarrow> tpc (thr s t) = AfterLoad e \<Longrightarrow> hook_goes_on AfterPoll t s s'"
  by (auto simp: hook_goes_on_def load_own_state_def upd_defs split: if_splits option.splits)

lemma goes_on_fence:
  "tpc (thr s t) = StartFence h \<Longrightarrow> hook_goes_on h t s (start_fence h t s)"
  "tpc (thr s t) = NotifyFence h \<Longrightarrow> hook_goes_on h t s (notify_fence h t s)"
  by (simp_all add: hook_goes_on_def start_fence_def notify_fence_def upd_defs)

lemmas goes_on = goes_on_notify goes_on_set_state goes_on_see_epoch goes_on_own goes_on_fence

lemma hook_goes_on_step:
  assumes "run_hook h t i s = Some s'" and "in_hook (tpc (thr s t)) = Some h"
  shows "hook_goes_on h t s s'"
proof (cases h)
  case BeforePoll
  then have "on_before_task_poll (tpc (thr s t)) t i s = Some s'"
    using assms by simp
  then show ?thesis
    using assms(2) BeforePoll
    by (cases rule: before_pollE) (auto intro: goes_on simp del: thread_epoch_updated_notify_inner.simps dest!: sym [of "Some s'"])
next
  case Unpark
  then have "on_thread_unpark (tpc (thr s t)) t i s = Some s'"
    using assms by simp
  then show ?thesis
    using assms(2) Unpark
    by (cases rule: unparkE) (auto intro: goes_on simp del: thread_epoch_updated_notify_inner.simps dest!: sym [of "Some s'"])
next
  case AfterPoll
  then have "on_after_task_poll (tpc (thr s t)) t i s = Some s'"
    using assms by simp
  then show ?thesis
    using assms(2) AfterPoll
    by (cases rule: after_pollE)
      (auto intro: goes_on simp del: thread_epoch_updated_notify_inner.simps dest!: sym [of "Some s'"]
        split: option.splits if_splits)
next
  case Park
  then have "on_thread_park (tpc (thr s t)) t i s = Some s'"
    using assms by simp
  then show ?thesis
    using assms(2) Park
    by (cases rule: parkE) (auto intro: goes_on simp del: thread_epoch_updated_notify_inner.simps dest!: sym [of "Some s'"])
next
  case Stop
  then have "on_thread_stop (tpc (thr s t)) t i s = Some s'"
    using assms by simp
  then show ?thesis
    using assms(2) Stop
    by (cases rule: stopE) (auto intro: goes_on simp del: thread_epoch_updated_notify_inner.simps dest!: sym [of "Some s'"])
qed

subsection \<open>Running the hooks on the machine\<close>

lemma run_append: "run (evs @ evs') s = Option.bind (run evs s) (run evs')"
  by (induction evs arbitrary: s) (auto split: option.split)

fun ev_tid :: "event \<Rightarrow> tid" where
  "ev_tid (Hook h t i) = t"
| "ev_tid (Poll q t i wk) = t"
| "ev_tid (WaitCall q t vs) = t"
| "ev_tid (WaitReturn q t) = t"
| "ev_tid (Suspend q t) = t"
| "ev_tid (Resume q t) = t"
| "ev_tid (Read t b i) = t"
| "ev_tid (UseRef t b ts) = t"
| "ev_tid (DropGuards t keep) = t"
| "ev_tid (Swap t b p) = t"

subsection \<open>What the thread of \<open>block_on\<close> does\<close>

text \<open>
  The events of a thread while it does an act: those of the hook; or, while the future inside is polled, anything but
  a hook. Others do what they like.
\<close>

fun act_event :: "tid \<Rightarrow> act \<Rightarrow> event \<Rightarrow> bool" where
  "act_event t (CallHook h) ev \<longleftrightarrow> (ev_tid ev = t \<longrightarrow> (\<exists>i. ev = Hook h t i))"
| "act_event t PollInner ev \<longleftrightarrow> (\<forall>h i. ev \<noteq> Hook h t i)"

text \<open>From the call of a hook, or of the poll, to its return. When the poll returns, the guards in it are gone.\<close>

definition performs :: "tid \<Rightarrow> act \<Rightarrow> ('w::len, 'g::len) rcu \<Rightarrow> ('w, 'g) rcu \<Rightarrow> bool" where
  "performs t a s s' \<longleftrightarrow>
     tpc (thr s t) = act_pre a \<and> tpc (thr s' t) = act_post a \<and> (a = PollInner \<longrightarrow> no_refs t s') \<and>
     (\<exists>evs. run evs s = Some s' \<and> (\<forall>ev \<in> set evs. act_event t a ev))"

fun performs_all :: "tid \<Rightarrow> act list \<Rightarrow> ('w::len, 'g::len) rcu \<Rightarrow> ('w, 'g) rcu \<Rightarrow> bool" where
  "performs_all t [] s s' = (s' = s)"
| "performs_all t (a # as) s s' = (\<exists>u. performs t a s u \<and> performs_all t as u s')"

subsection \<open>A hook that is called returns\<close>

lemma other_thread_step:
  assumes inv: "thread_inv s" and st: "step ev s = Some s'" and t: "ev_tid ev \<noteq> t"
  shows "thr s' t = thr s t"
proof (cases ev)
  case (Hook h u i)
  then show ?thesis
    using st t hook_frame_run_hook [of h u i s s'] by (simp add: hook_frame_def)
next
  case (Poll q u i wk)
  then show ?thesis
    using st poll_op_frame [OF inv, of q u i wk s'] by (simp add: op_frame_def)
qed (use st t in \<open>auto simp: wait_call_def wait_return_def suspend_def resume_def rcu_box_read_def use_reference_def
    drop_guards_def rcu_box_swap_def record_access_def upd_defs Let_def split: if_splits option.splits\<close>)

lemma keeps_slot [intro]:
  "set_state t i st p s = Some s' \<Longrightarrow> tslot (thr s' t) = tslot (thr s t)"
  "this_thread_see_new_epoch_id f t i s = Some s' \<Longrightarrow> tslot (thr s' t) = tslot (thr s t)"
  "load_own_state e t i s = Some s' \<Longrightarrow> tslot (thr s' t) = tslot (thr s t)"
  "clear_own_busy t i s = Some s' \<Longrightarrow> tslot (thr s' t) = tslot (thr s t)"
  "thread_epoch_updated_notify_inner skip h n t i s = Some s' \<Longrightarrow> tslot (thr s' t) = tslot (thr s t)"
  by (auto simp: set_state_def with_slot_def this_thread_see_new_epoch_id_def load_own_state_def clear_own_busy_def
      upd_defs Let_def split: if_splits option.splits)
    (cases n; auto simp: upd_defs Let_def split: if_splits option.splits)

lemma alloc_slot_slot: "alloc_slot t g a s = Some s' \<Longrightarrow> tslot (thr s' t) \<noteq> None \<and> tpc (thr s' t) = tpc (thr s t)"
  by (auto simp: alloc_slot_def alloc_from_free_slot_def alloc_no_free_slots_def init_slot_def upd_defs Let_def
      split: if_splits)

text \<open>The call of a hook enters it or returns at once.\<close>

lemma hook_call:
  assumes st: "run_hook h t i s = Some s'" and pc: "tpc (thr s t) = hook_pre h"
  shows "in_hook (tpc (thr s' t)) = Some h \<or> tpc (thr s' t) = after_hook h"
    and "tslot (thr s t) \<noteq> None \<or> h = BeforePoll \<Longrightarrow> h \<noteq> Stop \<Longrightarrow> tslot (thr s' t) \<noteq> None"
proof -
  show "in_hook (tpc (thr s' t)) = Some h \<or> tpc (thr s' t) = after_hook h"
    using st pc by (cases h) (auto simp: set_state_def with_slot_def clear_own_busy_def this_thread_see_new_epoch_id_def
        upd_defs Let_def split: if_splits option.splits dest: alloc_slot_slot)
  show "tslot (thr s' t) \<noteq> None" if "tslot (thr s t) \<noteq> None \<or> h = BeforePoll" "h \<noteq> Stop"
    using st pc that by (cases h) (auto simp: is_rcu_tracked_thread_def upd_defs split: if_splits
        dest!: keeps_slot alloc_slot_slot)
qed

lemma hook_keeps_slot:
  assumes st: "run_hook h t i s = Some s'" and "h \<noteq> Stop" and "tslot (thr s t) \<noteq> None"
  shows "tslot (thr s' t) \<noteq> None"
proof (cases "in_hook (tpc (thr s t)) = Some h")
  case True
  then show ?thesis
    using hook_goes_on_step [OF st True] assms(3) by (simp add: hook_goes_on_def)
next
  case False
  have "tpc (thr s t) = hook_pre h"
    using st False by (cases h; cases "tpc (thr s t)") (auto elim: before_pollE unparkE after_pollE parkE stopE)
  then show ?thesis
    using hook_call(2) [OF st] assms(2, 3) by blast
qed

text \<open>A hook in the middle runs to its end; another notifier may have to leave the subscriber information first.\<close>

lemma hook_finishes:
  assumes "reachable s" and "in_hook (tpc (thr s t)) = Some h"
  shows "\<exists>evs s'. run evs s = Some s' \<and> (\<forall>ev \<in> set evs. act_event t (CallHook h) ev) \<and> tpc (thr s' t) = after_hook h"
  using assms
proof (induction "hook_rank (tpc (thr s t))" arbitrary: s rule: less_induct)
  case less
  have "\<exists>evs s1. run evs s = Some s1 \<and> (\<forall>ev \<in> set evs. ev_tid ev \<noteq> t) \<and> thr s1 t = thr s t \<and> \<not> awaits_info s1 t"
  proof (cases "awaits_info s t")
    case True
    then obtain u where u: "info_writer s = Some u" "\<not> clearing s t" by (auto simp: awaits_info_def)
    have "u \<noteq> t" using hooks_invD(1) [OF hooks.holds [OF less.prems(1)] u(1)] u(2) by blast
    obtain h' i s1 where s1: "run_hook h' u i s = Some s1" "info_writer s1 = None"
      using info_writer_enabled [OF less.prems(1) u(1)] by blast
    have "thr s1 t = thr s t" using hook_frame_run_hook [OF s1(1)] \<open>u \<noteq> t\<close> by (simp add: hook_frame_def)
    thus ?thesis
      using s1 \<open>u \<noteq> t\<close> by (intro exI [of _ "[Hook h' u i]"] exI [of _ s1]) (simp add: awaits_info_def)
  qed (intro exI [of _ "[]"], simp)
  then obtain evs s1 where s1: "run evs s = Some s1" "\<forall>ev \<in> set evs. ev_tid ev \<noteq> t" "thr s1 t = thr s t"
      "\<not> awaits_info s1 t" by blast
  have r1: "reachable s1" by (rule reachable_run [OF less.prems(1) s1(1)])
  have h1: "in_hook (tpc (thr s1 t)) = Some h" using less.prems(2) s1(3) by simp
  obtain i s2 where s2: "run_hook h t i s1 = Some s2"
    using inside_hook_steps [OF r1 h1 s1(4)] may_load_newest [OF r1] by blast
  have r2: "reachable s2" using reachable.step [OF r1, of "Hook h t i"] s2 by simp
  have g: "hook_goes_on h t s1 s2" by (rule hook_goes_on_step [OF s2 h1])
  have run2: "run (evs @ [Hook h t i]) s = Some s2" using s1(1) s2 by (simp add: run_append)
  show ?case
  proof (cases "tpc (thr s2 t) = after_hook h")
    case True
    thus ?thesis
      using run2 s1(2) by (intro exI [of _ "evs @ [Hook h t i]"] exI [of _ s2]) auto
  next
    case False
    hence "in_hook (tpc (thr s2 t)) = Some h" "hook_rank (tpc (thr s2 t)) < hook_rank (tpc (thr s t))"
      using g s1(3) by (simp_all add: hook_goes_on_def)
    from less.hyps [OF this(2) r2 this(1)] obtain evs' s' where e: "run evs' s2 = Some s'"
        "\<forall>ev \<in> set evs'. act_event t (CallHook h) ev" "tpc (thr s' t) = after_hook h" by blast
    have "run ((evs @ [Hook h t i]) @ evs') s = Some s'" 
      unfolding run_append [of "evs @ [Hook h t i]"] run2 by (simp add: e(1))
    thus ?thesis
      using e s1(2) by (intro exI [of _ "(evs @ [Hook h t i]) @ evs'"] exI [of _ s']) auto
  qed
qed

lemma hook_performs:
  assumes r: "reachable s" and pc: "tpc (thr s t) = hook_pre h" and n: "no_refs t s"
    and slot: "h = BeforePoll \<Longrightarrow> slot_left t s"
  shows "\<exists>s'. performs t (CallHook h) s s'"
proof -
  have "at_hook h t s" "\<not> awaits_info s t"
    using pc n by (cases h; simp add: at_hook_def awaits_info_def)+
  from hook_enabled [OF r this slot] obtain i s1 where s1: "run_hook h t i s = Some s1"
    by blast
  have "\<exists>evs s'. run evs s1 = Some s' \<and> (\<forall>ev \<in> set evs. act_event t (CallHook h) ev) \<and> tpc (thr s' t) = after_hook h"
    using hook_call(1) [OF s1 pc]
  proof
    assume "tpc (thr s1 t) = after_hook h"
    then show ?thesis
      by (intro exI [of _ "[]"]) simp
  next
    have "reachable s1"
      using reachable.step [OF r, of "Hook h t i"] s1 by simp
    then show "in_hook (tpc (thr s1 t)) = Some h \<Longrightarrow> ?thesis"
      by (rule hook_finishes)
  qed
  then obtain evs s' where e: "run evs s1 = Some s'" "\<forall>ev \<in> set evs. act_event t (CallHook h) ev"
      "tpc (thr s' t) = after_hook h"
    by blast
  then have "run (Hook h t i # evs) s = Some s'"
    using s1 by simp
  then show ?thesis
    using e(2, 3) pc unfolding performs_def by fastforce
qed

subsection \<open>The whole life of the thread\<close>

text \<open>Between two acts: the thread has no guards, and it has a slot until it has stopped.\<close>

definition between_acts :: "tid \<Rightarrow> ('w::len, 'g::len) rcu \<Rightarrow> bool" where
  "between_acts t s \<longleftrightarrow> reachable s \<and> no_refs t s \<and> (tpc (thr s t) \<noteq> Stopped \<longrightarrow> slot_left t s)"

lemma hook_run_keeps:
  assumes "run evs s = Some s'" and "\<forall>ev \<in> set evs. act_event t (CallHook h) ev" and "reachable s"
  shows "no_refs t s \<Longrightarrow> no_refs t s'" and "h \<noteq> Stop \<Longrightarrow> tslot (thr s t) \<noteq> None \<Longrightarrow> tslot (thr s' t) \<noteq> None"
proof -
  have "(no_refs t s \<longrightarrow> no_refs t s') \<and> (h \<noteq> Stop \<longrightarrow> tslot (thr s t) \<noteq> None \<longrightarrow> tslot (thr s' t) \<noteq> None)"
    using assms
  proof (induction evs arbitrary: s)
    case (Cons ev evs)
    then obtain s1 where s1: "step ev s = Some s1" "run evs s1 = Some s'"
      by (auto split: option.splits)
    have r1: "reachable s1"
      by (rule reachable.step [OF Cons.prems(3) s1(1)])
    have "(no_refs t s \<longrightarrow> no_refs t s1) \<and> (h \<noteq> Stop \<longrightarrow> tslot (thr s t) \<noteq> None \<longrightarrow> tslot (thr s1 t) \<noteq> None)"
    proof (cases "ev_tid ev = t")
      case True
      then obtain i where "ev = Hook h t i"
        using Cons.prems(2) by auto
      then have "run_hook h t i s = Some s1"
        using s1(1) by simp
      then show ?thesis
        using hook_frame_run_hook hook_keeps_slot by (fastforce simp: hook_frame_def)
    next
      case False
      then show ?thesis
        using other_thread_step [OF reachable_thread_inv [OF Cons.prems(3)] s1(1)] by simp
    qed
    then show ?case
      using Cons.IH [OF s1(2) _ r1] Cons.prems(2) by simp
  qed simp
  then show "no_refs t s \<Longrightarrow> no_refs t s'" and "h \<noteq> Stop \<Longrightarrow> tslot (thr s t) \<noteq> None \<Longrightarrow> tslot (thr s' t) \<noteq> None"
    by blast+
qed

lemma polling_has_slot:
  assumes "reachable s" and "tpc (thr s t) = Polling"
  shows "tslot (thr s t) \<noteq> None"
  using thread_invD(6) [OF reachable_thread_inv [OF assms(1)]] assms(2) unfolding inv_pos_def by fastforce

lemma performs_between:
  assumes b: "between_acts t s" and p: "performs t a s s'" and slot: "a \<noteq> CallHook BeforePoll \<Longrightarrow> tslot (thr s t) \<noteq> None"
  shows "between_acts t s'" and "a \<noteq> CallHook Stop \<Longrightarrow> tslot (thr s' t) \<noteq> None"
proof -
  obtain evs where e: "run evs s = Some s'" "\<forall>ev \<in> set evs. act_event t a ev" and post: "tpc (thr s' t) = act_post a"
    using p by (auto simp: performs_def)
  have r: "reachable s" "reachable s'"
    using b reachable_run [OF _ e(1)] by (auto simp: between_acts_def)
  have refs: "no_refs t s'"
  proof (cases a)
    case (CallHook h)
    then show ?thesis
      using hook_run_keeps(1) [OF e(1) _ r(1)] e(2) b by (auto simp: between_acts_def)
  next
    case PollInner
    then show ?thesis
      using p by (simp add: performs_def)
  qed
  show sl: "tslot (thr s' t) \<noteq> None" if ns: "a \<noteq> CallHook Stop"
  proof (cases "a = CallHook BeforePoll \<or> a = PollInner")
    case True
    then show ?thesis
      using polling_has_slot [OF r(2)] post by auto
  next
    case False
    then obtain h where "a = CallHook h" "h \<noteq> Stop"
      using ns by (cases a) auto
    then show ?thesis
      using hook_run_keeps(2) [OF e(1) _ r(1)] e(2) slot False by simp
  qed
  have "a = CallHook Stop \<Longrightarrow> tpc (thr s' t) = Stopped"
    using post by simp
  then show "between_acts t s'"
    using refs r(2) sl by (auto simp: between_acts_def slot_left_def is_rcu_tracked_thread_def)
qed

lemma act_possible:
  assumes b: "between_acts t s" and pc: "tpc (thr s t) = act_pre a"
  shows "\<exists>s'. performs t a s s'"
proof (cases a)
  case (CallHook h)
  then have "tpc (thr s t) \<noteq> Stopped"
    using pc act_pre_Stopped by metis
  then show ?thesis
    using b pc CallHook hook_performs [of s t h] by (simp add: between_acts_def)
next
  case PollInner
  then show ?thesis
    using b pc by (intro exI [of _ s]) (auto simp: performs_def between_acts_def intro!: exI [of _ "[]"])
qed

lemma performs_all_life: "performs_all t as s s' \<Longrightarrow> life (tpc (thr s t)) as = Some (tpc (thr s' t))"
proof (induction as arbitrary: s)
  case (Cons a as)
  then obtain u where "performs t a s u" "performs_all t as u s'"
    by auto
  then show ?case
    using Cons.IH [of u] by (simp add: performs_def)
qed simp

lemma life_middle: "life p (xs @ a # ys) = Some p' \<Longrightarrow> life p xs = Some (act_pre a)"
  by (induction xs arbitrary: p) (auto split: if_splits)

lemma performs_all_between:
  assumes "performs_all t xs s s'" and "between_acts t s" and "tslot (thr s t) \<noteq> None \<or> (\<exists>ys. xs = CallHook BeforePoll # ys)"
  shows "between_acts t s'"
  using assms
proof (induction xs arbitrary: s)
  case (Cons a xs)
  then obtain u where u: "performs t a s u" "performs_all t xs u s'"
    by auto
  have slot: "a \<noteq> CallHook BeforePoll \<Longrightarrow> tslot (thr s t) \<noteq> None"
    using Cons.prems(3) by auto
  note B = performs_between [OF Cons.prems(2) u(1) slot]
  show ?case
  proof (cases "a = CallHook Stop")
    case True
    then have "xs = []"
      using performs_all_life [OF u(2)] u(1) by (auto simp: performs_def dest: life_Stopped)
    then show ?thesis
      using B(1) u(2) by simp
  next
    case False
    then show ?thesis
      using Cons.IH [OF u(2) B(1)] B(2) by simp
  qed
qed simp

lemma block_on_first:
  assumes "block_on inner_poll (Suc n) (root_future_new f) = (res, as)"
  obtains as' where "as = CallHook BeforePoll # as'"
  using assms
  by (auto simp: root_future_poll_def root_future_new_def Let_def split: prod.splits poll_result.splits)

lemma root_future_goes_on:
  fixes s :: "('w::len, 'g::len) rcu"
  assumes s: "between_acts t s" "tpc (thr s t) = Idle" and b: "block_on inner_poll n (root_future_new f) = (res, as)" and pos: "0 < n"
  shows "as = xs @ a # ys \<Longrightarrow> performs_all t xs s s1 \<Longrightarrow> \<exists>s2. performs t a s1 s2"
    and "performs_all t as s s1 \<Longrightarrow> tpc (thr s1 t) = (case res of Ready _ \<Rightarrow> Stopped | Pending \<Rightarrow> Parked)"
proof -
  have l: "life (Idle :: 'w word tpc) as = Some (case res of Ready _ \<Rightarrow> Stopped | Pending \<Rightarrow> Parked)"
    using block_on_life [OF b pos] by (simp add: root_future_new_def)
  obtain k where "n = Suc k"
    using pos by (cases n) auto
  then obtain as' where as: "as = CallHook BeforePoll # as'"
    using block_on_first b by metis
  show "tpc (thr s1 t) = (case res of Ready _ \<Rightarrow> Stopped | Pending \<Rightarrow> Parked)" if "performs_all t as s s1"
    using performs_all_life [OF that] l s(2) by simp
  assume x: "as = xs @ a # ys" "performs_all t xs s s1"
  have "xs = [] \<or> (\<exists>zs. xs = CallHook BeforePoll # zs)"
    using as x(1) by (cases xs) auto
  then have "between_acts t s1"
    using performs_all_between [OF x(2) s(1)] x(2) s(1) by auto
  moreover have "tpc (thr s1 t) = act_pre a"
    using performs_all_life [OF x(2)] life_middle [OF l [unfolded x(1)]] s(2) by simp
  ultimately show "\<exists>s2. performs t a s1 s2"
    by (rule act_possible)
qed

text \<open>So all of it can be run.\<close>

lemma performs_all_snoc: "performs_all t (xs @ [a]) s s' \<longleftrightarrow> (\<exists>u. performs_all t xs s u \<and> performs t a u s')"
  by (induction xs arbitrary: s) auto

lemma root_future_performs_all:
  fixes s :: "('w::len, 'g::len) rcu"
  assumes s: "between_acts t s" "tpc (thr s t) = Idle" and b: "block_on inner_poll n (root_future_new f) = (res, as)" and pos: "0 < n"
  shows "\<exists>s'. performs_all t as s s'"
proof -
  have "as = xs @ ys \<Longrightarrow> \<exists>s'. performs_all t xs s s'" for xs ys
  proof (induction xs arbitrary: ys rule: rev_induct)
    case (snoc a xs)
    then obtain s1 where s1: "performs_all t xs s s1"
      by auto
    from root_future_goes_on(1) [OF s b pos _ this, of a ys] snoc.prems obtain s2 where "performs t a s1 s2"
      by auto
    with s1 show ?case
      unfolding performs_all_snoc by blast
  qed (intro exI [of _ s], simp)
  then show ?thesis
    by simp
qed

end
