(* ===== verification/Rcu_Primitives.thy ===== *)
theory Rcu_Primitives
  imports Root_Future
begin

text \<open>
  The primitives as sequential code: \<open>src/src/primitives/rcu_box.rs\<close> and \<open>src/src/primitives/rcu_waitable.rs\<close>,
  with the allocations behind them. A \<open>Box\<close> is the address of a live allocation and its ownership; \<open>into_raw\<close> and
  \<open>from_raw\<close> give up and take back the ownership and leave the allocation alone. The heap maps the addresses of
  the live allocations to their contents. \<open>None\<close> is undefined behaviour: a use of an allocation that is not live.
\<close>

subsection \<open>Boxes\<close>

type_synonym 'v heap = "nat \<Rightarrow> 'v option"

datatype box = Box (box_into_raw: nat)

abbreviation box_from_raw :: "nat \<Rightarrow> box" where
  "box_from_raw \<equiv> Box"

definition box_deref :: "nat \<Rightarrow> 'v heap \<Rightarrow> 'v option" where
  "box_deref p h = h p"

definition box_drop :: "box \<Rightarrow> 'v heap \<Rightarrow> 'v heap option" where
  "box_drop b h = map_option (\<lambda>_. h(box_into_raw b := None)) (h (box_into_raw b))"

subsection \<open>\<open>RcuBox\<close>\<close>

record rcu_box =
  value_ptr :: nat

record rcu_box_old_data =
  old_data_ptr :: nat

definition rcu_box_new :: "box \<Rightarrow> rcu_box" where
  "rcu_box_new value = \<lparr>value_ptr = box_into_raw value\<rparr>"

definition rcu_box_deref :: "rcu_box \<Rightarrow> 'v heap \<Rightarrow> 'v option" where
  "rcu_box_deref b h = (let ptr = value_ptr b in box_deref ptr h)"

definition rcu_box_replace :: "box \<Rightarrow> rcu_box \<Rightarrow> rcu_box_old_data \<times> rcu_box" where
  "rcu_box_replace new_value b =
     (let new_value_ptr = box_into_raw new_value; old_value_ptr = value_ptr b
      in (\<lparr>old_data_ptr = old_value_ptr\<rparr>, b\<lparr>value_ptr := new_value_ptr\<rparr>))"

definition rcu_box_drop :: "rcu_box \<Rightarrow> 'v heap \<Rightarrow> 'v heap option" where
  "rcu_box_drop b h = (let ptr = value_ptr b in box_drop (box_from_raw ptr) h)"

definition old_data_into_output :: "rcu_box_old_data \<Rightarrow> box" where
  "old_data_into_output d = box_from_raw (old_data_ptr d)"

text \<open>Dropping old data panics, unless the thread is panicking already; the allocation leaks either way.\<close>

datatype drop_outcome = DropPanics | Leaks

definition old_data_drop :: "bool \<Rightarrow> rcu_box_old_data \<Rightarrow> drop_outcome" where
  "old_data_drop panicking d = (if \<not> panicking then DropPanics else Leaks)"

subsection \<open>\<open>RcuWaitable\<close>\<close>

text \<open>\<open>RcuWaitableWait\<close>: the value, until it is taken, and the future of \<open>synchronize_rcu\<close>.\<close>

record ('a, 'f) rcu_waitable_wait =
  src_value :: "'a option"
  synchronize :: 'f

definition waitable_wait :: "'a \<Rightarrow> 'f \<Rightarrow> ('a, 'f) rcu_waitable_wait" where
  "waitable_wait a f = \<lparr>src_value = Some a, synchronize = f\<rparr>"

text \<open>
  A future of the language: a state, until it has finished; a poll after that panics (\<open>None\<close>). \<open>body\<close> runs it to its
  next \<open>await\<close> or to its end, and changes the state of the system.
\<close>

fun async_poll ::
    "('f \<Rightarrow> 's \<Rightarrow> unit poll_result \<times> 'f \<times> 's) \<Rightarrow> 'f option \<Rightarrow> 's \<Rightarrow> (unit poll_result \<times> 'f option \<times> 's) option" where
  "async_poll body None s = None"
| "async_poll body (Some f) s =
     (case body f s of
        (Pending, f', s') \<Rightarrow> Some (Pending, Some f', s')
      | (Ready r, _, s') \<Rightarrow> Some (Ready r, None, s'))"

text \<open>
  A poll of the wait polls \<open>synchronize_rcu\<close>, whose poll function is a parameter. \<open>take().expect(..)\<close> panics when the
  value has been taken.
\<close>

datatype wait_error = SynchronizePanicked | PolledAfterCompletion

definition wait_poll ::
    "('f \<Rightarrow> 's \<Rightarrow> (unit poll_result \<times> 'f \<times> 's) option) \<Rightarrow> ('a \<Rightarrow> 'o) \<Rightarrow> ('a, 'f) rcu_waitable_wait \<Rightarrow> 's \<Rightarrow>
     wait_error + 'o poll_result \<times> ('a, 'f) rcu_waitable_wait \<times> 's" where
  "wait_poll sync_poll into_output w s =
     (case sync_poll (synchronize w) s of
        None \<Rightarrow> Inl SynchronizePanicked
      | Some (Pending, f, s') \<Rightarrow> Inr (Pending, w\<lparr>synchronize := f\<rparr>, s')
      | Some (Ready _, f, s') \<Rightarrow>
          (case src_value w of
             None \<Rightarrow> Inl PolledAfterCompletion
           | Some a \<Rightarrow> Inr (Ready (into_output a), \<lparr>src_value = None, synchronize = f\<rparr>, s')))"

text \<open>
  The macro for tuples, on a pair of tuples: the instance for \<open>n\<close> elements is the one for a pair whose second
  element is the tuple of the remaining ones.
\<close>

definition pair_into_output :: "('a \<Rightarrow> 'o) \<Rightarrow> ('b \<Rightarrow> 'p) \<Rightarrow> 'a \<times> 'b \<Rightarrow> 'o \<times> 'p" where
  "pair_into_output io1 io2 = (\<lambda>(a, b). (io1 a, io2 b))"

text \<open>An executor polls the future until it is ready, at most \<open>n\<close> times.\<close>

fun wait_block_on ::
    "('f \<Rightarrow> 's \<Rightarrow> (unit poll_result \<times> 'f \<times> 's) option) \<Rightarrow> ('a \<Rightarrow> 'o) \<Rightarrow> nat \<Rightarrow> ('a, 'f) rcu_waitable_wait \<Rightarrow> 's \<Rightarrow>
     wait_error + 'o poll_result \<times> ('a, 'f) rcu_waitable_wait \<times> 's" where
  "wait_block_on sync_poll into_output 0 w s = Inr (Pending, w, s)"
| "wait_block_on sync_poll into_output (Suc n) w s =
     (case wait_poll sync_poll into_output w s of
        Inr (Pending, w', s') \<Rightarrow> wait_block_on sync_poll into_output n w' s'
      | r \<Rightarrow> r)"

text \<open>The future \<open>f\<close> is ready at the \<open>k\<close>-th poll and not before, when it is polled from \<open>s\<close> on.\<close>

fun ready_after :: "('f \<Rightarrow> 's \<Rightarrow> unit poll_result \<times> 'f \<times> 's) \<Rightarrow> nat \<Rightarrow> 'f \<Rightarrow> 's \<Rightarrow> 's option" where
  "ready_after body 0 f s = (case body f s of (Ready _, f', s') \<Rightarrow> Some s' | _ \<Rightarrow> None)"
| "ready_after body (Suc k) f s = (case body f s of (Pending, f', s') \<Rightarrow> ready_after body k f' s' | _ \<Rightarrow> None)"

text \<open>The executor gets the output once \<open>synchronize_rcu\<close> is ready; the value has then been taken.\<close>

lemma wait_block_on_ready:
  assumes "ready_after body k f s = Some s'" and "k < n"
  shows "wait_block_on (async_poll body) into_output n (waitable_wait a (Some f)) s =
    Inr (Ready (into_output a), \<lparr>src_value = None, synchronize = None\<rparr>, s')"
  using assms
proof (induction k arbitrary: f s n)
  case 0
  then show ?case
    by (cases n) (auto simp: wait_poll_def waitable_wait_def split: prod.splits poll_result.splits)
next
  case (Suc k)
  then show ?case
    by (cases n) (auto simp: wait_poll_def waitable_wait_def split: prod.splits poll_result.splits)
qed

text \<open>
  The value is there exactly as long as \<open>synchronize_rcu\<close> can be polled, so the \<open>expect\<close> never fails: a poll after the
  output panics in \<open>synchronize_rcu\<close> already.
\<close>

definition wait_ok :: "('a, 'f option) rcu_waitable_wait \<Rightarrow> bool" where
  "wait_ok w \<longleftrightarrow> (src_value w = None \<longleftrightarrow> synchronize w = None)"

lemma wait_ok_new: "wait_ok (waitable_wait a (Some f))"
  by (simp add: wait_ok_def waitable_wait_def)

lemma wait_ok_poll:
  assumes "wait_ok w"
  shows "wait_poll (async_poll body) into_output w s = Inr (res, w', s') \<Longrightarrow> wait_ok w'"
    and "wait_poll (async_poll body) into_output w s = Inl e \<Longrightarrow> e = SynchronizePanicked \<and> src_value w = None"
  using assms by (cases "synchronize w"; auto simp: wait_poll_def wait_ok_def split: prod.splits poll_result.splits)+

subsection \<open>The contract of a waitable\<close>

text \<open>
  What a waitable promises: its output owns the allocations that the waitable owned, no more and no less.
\<close>

locale rcu_waitable =
  fixes into_output :: "'a \<Rightarrow> 'o" and ptrs :: "'a \<Rightarrow> nat list" and owned :: "'o \<Rightarrow> nat list"
  assumes owned_into_output: "owned (into_output a) = ptrs a"
begin

lemma owned_wait:
  assumes "ready_after body k f s = Some s'" and "k < n"
  shows "\<exists>out w. wait_block_on (async_poll body) into_output n (waitable_wait a (Some f)) s = Inr (Ready out, w, s') \<and>
    src_value w = None \<and> owned out = ptrs a"
  by (simp add: wait_block_on_ready [OF assms] owned_into_output)

end

text \<open>Old data of an \<open>RcuBox\<close> is a waitable.\<close>

interpretation old_data: rcu_waitable old_data_into_output "\<lambda>d. [old_data_ptr d]" "\<lambda>b. [box_into_raw b]"
  by unfold_locales (simp add: old_data_into_output_def)

text \<open>A pair of waitables is a waitable, and so is every tuple of old data.\<close>

locale two_waitables =
  a: rcu_waitable io1 ptrs1 owned1 + b: rcu_waitable io2 ptrs2 owned2
  for io1 :: "'a \<Rightarrow> 'o" and ptrs1 owned1 and io2 :: "'b \<Rightarrow> 'p" and ptrs2 owned2

sublocale two_waitables \<subseteq> pair: rcu_waitable "pair_into_output io1 io2" "\<lambda>(a, b). ptrs1 a @ ptrs2 b"
  "\<lambda>(x, y). owned1 x @ owned2 y"
  by unfold_locales (auto simp: pair_into_output_def a.owned_into_output b.owned_into_output)

interpretation pair: two_waitables old_data_into_output "\<lambda>d. [old_data_ptr d]" "\<lambda>b. [box_into_raw b]"
  old_data_into_output "\<lambda>d. [old_data_ptr d]" "\<lambda>b. [box_into_raw b]"
  by unfold_locales

end
