(* ===== verification/Box_Heap.thy ===== *)
theory Box_Heap
  imports Box_Frame Rcu_Primitives
begin

text \<open>
  The primitives on top of the machine: a program whose threads create, change and drop \<open>Box\<close>es, swap them into
  \<open>RcuBox\<close>es, read these, and get them back from \<open>wait\<close>, in any interleaving and with any weakly ordered load. Every
  version of a box is an address; the allocator may hand out an address again as soon as its allocation is gone.
\<close>

subsection \<open>The program\<close>

text \<open>
  \<open>boxes\<close>: the allocations that user code owns as a \<open>Box\<close>. \<open>content\<close> is auxiliary: the value in a version of an
  \<open>RcuBox\<close> when it was swapped in.
\<close>

record ('v, 'e, 'g) prog =
  heap :: "'v heap"
  boxes :: "nat set"
  content :: "nat \<times> nat \<Rightarrow> 'v"
  crate :: "('e, 'g) sys"

text \<open>The code of user threads; \<open>BoxNew p v\<close> when the allocator returns \<open>p\<close>.\<close>

datatype 'v action = BoxNew nat 'v | BoxRead nat | BoxWrite nat 'v | BoxDrop nat | Crate event

text \<open>
  \<open>NotPossible\<close>: no thread can take this step here. \<open>UndefinedBehaviour\<close>: a use of an allocation that is gone, or
  a \<open>Box\<close> for an allocation that has an owner.
\<close>

datatype 'a result = NotPossible | UndefinedBehaviour | Done 'a

definition deref :: "nat \<Rightarrow> ('v, 'e, 'g) prog \<Rightarrow> ('v list \<times> ('v, 'e, 'g) prog) result" where
  "deref p c = (case box_deref p (heap c) of None \<Rightarrow> UndefinedBehaviour | Some v \<Rightarrow> Done ([v], c))"

definition taken_back :: "('e, 'g) sys \<Rightarrow> nat \<times> nat \<Rightarrow> nat" where
  "taken_back s x = box_into_raw (old_data_into_output \<lparr>old_data_ptr = version_ptr s x\<rparr>)"

text \<open>What an event of the machine does with the boxes; \<open>s'\<close> is the state of the crate after it.\<close>

fun crate_effect ::
    "event \<Rightarrow> ('v, 'e, 'g) prog \<Rightarrow> ('e, 'g) sys \<Rightarrow> ('v list \<times> ('v, 'e, 'g) prog) result" where
  "crate_effect (Read t b i) c s' =
     (case rcu_box_deref \<lparr>value_ptr = version_ptr s' (b, i)\<rparr> (heap c) of
        None \<Rightarrow> UndefinedBehaviour | Some v \<Rightarrow> Done ([v], c\<lparr>crate := s'\<rparr>))"
| "crate_effect (UseRef t b ts) c s' = deref (version_ptr s' (b, ts)) (c\<lparr>crate := s'\<rparr>)"
| "crate_effect (Swap t b p) c s' =
     (case heap c p of
        None \<Rightarrow> UndefinedBehaviour
      | Some v \<Rightarrow> Done ([], c\<lparr>boxes := boxes c - {p},
          content := (content c)((b, last_ix (mem s') (LPtr b)) := v), crate := s'\<rparr>))"
| "crate_effect (WaitReturn q t) c s' =
     (let vs = olds (ops (crate c) q); ps = taken_back (crate c) ` vs
      in if inj_on (taken_back (crate c)) vs \<and> boxes c \<inter> ps = {} \<and> (\<forall>p \<in> ps. heap c p \<noteq> None)
         then Done ([], c\<lparr>boxes := boxes c \<union> ps, crate := s'\<rparr>) else UndefinedBehaviour)"
| "crate_effect ev c s' = Done ([], c\<lparr>crate := s'\<rparr>)"

text \<open>Only the owner of a \<open>Box\<close> can use it, drop it, or move it into an \<open>RcuBox\<close>.\<close>

fun owns :: "event \<Rightarrow> nat set \<Rightarrow> bool" where
  "owns (Swap t b p) bs = (p \<in> bs)"
| "owns ev bs = True"

fun act :: "'v action \<Rightarrow> ('v, 'w::len word, 'g::len word) prog \<Rightarrow> ('v list \<times> ('v, 'w word, 'g word) prog) result" where
  "act (BoxNew p v) c =
     (if heap c p = None then Done ([], c\<lparr>heap := (heap c)(p \<mapsto> v), boxes := insert p (boxes c)\<rparr>) else NotPossible)"
| "act (BoxRead p) c = (if p \<in> boxes c then deref p c else NotPossible)"
| "act (BoxWrite p v) c =
     (if p \<notin> boxes c then NotPossible
      else if heap c p = None then UndefinedBehaviour else Done ([], c\<lparr>heap := (heap c)(p \<mapsto> v)\<rparr>))"
| "act (BoxDrop p) c =
     (if p \<notin> boxes c then NotPossible
      else case box_drop (box_from_raw p) (heap c) of
        None \<Rightarrow> UndefinedBehaviour
      | Some h \<Rightarrow> Done ([], c\<lparr>heap := h, boxes := boxes c - {p}\<rparr>))"
| "act (Crate ev) c =
     (if owns ev (boxes c)
      then (case step ev (crate c) of None \<Rightarrow> NotPossible | Some s' \<Rightarrow> crate_effect ev c s') else NotPossible)"

text \<open>Every \<open>RcuBox\<close> starts with an allocation of its own.\<close>

definition prog_start :: "'e \<Rightarrow> (nat \<Rightarrow> nat) \<Rightarrow> 'v heap \<Rightarrow> ('v, 'e, 'g::zero) prog" where
  "prog_start e0 addr h = \<lparr>heap = h, boxes = {}, content = (\<lambda>x. the (h (addr (fst x)))), crate = init_sys e0 addr\<rparr>"

inductive prog_reachable :: "('v, 'w::len word, 'g::len word) prog \<Rightarrow> bool" where
  start: "start_ok e0 \<Longrightarrow> inj addr \<Longrightarrow> (\<And>b. h (addr b) \<noteq> None) \<Longrightarrow> prog_reachable (prog_start e0 addr h)"
| act: "prog_reachable c \<Longrightarrow> act a c = Done (vs, c') \<Longrightarrow> prog_reachable c'"

lemma crate_effect_crate: "crate_effect ev c s' = Done (vs, c') \<Longrightarrow> crate c' = s'"
  by (cases ev) (auto simp: deref_def Let_def split: if_splits option.splits)

lemma act_crate:
  assumes "act a c = Done (vs, c')"
  shows "crate c' = crate c \<or> (\<exists>ev. step ev (crate c) = Some (crate c'))"
proof (cases a)
  case (Crate ev)
  then obtain s' where "step ev (crate c) = Some s'" "crate_effect ev c s' = Done (vs, c')"
    using assms by (auto split: if_splits option.splits)
  then show ?thesis
    using crate_effect_crate by blast
qed (use assms in \<open>auto simp: deref_def split: if_splits option.splits\<close>)

lemma prog_reachable_crate: "prog_reachable c \<Longrightarrow> reachable (crate c)"
proof (induction rule: prog_reachable.induct)
  case (start e0 addr h)
  then show ?case
    by (simp add: prog_start_def reachable.init)
next
  case (act c a vs c')
  then show ?case
    using act_crate [OF act.hyps(2)] by (auto intro: reachable.step)
qed

subsection \<open>Invariant\<close>

text \<open>Every version that has not been given back has an allocation of its own, which no \<open>Box\<close> owns.\<close>

definition prog_inv :: "('v, 'e, 'g) prog \<Rightarrow> bool" where
  "prog_inv c \<longleftrightarrow> inj_on (version_ptr (crate c)) (versions (crate c)) \<and>
     (\<forall>x \<in> versions (crate c). version_ptr (crate c) x \<notin> boxes c \<and>
        heap c (version_ptr (crate c) x) = Some (content c x)) \<and>
     (\<forall>p \<in> boxes c. heap c p \<noteq> None)"

lemma prog_invD:
  assumes "prog_inv c"
  shows "inj_on (version_ptr (crate c)) (versions (crate c))"
    and "x \<in> versions (crate c) \<Longrightarrow> version_ptr (crate c) x \<notin> boxes c"
    and "x \<in> versions (crate c) \<Longrightarrow> heap c (version_ptr (crate c) x) = Some (content c x)"
    and "p \<in> boxes c \<Longrightarrow> heap c p \<noteq> None"
  using assms by (auto simp: prog_inv_def)

lemma prog_inv_start:
  assumes "inj addr" and "\<And>b. h (addr b) \<noteq> None"
  shows "prog_inv (prog_start e0 addr h)"
  using assms by (auto simp: prog_inv_def prog_start_def versions_def version_ptr_def mval_def inj_on_def)

text \<open>The owner of a \<open>Box\<close> does what it likes with it; the versions are somewhere else.\<close>

lemma prog_inv_owner:
  assumes "prog_inv c" and "crate c' = crate c" and "content c' = content c" and "boxes c' - {p} \<subseteq> boxes c"
    and "p \<in> boxes c \<or> heap c p = None" and "\<And>a. a \<noteq> p \<Longrightarrow> heap c' a = heap c a"
    and "p \<in> boxes c' \<Longrightarrow> heap c' p \<noteq> None"
  shows "prog_inv c'"
proof -
  have p: "version_ptr (crate c) x \<noteq> p" if "x \<in> versions (crate c)" for x
    using assms(5) prog_invD(2,3) [OF assms(1) that] by auto
  have "version_ptr (crate c) x \<notin> boxes c' \<and> heap c' (version_ptr (crate c) x) = Some (content c x)"
    if "x \<in> versions (crate c)" for x
    using p [OF that] prog_invD(2,3) [OF assms(1) that] assms(4,6) by auto
  moreover have "heap c' a \<noteq> None" if "a \<in> boxes c'" for a
    using that assms(4,6,7) prog_invD(4) [OF assms(1), of a] by (cases "a = p") auto
  ultimately show ?thesis
    using prog_invD(1) [OF assms(1)] unfolding prog_inv_def assms(2,3) by blast
qed

text \<open>An event that leaves the versions alone.\<close>

lemma prog_inv_same:
  assumes "prog_inv c" and "versions s' = versions (crate c)" and "version_ptr s' = version_ptr (crate c)"
  shows "prog_inv (c\<lparr>crate := s'\<rparr>)"
  using assms by (simp add: prog_inv_def)

lemma prog_inv_swap:
  assumes inv: "prog_inv c" and r: "reachable (crate c)" and st: "rcu_box_swap t b p (crate c) = Some s'"
    and p: "p \<in> boxes c" "heap c p = Some v"
  shows "prog_inv (c\<lparr>boxes := boxes c - {p}, content := (content c)((b, last_ix (mem s') (LPtr b)) := v), crate := s'\<rparr>)"
    (is "prog_inv ?c")
proof -
  let ?x = "(b, last_ix (mem s') (LPtr b))"
  note V = versions_swap [OF r st]
  note I = prog_invD [OF inv]
  have p': "version_ptr (crate c) y \<noteq> p" if "y \<in> versions (crate c)" for y
    using I(2) [OF that] p(1) by auto
  have "inj_on (version_ptr s') (versions s')"
    unfolding V(1)
  proof (rule inj_on_insert [THEN iffD2], intro conjI)
    show "inj_on (version_ptr s') (versions (crate c))"
      using inj_on_cong [of "versions (crate c)" "version_ptr s'" "version_ptr (crate c)"] V(4) I(1) by blast
    show "version_ptr s' ?x \<notin> version_ptr s' ` (versions (crate c) - {?x})"
      using V(3,4) p' by fastforce
  qed
  moreover have "version_ptr s' y \<notin> boxes ?c \<and> heap ?c (version_ptr s' y) = Some (content ?c y)"
    if "y \<in> versions s'" for y
    using that V I(2,3) p(2) by (cases "y = ?x") auto
  ultimately show ?thesis
    using I(4) by (simp add: prog_inv_def)
qed

lemma prog_inv_wait_return:
  assumes inv: "prog_inv c" and r: "reachable (crate c)" and st: "wait_return q t (crate c) = Some s'"
  defines "vs \<equiv> olds (ops (crate c) q)"
  shows "prog_inv (c\<lparr>boxes := boxes c \<union> version_ptr (crate c) ` vs, crate := s'\<rparr>)"
    and "inj_on (version_ptr (crate c)) vs" and "boxes c \<inter> version_ptr (crate c) ` vs = {}"
    and "x \<in> vs \<Longrightarrow> heap c (version_ptr (crate c) x) = Some (content c x)"
proof -
  note V = versions_wait_return [OF r st, folded vs_def]
  note I = prog_invD [OF inv]
  show "inj_on (version_ptr (crate c)) vs"
    by (rule inj_on_subset [OF I(1) V(2)])
  show "boxes c \<inter> version_ptr (crate c) ` vs = {}"
    using I(2) V(2) by blast
  show live: "x \<in> vs \<Longrightarrow> heap c (version_ptr (crate c) x) = Some (content c x)" for x
    using I(3) V(2) by blast
  have "version_ptr (crate c) y \<notin> version_ptr (crate c) ` vs" if "y \<in> versions (crate c) - vs" for y
    using inj_onD [OF I(1)] that V(2) by blast
  then show "prog_inv (c\<lparr>boxes := boxes c \<union> version_ptr (crate c) ` vs, crate := s'\<rparr>)"
    using I live inj_on_subset [OF I(1), of "versions (crate c) - vs"] unfolding prog_inv_def
    by (auto simp: V(1,3))
qed

lemma taken_back_version_ptr [simp]: "taken_back s = version_ptr s"
  by (simp add: fun_eq_iff taken_back_def old_data_into_output_def)

lemma read_version:
  assumes r: "reachable s" and "rcu_box_read t b i s = Some s'"
  shows "(b, i) \<in> versions s'"
proof -
  have "reachable s'"
    using reachable.step [OF r, of "Read t b i"] assms(2) by simp
  moreover have "(b, i) \<in> held (thr s' t)"
    using assms(2) by (auto simp: rcu_box_read_def record_access_def Let_def split: option.splits if_splits)
  ultimately show ?thesis
    by (rule held_versions)
qed

lemma use_version:
  assumes r: "reachable s" and st: "use_reference t b ts s = Some s'"
  shows "(b, ts) \<in> versions s'"
proof -
  have "(b, ts) \<in> held (thr s t)"
    using st by (auto simp: use_reference_def split: option.splits if_splits)
  from held_versions [OF r this] show ?thesis
    using versions_step [OF r, of "UseRef t b ts" s'] st by simp
qed

subsection \<open>Every action\<close>

lemma crate_effect_ok:
  assumes inv: "prog_inv c" and r: "reachable (crate c)" and st: "step ev (crate c) = Some s'" and o: "owns ev (boxes c)"
  shows "\<exists>vs c'. crate_effect ev c s' = Done (vs, c') \<and> prog_inv c'"
proof (cases ev)
  case (Swap t b p)
  then obtain v where "p \<in> boxes c" "heap c p = Some v" "rcu_box_swap t b p (crate c) = Some s'"
    using o st prog_invD(4) [OF inv, of p] by auto
  with prog_inv_swap [OF inv r this(3,1,2)] Swap show ?thesis
    by simp
next
  case (WaitReturn q t)
  then have "wait_return q t (crate c) = Some s'"
    using st by simp
  from prog_inv_wait_return [OF inv r this] WaitReturn show ?thesis
    by (auto simp: Let_def)
next
  case (Read t b i)
  then have "(b, i) \<in> versions s'" and V: "versions s' = versions (crate c)" "version_ptr s' = version_ptr (crate c)"
    using st read_version [OF r] versions_step [OF r st] by auto
  then show ?thesis
    using prog_inv_same [OF inv V] prog_invD(3) [OF inv, of "(b, i)"] Read
    by (simp add: rcu_box_deref_def box_deref_def)
next
  case (UseRef t b i)
  then have "(b, i) \<in> versions s'" and V: "versions s' = versions (crate c)" "version_ptr s' = version_ptr (crate c)"
    using st use_version [OF r] versions_step [OF r st] by auto
  then show ?thesis
    using prog_inv_same [OF inv V] prog_invD(3) [OF inv, of "(b, i)"] UseRef
    by (simp add: deref_def box_deref_def)
qed (use st prog_inv_same [OF inv versions_step [OF r st]] in simp_all)

lemma act_ok:
  assumes inv: "prog_inv c" and r: "reachable (crate c)"
  shows "act a c \<noteq> UndefinedBehaviour \<and> (\<forall>vs c'. act a c = Done (vs, c') \<longrightarrow> prog_inv c')"
proof (cases a)
  case (BoxNew p v)
  show ?thesis
    using prog_inv_owner [OF inv, of "c\<lparr>heap := (heap c)(p \<mapsto> v), boxes := insert p (boxes c)\<rparr>" p] BoxNew by auto
next
  case (BoxRead p)
  then show ?thesis
    using inv prog_invD(4) [OF inv, of p] by (auto simp: deref_def box_deref_def split: option.splits)
next
  case (BoxWrite p v)
  then show ?thesis
    using prog_inv_owner [OF inv, of "c\<lparr>heap := (heap c)(p \<mapsto> v)\<rparr>" p] prog_invD(4) [OF inv, of p] by auto
next
  case (BoxDrop p)
  then show ?thesis
    using prog_inv_owner [OF inv, of "c\<lparr>heap := (heap c)(p := None), boxes := boxes c - {p}\<rparr>" p]
      prog_invD(4) [OF inv, of p] by (auto simp: box_drop_def)
next
  case (Crate ev)
  show ?thesis
  proof (cases "owns ev (boxes c) \<and> step ev (crate c) \<noteq> None")
    case True
    then obtain s' where s': "step ev (crate c) = Some s'" "owns ev (boxes c)"
      by blast
    from crate_effect_ok [OF inv r s'] s' Crate show ?thesis
      by auto
  qed (use Crate in \<open>auto split: option.splits\<close>)
qed

lemma prog_reachable_inv: "prog_reachable c \<Longrightarrow> prog_inv c"
proof (induction rule: prog_reachable.induct)
  case (start e0 addr h)
  then show ?case
    by (intro prog_inv_start)
next
  case (act c a vs c')
  then show ?case
    using act_ok [OF act.IH prog_reachable_crate [OF act.hyps(1)], of a] by blast
qed

subsection \<open>A version keeps its allocation and its value\<close>

definition exists_in :: "('e, 'g) sys \<Rightarrow> nat \<times> nat \<Rightarrow> bool" where
  "exists_in s x \<longleftrightarrow> snd x < length (hist (mem s) (LPtr (fst x)))"

text \<open>\<open>c'\<close> is later than \<open>c\<close>: what there was is the same.\<close>

definition later :: "('v, 'e, 'g) prog \<Rightarrow> ('v, 'e, 'g) prog \<Rightarrow> bool" where
  "later c c' \<longleftrightarrow> (\<forall>x. exists_in (crate c) x \<longrightarrow>
     exists_in (crate c') x \<and> version_ptr (crate c') x = version_ptr (crate c) x \<and> content c' x = content c x)"

lemma laterD:
  assumes "later c c'" and "exists_in (crate c) x"
  shows "version_ptr (crate c') x = version_ptr (crate c) x" and "content c' x = content c x"
  using assms unfolding later_def by blast+

lemma later_refl [simp]: "later c c"
  by (simp add: later_def)

lemma later_trans: "later c c1 \<Longrightarrow> later c1 c2 \<Longrightarrow> later c c2"
  unfolding later_def by metis

lemma exists_step:
  assumes "reachable s" and "step ev s = Some s'" and "exists_in s x"
  shows "exists_in s' x" and "version_ptr s' x = version_ptr s x"
  using box_grows_step [OF assms(1,2), of "fst x"] assms(3)
  by (auto simp: exists_in_def version_ptr_def mval_def nth_append)

lemma swap_new:
  assumes "rcu_box_swap t b p s = Some s'"
  shows "\<not> exists_in s (b, last_ix (mem s') (LPtr b))" and "exists_in s' (b, last_ix (mem s') (LPtr b))"
  using assms by (auto simp: rcu_box_swap_def exists_in_def last_ix_def view_simps split: if_splits)

lemma act_later:
  assumes r: "reachable (crate c)" and st: "act a c = Done (vs, c')"
  shows "later c c'"
proof (cases a)
  case (Crate ev)
  then obtain s' where s': "step ev (crate c) = Some s'" "crate_effect ev c s' = Done (vs, c')"
    using st by (auto split: if_splits option.splits)
  have c': "crate c' = s'"
    using s'(2) by (rule crate_effect_crate)
  have "content c' x = content c x" if "exists_in (crate c) x" for x
    using s' that swap_new(1) [of _ _ _ "crate c" s']
    by (cases ev) (auto simp: deref_def Let_def split: if_splits option.splits)
  then show ?thesis
    using exists_step [OF r s'(1)] by (auto simp: later_def c')
qed (use st in \<open>auto simp: later_def deref_def split: if_splits option.splits\<close>)

fun acts :: "'v action list \<Rightarrow> ('v, 'w::len word, 'g::len word) prog \<Rightarrow> ('v, 'w word, 'g word) prog option" where
  "acts [] c = Some c"
| "acts (a # as) c = (case act a c of Done (vs, c') \<Rightarrow> acts as c' | _ \<Rightarrow> None)"

lemma acts_later:
  "prog_reachable c \<Longrightarrow> acts as c = Some c' \<Longrightarrow> prog_reachable c' \<and> later c c'"
proof (induction as arbitrary: c)
  case (Cons a as)
  then obtain vs c1 where c1: "act a c = Done (vs, c1)" "acts as c1 = Some c'"
    by (auto split: result.splits)
  have "later c c1"
    by (rule act_later [OF prog_reachable_crate [OF Cons.prems(1)] c1(1)])
  then show ?case
    using Cons.IH [OF prog_reachable.act [OF Cons.prems(1) c1(1)] c1(2)] later_trans by blast
qed simp

text \<open>From the swap of a \<open>Box\<close> into an \<open>RcuBox\<close> on, its version has its address and its value.\<close>

lemma swapped_in:
  assumes r: "prog_reachable c" and sw: "act (Crate (Swap t b p)) c = Done (vs, c1)" and run: "acts as c1 = Some c2"
  defines "x \<equiv> (b, last_ix (mem (crate c1)) (LPtr b))"
  shows "prog_reachable c2" and "version_ptr (crate c2) x = p" and "heap c p = Some (content c2 x)"
proof -
  obtain s' v where s': "rcu_box_swap t b p (crate c) = Some s'" "heap c p = Some v"
      "c1 = c\<lparr>boxes := boxes c - {p}, content := (content c)((b, last_ix (mem s') (LPtr b)) := v), crate := s'\<rparr>"
    using sw by (auto split: if_splits option.splits)
  have r1: "prog_reachable c1"
    by (rule prog_reachable.act [OF r sw])
  show "prog_reachable c2"
    using acts_later [OF r1 run] by simp
  have "version_ptr (crate c1) x = p" "content c1 x = v" "exists_in (crate c1) x"
    using versions_swap(3) [OF prog_reachable_crate [OF r] s'(1)] swap_new(2) [OF s'(1)] by (simp_all add: s'(3) x_def)
  with laterD [OF acts_later [OF r1 run, THEN conjunct2], of x]
  show "version_ptr (crate c2) x = p" and "heap c p = Some (content c2 x)"
    using s'(2) by simp_all
qed

lemma reads_swapped_value:
  assumes r: "prog_reachable c" and sw: "act (Crate (Swap t b p)) c = Done (vs, c1)" and run: "acts as c1 = Some c2"
    and rd: "act (Crate (Read u b (last_ix (mem (crate c1)) (LPtr b)))) c2 = Done (ws, c3)"
  shows "\<exists>v. heap c p = Some v \<and> ws = [v]"
proof -
  let ?x = "(b, last_ix (mem (crate c1)) (LPtr b))"
  note S = swapped_in [OF r sw run]
  obtain s' where s': "rcu_box_read u b (snd ?x) (crate c2) = Some s'"
      "crate_effect (Read u b (snd ?x)) c2 s' = Done (ws, c3)"
    using rd by (auto split: option.splits)
  have "?x \<in> versions s'"
    using read_version [OF prog_reachable_crate [OF S(1)] s'(1)] by simp
  moreover have "versions s' = versions (crate c2)" "version_ptr s' = version_ptr (crate c2)"
    using versions_step [OF prog_reachable_crate [OF S(1)], of "Read u b (snd ?x)" s'] s'(1) by simp_all
  ultimately show ?thesis
    using prog_invD(3) [OF prog_reachable_inv [OF S(1)], of ?x] S(2,3) s'(2)
    by (auto simp: rcu_box_deref_def box_deref_def)
qed

lemma box_comes_back:
  assumes r: "prog_reachable c" and sw: "act (Crate (Swap t b p)) c = Done (vs, c1)" and run: "acts as c1 = Some c2"
    and wr: "act (Crate (WaitReturn q u)) c2 = Done (ws, c3)"
    and x: "(b, last_ix (mem (crate c1)) (LPtr b)) \<in> olds (ops (crate c2) q)"
  shows "p \<notin> boxes c2" and "p \<in> boxes c3" and "heap c3 p = heap c p" and "heap c p \<noteq> None"
proof -
  note S = swapped_in [OF r sw run]
  obtain s' where s': "wait_return q u (crate c2) = Some s'" "crate_effect (WaitReturn q u) c2 s' = Done (ws, c3)"
    using wr by (auto split: option.splits)
  note W = prog_inv_wait_return [OF prog_reachable_inv [OF S(1)] prog_reachable_crate [OF S(1)] s'(1)]
  have c3: "boxes c3 = boxes c2 \<union> version_ptr (crate c2) ` olds (ops (crate c2) q)" "heap c3 = heap c2"
    using s'(2) by (auto simp: Let_def split: if_splits)
  show "heap c3 p = heap c p" and "heap c p \<noteq> None"
    using W(4) [OF x] S(2,3) by (simp_all add: c3)
  show "p \<in> boxes c3" and "p \<notin> boxes c2"
    using W(3) x S(2) by (auto simp: c3)
qed

subsection \<open>Runs\<close>

text \<open>Every run of the crate is a run of a program that owns the boxes it swaps in.\<close>

fun swaps :: "event list \<Rightarrow> nat list" where
  "swaps [] = []"
| "swaps (Swap t b p # evs) = p # swaps evs"
| "swaps (ev # evs) = swaps evs"

lemma crate_effect_keeps:
  assumes "crate_effect ev c s' = Done (vs, c')"
  shows "heap c' = heap c" and "boxes c - set (swaps [ev]) \<subseteq> boxes c'"
  using assms by (cases ev; auto simp: deref_def Let_def split: if_splits option.splits)+

lemma swaps_Cons: "swaps (ev # evs) = swaps [ev] @ swaps evs"
  by (cases ev) simp_all

lemma owns_swaps: "set (swaps [ev]) \<subseteq> bs \<Longrightarrow> owns ev bs"
  by (cases ev) simp_all

lemma acts_run:
  assumes "prog_reachable c" and "run evs (crate c) = Some s'" and "distinct (swaps evs)" and "set (swaps evs) \<subseteq> boxes c"
  shows "\<exists>c'. acts (map Crate evs) c = Some c' \<and> prog_reachable c' \<and> crate c' = s' \<and> heap c' = heap c \<and>
    boxes c - set (swaps evs) \<subseteq> boxes c'"
  using assms
proof (induction evs arbitrary: c)
  case (Cons ev evs)
  obtain s1 where s1: "step ev (crate c) = Some s1" "run evs s1 = Some s'"
    using Cons.prems(2) by (auto split: option.splits)
  note sw = Cons.prems(3,4) [unfolded swaps_Cons [of ev evs]]
  have o: "owns ev (boxes c)"
    by (rule owns_swaps) (use sw(2) in simp)
  obtain vs c1 where c1: "crate_effect ev c s1 = Done (vs, c1)"
    using crate_effect_ok [OF prog_reachable_inv prog_reachable_crate s1(1) o] Cons.prems(1) by blast
  have act: "act (Crate ev) c = Done (vs, c1)"
    using s1(1) o c1 by simp
  have "crate c1 = s1" "heap c1 = heap c" "set (swaps evs) \<subseteq> boxes c1" "boxes c - set (swaps [ev]) \<subseteq> boxes c1"
    using crate_effect_crate [OF c1] crate_effect_keeps [OF c1] sw by auto
  note k = this
  obtain c' where c': "acts (map Crate evs) c1 = Some c'" "prog_reachable c'" "crate c' = s'" "heap c' = heap c1"
      "boxes c1 - set (swaps evs) \<subseteq> boxes c'"
    using Cons.IH [OF prog_reachable.act [OF Cons.prems(1) act], unfolded k(1), OF s1(2) _ k(3)] sw(1) by auto
  have "boxes c - set (swaps (ev # evs)) \<subseteq> boxes c'"
    unfolding swaps_Cons [of ev evs] using k(4) c'(5) by auto
  moreover have "acts (map Crate (ev # evs)) c = Some c'"
    using act c'(1) by simp
  ultimately show ?case
    using c'(2-4) k(2) by auto
qed simp

lemma acts_append: "acts (as @ bs) c = Option.bind (acts as c) (acts bs)"
  by (induction as arbitrary: c) (auto split: result.splits)

text \<open>Two new boxes are swapped in, one after the other, and the first one is waited for.\<close>

definition box_start :: "(nat, 8 word, 8 word) prog" where
  "box_start = prog_start initial_epoch (\<lambda>b. 2 * b) (\<lambda>p. if even p then Some p else None)"

lemma box_start_reachable: "prog_reachable box_start"
  unfolding box_start_def
  by (rule prog_reachable.start) (simp_all add: start_ok_def valid_epoch_def initial_epoch_def EPOCH_ID_MIN_def inj_on_def)

definition box_owner :: "(nat, 8 word, 8 word) prog" where
  "box_owner = box_start\<lparr>heap := (heap box_start)(1 \<mapsto> 70, 3 \<mapsto> 80), boxes := {1, 3}\<rparr>"

lemma box_owner_acts: "acts [BoxNew 1 70, BoxNew 3 80] box_start = Some box_owner"
  by (auto simp: box_owner_def box_start_def prog_start_def insert_commute)

lemma box_owner_reachable: "prog_reachable box_owner"
  using acts_later [OF box_start_reachable box_owner_acts] by simp

definition box_run :: "event list" where
  "box_run = [Swap 0 0 3, WaitCall 0 0 {(0, 1)}] @ wait_run @ quiescent_run @ finish_run"

abbreviation box_crate :: "(8, 8) rcu" where
  "box_crate \<equiv> init_sys initial_epoch (\<lambda>b. 2 * b)"

lemma box_run_swap:
  "outcome (\<lambda>s. last_ix (mem s) (LPtr 0) = 1 \<and> tslot (thr s 0) = Some 0 \<and> tpc (thr s 0) = Polling)
    (run (hooks_of BeforePoll 0 [1, 0, 0, 1, 0, 0] @ [Swap 0 0 1]) box_crate)"
  by (simp add: run_defs exec del: at_apply)

lemma box_run_outcome:
  "outcome (\<lambda>s. opc (ops s 0) = OReturned \<and> attached (ops s 0) = Some 0 \<and> olds (ops s 0) = {(0, 1)} \<and> tpc (thr s 0) = Polling)
    (run (hooks_of BeforePoll 0 [1, 0, 0, 1, 0, 0] @ [Swap 0 0 1] @ box_run) box_crate)"
  by (simp add: box_run_def run_defs exec del: at_apply)

lemma box_demo_swap:
  obtains c c1 :: "(nat, 8 word, 8 word) prog" where "prog_reachable c" and "heap c 1 = Some 70" and "act (Crate (Swap 0 0 1)) c = Done ([], c1)"
    and "prog_reachable c1" and "last_ix (mem (crate c1)) (LPtr 0) = 1" and "3 \<in> boxes c1"
    and "run (hooks_of BeforePoll 0 [1, 0, 0, 1, 0, 0] @ [Swap 0 0 1]) box_crate = Some (crate c1)"
    and "tslot (thr (crate c1) 0) = Some 0" and "tpc (thr (crate c1) 0) = Polling"
proof -
  have crate: "crate box_owner = box_crate"
    by (simp add: box_owner_def box_start_def prog_start_def)
  have own: "heap box_owner 1 = Some 70" "boxes box_owner = {1, 3}"
    by (simp_all add: box_owner_def)
  obtain s1 where s1: "run (hooks_of BeforePoll 0 [1, 0, 0, 1, 0, 0] @ [Swap 0 0 1]) box_crate = Some s1"
      "last_ix (mem s1) (LPtr 0) = 1" "tslot (thr s1 0) = Some 0" "tpc (thr s1 0) = Polling"
    using outcomeD [OF box_run_swap] by blast
  then obtain s where s: "run (hooks_of BeforePoll 0 [1, 0, 0, 1, 0, 0]) (crate box_owner) = Some s"
      "run [Swap 0 0 1] s = Some s1"
    by (auto simp: run_append crate simp del: list.map run.simps split: Option.bind_splits)
  have none: "swaps (hooks_of BeforePoll 0 [1, 0, 0, 1, 0, 0]) = []"
    by simp
  obtain c where "prog_reachable c" "crate c = s" "heap c = heap box_owner" "boxes box_owner - set [] \<subseteq> boxes c"
    using acts_run [OF box_owner_reachable s(1)] unfolding none by auto
  with own have c: "prog_reachable c" "crate c = s" "heap c 1 = Some 70" "{1, 3} \<subseteq> boxes c"
    by auto
  have "run [Swap 0 0 1] (crate c) = Some s1"
    using s(2) c(2) by simp
  from acts_run [OF c(1) this] c(4) obtain c1 where c1: "acts [Crate (Swap 0 0 1)] c = Some c1" "prog_reachable c1"
      "crate c1 = s1" "3 \<in> boxes c1"
    by auto
  then obtain vs where vs: "act (Crate (Swap 0 0 1)) c = Done (vs, c1)"
    by (auto split: result.splits)
  then have "vs = []"
    by (auto split: option.splits if_splits)
  then show ?thesis
    using that [OF c(1,3) _ c1(2) _ c1(4)] vs s1 c1(3) by simp
qed

lemma box_demo_return:
  obtains c c1 c2 c3 :: "(nat, 8 word, 8 word) prog" and ws where "prog_reachable c" and "heap c 1 = Some 70" and "act (Crate (Swap 0 0 1)) c = Done ([], c1)"
    and "acts (map Crate box_run) c1 = Some c2" and "act (Crate (WaitReturn 0 0)) c2 = Done (ws, c3)"
    and "(0, last_ix (mem (crate c1)) (LPtr 0)) \<in> olds (ops (crate c2) 0)"
proof -
  obtain c c1 :: "(nat, 8 word, 8 word) prog" where c: "prog_reachable c" "heap c 1 = Some 70" "act (Crate (Swap 0 0 1)) c = Done ([], c1)"
      "prog_reachable c1" "last_ix (mem (crate c1)) (LPtr 0) = 1" "3 \<in> boxes c1"
      "run (hooks_of BeforePoll 0 [1, 0, 0, 1, 0, 0] @ [Swap 0 0 1]) box_crate = Some (crate c1)"
    by (rule box_demo_swap)
  obtain s2 where s2: "run box_run (crate c1) = Some s2" and
      p: "opc (ops s2 0) = OReturned" "attached (ops s2 0) = Some 0" "olds (ops s2 0) = {(0, 1)}" "tpc (thr s2 0) = Polling"
    using outcomeD [OF box_run_outcome [folded append_assoc]] c(7) unfolding run_append [of _ box_run] by auto
  have sw: "swaps box_run = [3]"
    by (simp add: box_run_def run_defs)
  obtain c2 where c2: "acts (map Crate box_run) c1 = Some c2" "prog_reachable c2" "crate c2 = s2"
    using acts_run [OF c(4) s2] sw c(6) by auto
  obtain s3 where "run [WaitReturn 0 0] (crate c2) = Some s3"
    using p by (simp add: c2(3) wait_return_def)
  from acts_run [OF c2(2) this] obtain c3 where "acts [Crate (WaitReturn 0 0)] c2 = Some c3"
    by auto
  then obtain ws where "act (Crate (WaitReturn 0 0)) c2 = Done (ws, c3)"
    by (auto split: result.splits)
  with that [OF c(1-3) c2(1)] show ?thesis
    using p(3) by (simp add: c2(3) c(5))
qed

end
