(* ===== verification/Read_Lock.thy ===== *)
theory Read_Lock
  imports Box_Frame
begin

text \<open>
  \<open>src/src/rcu_core/rcu_read_lock.rs\<close>: the guard exists while the closure runs, so the references obtained in the
  closure are gone when the function returns, and those of the guards around it stay. The closure is a function of the
  state of the crate; \<open>None\<close> is a closure that does something its thread cannot do.
\<close>

definition rcu_read_lock_unchecked ::
    "tid \<Rightarrow> (('e, 'g) sys \<Rightarrow> ('r \<times> ('e, 'g) sys) option) \<Rightarrow> ('e, 'g) sys \<Rightarrow> ('r \<times> ('e, 'g) sys) option" where
  "rcu_read_lock_unchecked t f s = Option.bind (f s) (\<lambda>(r, s1). map_option (Pair r) (drop_guards t (held (thr s t)) s1))"

datatype read_lock_panic = NotTracked

definition rcu_read_lock ::
    "tid \<Rightarrow> (('e, 'g) sys \<Rightarrow> ('r \<times> ('e, 'g) sys) option) \<Rightarrow> ('e, 'g) sys \<Rightarrow>
     read_lock_panic + ('r \<times> ('e, 'g) sys) option" where
  "rcu_read_lock t f s =
     (if \<not> is_rcu_tracked_thread t s then Inl NotTracked else Inr (rcu_read_lock_unchecked t f s))"

text \<open>The closure \<open>|guard| rcu_box.read(guard)\<close>, whose load returns message \<open>i\<close>; its result is the address.\<close>

definition read_closure :: "tid \<Rightarrow> nat \<Rightarrow> nat \<Rightarrow> ('e, 'g) sys \<Rightarrow> (nat \<times> ('e, 'g) sys) option" where
  "read_closure t b i s = map_option (\<lambda>s'. (version_ptr s (b, i), s')) (rcu_box_read t b i s)"

lemma polling_tracked:
  assumes "reachable s" and "tpc (thr s t) = Polling"
  shows "is_rcu_tracked_thread t s"
  using thread_invD(6) [OF reachable_thread_inv [OF assms(1)]] assms(2)
  unfolding inv_pos_def is_rcu_tracked_thread_def by fastforce

lemma newest_readable:
  assumes "reachable s"
  shows "readable t (LPtr b) (last_ix (mem s) (LPtr b)) (mem s)"
proof -
  note inv = reachable_thread_inv [OF assms]
  have "bounded (mem s) (cur (mem s) t)"
    using thread_invD(1) [OF inv] by (auto simp: wf_mem_def intro: bounded_mono)
  then show ?thesis
    using nonempty(6) [OF inv, of b] by (auto simp: readable_def bounded_def last_ix_def)
qed

lemma read_in_task:
  assumes r: "reachable s" and p: "tpc (thr s t) = Polling" and i: "readable t (LPtr b) i (mem s)"
  shows "(b, i) \<in> versions s"
    and "\<exists>s'. rcu_read_lock t (read_closure t b i) s = Inr (Some (version_ptr s (b, i), s')) \<and>
      held (thr s' t) = held (thr s t) \<and> (\<forall>(c, j) \<in> held (thr s t). use_reference t c j s' \<noteq> None)"
proof -
  obtain sl where sl: "tslot (thr s t) = Some sl"
    using polling_tracked [OF r p] by (auto simp: is_rcu_tracked_thread_def)
  obtain s1 where s1: "rcu_box_read t b i s = Some s1"
    using sl p i by (simp add: rcu_box_read_def Let_def)
  then have h: "held (thr s1 t) = insert (b, i) (held (thr s t))" "tpc (thr s1 t) = Polling" "tslot (thr s1 t) = Some sl"
    using p sl by (auto simp: rcu_box_read_def record_access_def Let_def split: option.splits if_splits)
  have st: "step (Read t b i) s = Some s1"
    using s1 by simp
  show "(b, i) \<in> versions s"
    using held_versions [OF reachable.step [OF r st]] h(1) versions_step(1) [OF r st] by fastforce
  obtain s' where s': "drop_guards t (held (thr s t)) s1 = Some s'"
    using h(2) by (simp add: drop_guards_def)
  then have "held (thr s' t) = held (thr s t)" "tpc (thr s' t) = Polling" "tslot (thr s' t) = Some sl"
    using h by (auto simp: drop_guards_def)
  moreover have "rcu_read_lock t (read_closure t b i) s = Inr (Some (version_ptr s (b, i), s'))"
    using polling_tracked [OF r p] s1 s' by (simp add: rcu_read_lock_def rcu_read_lock_unchecked_def read_closure_def)
  ultimately show "\<exists>s'. rcu_read_lock t (read_closure t b i) s = Inr (Some (version_ptr s (b, i), s')) \<and>
      held (thr s' t) = held (thr s t) \<and> (\<forall>(c, j) \<in> held (thr s t). use_reference t c j s' \<noteq> None)"
    by (auto simp: use_reference_def)
qed

lemma read_outside_panics:
  assumes "tslot (thr s t) = None"
  shows "rcu_read_lock t f s = Inl NotTracked"
  using assms by (simp add: rcu_read_lock_def is_rcu_tracked_thread_def)

end
