(* ===== verification/Cancellation.thy ===== *)
theory Cancellation
  imports Execution Box_Frame
begin

text \<open>
  Dropping a future of \<open>synchronize_rcu\<close> before it has returned. Between two polls the future is at one of its
  \<open>await\<close> points, and the drop runs the destructors of what it holds there, in the reverse order of declaration.
  The code says nothing about this use; here is what happens to the calls after it.
\<close>

subsection \<open>The drop of a future\<close>

text \<open>
  In \<open>wait_for_running_threads_to_see_epoch_id\<close> a future holds a subscriber, the guard of the serialization mutex
  and the read guard.
\<close>

definition cancelled_pending :: "nat \<Rightarrow> tid \<Rightarrow> ('w::len, 'g::len) rcu \<Rightarrow> ('w, 'g) rcu option" where
  "cancelled_pending q t s =
     map_option (\<lambda>s2. drop_read_guard OFinished q t ((on_mem (lk_rel t LkMutex) s2)\<lparr>gp_mutex := None\<rparr>))
       (drop_subscriber_info False q t (drop_subscriber_flag False q t s))"

text \<open>The other \<open>await\<close> points: waiting for a lock, for the end of a reset, or for the mutex.\<close>

fun cancelled :: "'w::len word opc \<Rightarrow> nat \<Rightarrow> tid \<Rightarrow> ('w, 'g::len) rcu \<Rightarrow> ('w, 'g) rcu option" where
  "cancelled OReadLock q t s = Some (set_opc q OFinished s)"
| "cancelled OLdrWrite q t s = Some (set_opc q OFinished s)"
| "cancelled OSlvWait q t s = Some (set_opc q OFinished (s\<lparr>rst_waiters := rst_waiters s - {q}\<rparr>))"
| "cancelled OLock q t s = Some (drop_read_guard OFinished q t s)"
| "cancelled OPend q t s = cancelled_pending q t s"
| "cancelled _ q t s = None"

text \<open>Some thread drops a suspended future. Old data it was to return leaks, so the versions are nowhere.\<close>

definition cancel :: "nat \<Rightarrow> tid \<Rightarrow> ('w::len, 'g::len) rcu \<Rightarrow> ('w, 'g) rcu option" where
  "cancel q t s =
     (if attached (ops s q) = None \<and> tpc (thr s t) = Polling
      then cancelled (opc (ops s q)) q t (on_mem (lk_acq t (LkTask q)) s) else None)"

datatype cancel_event = Step event | Cancel nat tid

fun cancel_step :: "cancel_event \<Rightarrow> ('w::len, 'g::len) rcu \<Rightarrow> ('w, 'g) rcu option" where
  "cancel_step (Step ev) s = step ev s"
| "cancel_step (Cancel q t) s = cancel q t s"

fun cancel_run :: "cancel_event list \<Rightarrow> ('w::len, 'g::len) rcu \<Rightarrow> ('w, 'g) rcu option" where
  "cancel_run [] s = Some s"
| "cancel_run (ev # evs) s = (case cancel_step ev s of None \<Rightarrow> None | Some s' \<Rightarrow> cancel_run evs s')"

subsection \<open>A reset without a leader\<close>

fun leader :: "'e opc \<Rightarrow> bool" where
  "leader OLdrDrop = True"
| "leader OLdrWrite = True"
| "leader OLdrZeroStarted = True"
| "leader OLdrZeroFinished = True"
| "leader OLdrUnlock = True"
| "leader OLdrNotify = True"
| "leader _ = False"

text \<open>The started counter is at its maximum, and the future that took it there is gone.\<close>

definition leaderless :: "('e, 'g::len word) sys \<Rightarrow> bool" where
  "leaderless s \<longleftrightarrow> val_gp (mval (mem s) LStarted (last_ix (mem s) LStarted)) = gp_max \<and> (\<forall>q. \<not> leader (opc (ops s q)))"

text \<open>A call that is yet to come, has not got an id, or waits for the leader; or has been dropped.\<close>

definition stuck :: "('e, 'g) sys \<Rightarrow> nat \<Rightarrow> bool" where
  "stuck s q \<longleftrightarrow> opc (ops s q) \<in> {ONone, OReadLock, OInc, OSlvListen, OFinished} \<or>
     opc (ops s q) \<in> {OSlvDrop, OSlvWait} \<and> q \<in> rst_waiters s"

lemma after_wait_leader [simp]: "\<not> leader (after_wait w)"
  by (cases w) simp_all

lemma leaderless_same:
  assumes "leaderless s" and "hist (mem s') LStarted = hist (mem s) LStarted" and "\<And>q. leader (opc (ops s' q)) \<Longrightarrow> leader (opc (ops s q))"
  shows "leaderless s'"
  using assms by (auto simp: leaderless_def mval_def last_ix_def)

lemma stuck_same: "stuck s q \<Longrightarrow> opc (ops s' q) = opc (ops s q) \<Longrightarrow> rst_waiters s' = rst_waiters s \<Longrightarrow> stuck s' q"
  by (simp add: stuck_def)

lemma rst_waiters_simps [simp]:
  "rst_waiters (set_opc q p s) = rst_waiters s" "rst_waiters (upd_op q f s) = rst_waiters s"
  "rst_waiters (on_mem g s) = rst_waiters s"
  by (simp_all add: upd_defs)

lemma poll_other:
  assumes nl: "\<not> leader (opc (ops s q))" and p: "poll_op q t i wk s = Some s'"
  shows "r \<noteq> q \<Longrightarrow> opc (ops s' r) = opc (ops s r)" and "rst_waiters s \<subseteq> rst_waiters s'"
proof -
  have "(r \<noteq> q \<longrightarrow> opc (ops s' r) = opc (ops s r)) \<and> rst_waiters s \<subseteq> rst_waiters s'"
    using p
  proof (cases rule: poll_op_cases)
    case 1
    then show ?thesis
      using nl by (cases "opc (ops s q)") (auto simp: op_defs Let_def split: if_splits option.splits)
  next
    case 2
    then show ?thesis
      by (cases "opc (ops s q)") (auto simp: Let_def split: if_splits)
  next
    case 3
    then show ?thesis
      by (cases "opc (ops s q)") (auto simp: op_defs Let_def split: if_splits option.splits)
  qed
  then show "r \<noteq> q \<Longrightarrow> opc (ops s' r) = opc (ops s r)" and "rst_waiters s \<subseteq> rst_waiters s'"
    by blast+
qed

lemma poll_leaderless:
  assumes l: "leaderless s" and p: "poll_op q t i wk s = Some s'"
  shows "leaderless s'" and "stuck s r \<Longrightarrow> stuck s' r"
proof -
  have nl: "\<not> leader (opc (ops s q))" and max: "val_gp (mval (mem s) LStarted (last_ix (mem s) LStarted)) = gp_max"
    using l by (simp_all add: leaderless_def)
  show "leaderless s'"
    using p
  proof (cases rule: poll_op_cases)
    case 1
    then show ?thesis
      using nl max l by (cases "opc (ops s q)")
        (auto simp: leaderless_def op_defs checked_add_one_def mval_def last_ix_def Let_def view_simps split: if_splits option.splits)
  next
    case 2
    then show ?thesis
      using nl max l by (cases "opc (ops s q)")
        (auto simp: leaderless_def mval_def last_ix_def Let_def view_simps split: if_splits)
  next
    case 3
    then show ?thesis
      using nl max l by (cases "opc (ops s q)")
        (auto simp: leaderless_def op_defs mval_def last_ix_def Let_def view_simps split: if_splits option.splits)
  qed
  show "stuck s' r" if st: "stuck s r"
  proof (cases "r = q")
    case False
    then show ?thesis
      using st poll_other [OF nl p] by (auto simp: stuck_def)
  next
    case True
    then have "opc (ops s q) \<in> {ONone, OReadLock, OInc, OSlvListen, OFinished, OSlvDrop, OSlvWait}"
      using st by (auto simp: stuck_def)
    then show ?thesis
      using p st max unfolding True stuck_def poll_op_def
      by (auto simp: op_defs checked_add_one_def upd_op_def Let_def split: if_splits option.splits)
  qed
qed

lemma cancelled_leaderless:
  assumes c: "cancel q t s = Some s'" and l: "leaderless s"
  shows "leaderless s'" and "stuck s r \<Longrightarrow> stuck s' r"
proof -
  have "hist (mem s') LStarted = hist (mem s) LStarted \<and> opc (ops s' q) = OFinished \<and>
      (\<forall>r. r \<noteq> q \<longrightarrow> opc (ops s' r) = opc (ops s r)) \<and> rst_waiters s - {q} \<subseteq> rst_waiters s'"
    using c unfolding cancel_def
    by (cases "opc (ops s q)") (auto simp: cancelled_pending_def drop_read_guard_def drop_subscriber_info_def
        drop_subscriber_flag_def Let_def on_mem_def upd_op_def set_opc_def view_simps split: if_splits)
  then have f: "hist (mem s') LStarted = hist (mem s) LStarted" "opc (ops s' q) = OFinished"
      "\<And>r. r \<noteq> q \<Longrightarrow> opc (ops s' r) = opc (ops s r)" "rst_waiters s - {q} \<subseteq> rst_waiters s'"
    by blast+
  have "leader (opc (ops s' r)) \<Longrightarrow> leader (opc (ops s r))" for r
    using f(2,3) by (cases "r = q") auto
  then show "leaderless s'"
    by (rule leaderless_same [OF l f(1)])
  show "stuck s' r" if "stuck s r"
    using that f(2,3,4) by (cases "r = q") (auto simp: stuck_def)
qed

lemma step_leaderless:
  assumes l: "leaderless s" and st: "step ev s = Some s'"
  shows "leaderless s' \<and> (stuck s r \<longrightarrow> stuck s' r)"
proof (cases ev)
  case (Hook h t i)
  then have "hook_keeps s s'" "ops s' = ops s"
    using st hook_keeps_run_hook [of h t i s s'] hook_frame_run_hook [of h t i s s'] by (simp_all add: hook_frame_def)
  then show ?thesis
    using leaderless_same [OF l, of s'] stuck_same [of s r s'] by (simp add: hook_keeps_def)
next
  case (Poll q t i wk)
  then show ?thesis
    using st poll_leaderless [OF l] by simp
next
  case (WaitCall q t vs)
  then have "hist (mem s') LStarted = hist (mem s) LStarted" "rst_waiters s' = rst_waiters s"
      "opc (ops s' u) = (if u = q then OReadLock else opc (ops s u))" "opc (ops s q) = ONone" for u
    using st by (auto simp: wait_call_def upd_op_def split: if_splits)
  then show ?thesis
    using l by (auto simp: leaderless_def mval_def last_ix_def stuck_def split: if_splits)
next
  case (WaitReturn q t)
  then have "hist (mem s') LStarted = hist (mem s) LStarted" "rst_waiters s' = rst_waiters s"
      "opc (ops s' u) = (if u = q then OFinished else opc (ops s u))" for u
    using st by (auto simp: wait_return_def upd_op_def split: if_splits)
  then show ?thesis
    using l by (auto simp: leaderless_def mval_def last_ix_def stuck_def split: if_splits)
next
  case (Read t b i)
  then have "hist (mem s') LStarted = hist (mem s) LStarted" "rst_waiters s' = rst_waiters s" "ops s' = ops s"
    using st by (auto simp: rcu_box_read_def record_access_def on_mem_def view_simps Let_def split: if_splits option.splits)
  then show ?thesis
    using leaderless_same [OF l, of s'] stuck_same [of s r s'] by simp
next
  case (UseRef t b ts)
  then have "hist (mem s') LStarted = hist (mem s) LStarted" "rst_waiters s' = rst_waiters s" "ops s' = ops s"
    using st by (auto simp: use_reference_def record_access_def on_mem_def view_simps split: if_splits option.splits)
  then show ?thesis
    using leaderless_same [OF l, of s'] stuck_same [of s r s'] by simp
next
  case (Suspend q t)
  then have "hist (mem s') LStarted = hist (mem s) LStarted" "rst_waiters s' = rst_waiters s" "opc (ops s' r) = opc (ops s r)" for r
    using st by (auto simp: suspend_def on_mem_def upd_op_def view_simps split: if_splits)
  then show ?thesis
    using leaderless_same [OF l, of s'] stuck_same [of s r s'] by simp
next
  case (Resume q t)
  then have "hist (mem s') LStarted = hist (mem s) LStarted" "rst_waiters s' = rst_waiters s" "opc (ops s' r) = opc (ops s r)" for r
    using st by (auto simp: resume_def on_mem_def upd_op_def view_simps split: if_splits)
  then show ?thesis
    using leaderless_same [OF l, of s'] stuck_same [of s r s'] by simp
next
  case (DropGuards t keep)
  then have "mem s' = mem s" "rst_waiters s' = rst_waiters s" "ops s' = ops s"
    using st by (auto simp: drop_guards_def split: if_splits)
  then show ?thesis
    using leaderless_same [OF l, of s'] stuck_same [of s r s'] by simp
next
  case (Swap t b p)
  then have "hist (mem s') LStarted = hist (mem s) LStarted" "rst_waiters s' = rst_waiters s" "ops s' = ops s"
    using st by (auto simp: rcu_box_swap_def on_mem_def view_simps split: if_splits)
  then show ?thesis
    using leaderless_same [OF l, of s'] stuck_same [of s r s'] by simp
qed

lemma leaderless_run:
  "leaderless s \<Longrightarrow> stuck s r \<Longrightarrow> cancel_run evs s = Some s' \<Longrightarrow> leaderless s' \<and> stuck s' r"
proof (induction evs arbitrary: s)
  case (Cons ev evs)
  then obtain s1 where s1: "cancel_step ev s = Some s1" "cancel_run evs s1 = Some s'"
    by (auto split: option.splits)
  have "leaderless s1 \<and> stuck s1 r"
    using s1(1) Cons.prems(1,2) step_leaderless [OF Cons.prems(1), of _ s1 r] cancelled_leaderless [OF _ Cons.prems(1), of _ _ s1]
    by (cases ev) auto
  then show ?case
    using Cons.IH s1(2) by blast
qed simp

subsection \<open>A call after one that was dropped\<close>

text \<open>
  Thread 1 reads the box with the largest epoch id. A call on thread 0 finds the epoch id at its maximum, stores the
  minimal one, has to wait for thread 1, and is dropped. The next call stores the next epoch id and waits for ids that
  are not smaller: the one that thread 1 has published already.
\<close>

definition max_start :: "(8, 8) rcu" where
  "max_start = init_sys EPOCH_ID_MAX (\<lambda>_. 0)"

definition overflow_run :: "event list" where
  "overflow_run = hooks_of BeforePoll 1 [1, 0, 0, 1, 0, 0] @ [Read 1 0 0] @ hooks_of BeforePoll 0 [1, 0, 0, 2, 0, 0] @
     [WaitCall 0 0 {}] @ polls_of 0 0 [0, 0, 0, 0, 1, 0, 0, 0, 0, 0, 0, 2, 1, 0, 0, 0, 0] @ [Suspend 0 0]"

definition next_call_run :: "event list" where
  "next_call_run = [Swap 0 0 5, WaitCall 1 0 {(0, 0)}] @
     polls_of 1 0 [0, 1, 0, 0, 2, 1, 0, 0, 0, 0, 0, 2, 1, 1, 0, 0, 0, 0, 0, 0, 0] @ [WaitReturn 1 0]"

lemmas cancel_exec = cancel_def cancelled_pending_def drop_read_guard_def overflow_run_def next_call_run_def max_start_def exec


lemma next_call_returns:
  "outcome (\<lambda>s. opc (ops s 1) = OFinished \<and> freed s = {(0, 0)} \<and> held (thr s 1) = {(0, 0)} \<and> tpc (thr s 1) = Polling)
    (cancel_run (map Step overflow_run @ [Cancel 0 0] @ map Step next_call_run) max_start)"
  by (simp add: cancel_exec del: at_apply)

lemma max_start_reachable: "reachable max_start"
  unfolding max_start_def by (rule reachable.init) (simp add: start_ok_def valid_epoch_def EPOCH_ID_MAX_def)

text \<open>So after the drop the next call returns while thread 1 still holds a reference to what it waited for.\<close>

lemma dropped_overflow_call:
  "\<exists>s. cancel_run (map Step overflow_run @ [Cancel 0 0] @ map Step next_call_run) max_start = Some s \<and>
     (0, 0) \<in> freed s \<and> (0, 0) \<in> held (thr s 1)"
  using outcomeD [OF next_call_returns] by auto

subsection \<open>A leader that was dropped\<close>

definition leader_run :: "cancel_event list" where
  "leader_run = map Step (hooks_of BeforePoll 0 [1, 0, 0, 1, 0, 0] @ [WaitCall 0 0 {}] @ polls_of 0 0 [0, 0] @
     [WaitCall 1 0 {}] @ polls_of 1 0 [0, 1] @ [WaitCall 2 0 {}] @ polls_of 2 0 [0, 2, 0] @ [Suspend 2 0]) @ [Cancel 2 0]"

lemma leader_run_leaderless:
  "\<exists>s. cancel_run leader_run (init_sys initial_epoch (\<lambda>_. 0) :: (8, 2) rcu) = Some s \<and> leaderless s \<and> stuck s 3"
  by (simp add: leader_run_def leaderless_def stuck_def cancel_exec del: at_apply)

end
