(* ===== verification/Dropped_Calls.thy ===== *)
theory Dropped_Calls
  imports Cancellation
begin

text \<open>
  What stays true when futures of \<open>synchronize_rcu\<close> are dropped. The wait for the threads is given up, so the next
  call starts with threads that may be several epoch ids behind. Since the ids rise, the next wait
  is for all of them; only a call that is dropped while the epoch id is being reset breaks this.
\<close>

subsection \<open>Weaker invariants\<close>

lemma settled_le: "settled D s n X \<Longrightarrow> D \<le> E \<Longrightarrow> settled E s n X"
  unfolding settled_def by (meson add_left_mono order_trans)

lemma op_inv_le: "op_inv D s r X \<Longrightarrow> D \<le> E \<Longrightarrow> op_inv E s r X"
  unfolding op_inv_def epoch_clause_def using settled_le by blast

lemma gp_inv_le:
  fixes s :: "('w::len, 'g::len) rcu"
  assumes gp: "gp_inv D s" and le: "D \<le> E" and E: "2 * E + 6 < 2 ^ LENGTH('w)"
  shows "gp_inv E s"
  using gp E op_inv_le [OF _ le] settled_le [OF _ le] unfolding gp_inv_def by blast

subsection \<open>The drop of a future\<close>

text \<open>The wait for the reset of the epoch id, and the one that follows it.\<close>

definition in_epoch_reset :: "('e, 'g) oper \<Rightarrow> bool" where
  "in_epoch_reset r \<longleftrightarrow> opc r = OPend \<and> (wait_for r = WReset \<or> wait_for r = WAfterReset)"

lemma not_in_epoch_reset: "\<not> in_epoch_reset r \<Longrightarrow> opc r = OPend \<Longrightarrow> \<exists>v. wait_for r = WNoOverflow v"
  by (cases "wait_for r") (simp_all add: in_epoch_reset_def)

lemma cancel_frame:
  assumes inv: "thread_inv s" and c: "cancel q t s = Some s'"
  shows "calm (mem s) (mem s')" and "thr s' = thr s" "accs s' = accs s" "free_slots s' = free_slots s"
    "freed s' = freed s" "old_data s' = old_data s"
    and "\<And>r. r \<noteq> q \<Longrightarrow> ops s' r = ops s r" and "opc (ops s' q) = OFinished"
    and "\<forall>x \<in> {LEpoch, LStarted, LFinished}. hist (mem s') x = hist (mem s) x"
    and "await_point (opc (ops s q))" "attached (ops s q) = None" "rst_writer s' = rst_writer s"
    and "gp_mutex s' = (if opc (ops s q) = OPend then None else gp_mutex s)"
    and "rst_readers s' = (if opc (ops s q) = OPend \<or> opc (ops s q) = OLock then rst_readers s - {q} else rst_readers s)"
    and "opc (ops s q) = OPend \<Longrightarrow> lv (mem s) (LkTask q) \<le> lv (mem s') LkMutex"
proof -
  have wf: "wf_mem (mem s)"
    by (rule thread_invD(1) [OF inv])
  note defs = cancel_def cancelled_pending_def op_defs Let_def await_point_def view_simps
  show "calm (mem s) (mem s')"
    using c wf nonempty [OF inv] unfolding cancel_def
    by (cases "opc (ops s q)") (auto simp: defs split: if_splits intro!: calm_intros)
  show "thr s' = thr s" "accs s' = accs s" "free_slots s' = free_slots s" "freed s' = freed s" "old_data s' = old_data s"
    "r \<noteq> q \<Longrightarrow> ops s' r = ops s r" "opc (ops s' q) = OFinished" "await_point (opc (ops s q))" "attached (ops s q) = None"
    "rst_writer s' = rst_writer s" "gp_mutex s' = (if opc (ops s q) = OPend then None else gp_mutex s)"
    "rst_readers s' = (if opc (ops s q) = OPend \<or> opc (ops s q) = OLock then rst_readers s - {q} else rst_readers s)" for r
    using c unfolding cancel_def by (cases "opc (ops s q)"; auto simp: defs split: if_splits)+
  show "\<forall>x \<in> {LEpoch, LStarted, LFinished}. hist (mem s') x = hist (mem s) x"
    using c unfolding cancel_def by (cases "opc (ops s q)") (auto simp: defs split: if_splits)
  show "lv (mem s) (LkTask q) \<le> lv (mem s') LkMutex" if "opc (ops s q) = OPend"
    using c that unfolding cancel_def by (auto simp: defs le_fun_def split: if_splits)
qed

lemma thread_inv_cancel:
  assumes inv: "thread_inv s" and c: "cancel q t s = Some s'"
  shows "quiet s s'" and "thread_inv s'"
proof -
  note f = cancel_frame [OF inv c]
  show "quiet s s'"
    by (rule quiet_calm [OF inv f(1)]) (use f in simp_all)
  then show "thread_inv s'"
    by (rule thread_inv_quiet [OF inv])
qed

text \<open>The waits that may be given up, and by how much the threads may be behind after it.\<close>

definition given_up :: "('e, 'g) oper \<Rightarrow> nat" where
  "given_up r = (if opc r = OPend then 1 else 0)"

lemma settled_Suc:
  assumes se: "settled D s (nepochs s - 2) X" and n: "2 \<le> nepochs s"
    and up: "epoch_at s (nepochs s - 2) \<noteq> EPOCH_ID_MAX" "epoch_at s (nepochs s - 1) = epoch_at s (nepochs s - 2) + 2"
  shows "settled (D + 1) s (nepochs s - 1) X"
proof -
  obtain b where b: "b \<le> nepochs s - 2" "nepochs s - 2 \<le> b + D" "base s b X"
      "\<And>j. b \<le> j \<Longrightarrow> j < nepochs s - 2 \<Longrightarrow> epoch_at s j \<noteq> EPOCH_ID_MAX \<and> epoch_at s (Suc j) = epoch_at s j + 2"
    using se unfolding settled_def by blast
  have "epoch_at s j \<noteq> EPOCH_ID_MAX \<and> epoch_at s (Suc j) = epoch_at s j + 2" if "b \<le> j" "j < nepochs s - 1" for j
  proof (cases "j = nepochs s - 2")
    case True
    moreover have "Suc (nepochs s - 2) = nepochs s - 1"
      using n by simp
    ultimately show ?thesis
      using up by simp
  next
    case False
    then show ?thesis
      using b(4) [of j] that by simp
  qed
  moreover have "b \<le> nepochs s - 1" "nepochs s - 1 \<le> b + (D + 1)" "nepochs s - 1 < nepochs s"
    using b(1,2) n by simp_all
  ultimately show ?thesis
    unfolding settled_def using b(3) by blast
qed

lemma finished_op_inv: "opc r = OFinished \<Longrightarrow> op_inv D s r X"
  by (simp add: op_inv_defs zeroed_def)

theorem gp_inv_cancel:
  fixes s s' :: "('w::len, 'g::len) rcu"
  assumes inv: "thread_inv s" and gp: "gp_inv D s" and c: "cancel q t s = Some s'"
    and ok: "\<not> in_epoch_reset (ops s q)" and E: "2 * (D + given_up (ops s q)) + 6 < 2 ^ LENGTH('w)"
  shows "gp_inv (D + given_up (ops s q)) s'"
proof -
  note f = cancel_frame [OF inv c]
  let ?E = "D + given_up (ops s q)"
  have gpE: "gp_inv ?E s"
    by (rule gp_inv_le [OF gp _ E]) simp
  have ts: "tsteps s s'"
    by (rule tstep_quiet [OF thread_inv_cancel(1) [OF inv c]])
  have pos: "holder (opc (ops s q)) \<longleftrightarrow> opc (ops s q) = OPend" "\<not> resetting (opc (ops s q))"
    "reader (opc (ops s q)) \<longleftrightarrow> opc (ops s q) = OPend \<or> opc (ops s q) = OLock"
    using f(10) by (auto simp: await_point_def)
  note L = gp_invD(2) [OF gp]
  have hE: "hist (mem s') LEpoch = hist (mem s) LEpoch"
    using f(9) by simp
  show ?thesis
  proof (rule gp_inv_step [OF gpE inv ts f(9) f(7)])
    show "locks_inv s'"
    proof (rule locks_inv_upd [OF L f(7)])
      show "rst_readers s' = (if reader (opc (ops s' q)) then insert q (rst_readers s) else rst_readers s - {q})"
        using L pos(3) f(8,14) by (auto simp: locks_inv_def)
      show "rst_writer s' \<noteq> None \<Longrightarrow> rst_readers s' = {}"
        using L f(12,14) by (auto simp: locks_inv_def)
    qed (use pos f in simp_all)
    show "op_inv ?E s' (ops s' q) (opview s' q)"
      by (rule finished_op_inv [OF f(8)])
    show "freed_inv s'"
      by (rule freed_inv_frame [OF ts inv f(5) gp_invD(6) [OF gp]])
    show "gp_mutex s' = None \<Longrightarrow> gp_mutex s = None \<or>
        epoch_ix s' \<le> lv (mem s') LkMutex LEpoch \<and> settled ?E s' (nepochs s' - 1) (lv (mem s') LkMutex)"
    proof (cases "opc (ops s q) = OPend")
      case True
      have v: "opview s q = lv (mem s) (LkTask q)"
        by (simp add: opview_def f(11))
      have w: "waiting (opc (ops s q))"
        by (simp add: True)
      obtain e where e: "wait_for (ops s q) = WNoOverflow e"
        using not_in_epoch_reset [OF ok True] by blast
      have O: "epoch_ix s \<le> lv (mem s) (LkTask q) LEpoch" "settled D s (nepochs s - 2) (lv (mem s) (LkTask q))"
          "2 \<le> nepochs s" "epoch_at s (nepochs s - 2) \<noteq> EPOCH_ID_MAX"
          "epoch_at s (nepochs s - 1) = epoch_at s (nepochs s - 2) + 2"
        using gp_invD(3) [OF gp, of q, unfolded v op_inv_waiting [OF w]] e by simp_all
      have "settled (D + 1) s (nepochs s - 1) (lv (mem s) (LkTask q))"
        by (rule settled_Suc [OF O(2-5)])
      then have "settled (D + 1) s' (nepochs s' - 1) (lv (mem s') LkMutex)"
        using settled_mono [OF settled_tsteps [OF ts inv] f(15) [OF True]] by (simp add: hE)
      moreover have "epoch_ix s' \<le> lv (mem s') LkMutex LEpoch"
        using O(1) le_funD [OF f(15) [OF True], of LEpoch] by (simp add: epoch_same [OF hE])
      ultimately show ?thesis
        by (simp add: given_up_def True)
    qed (use f(13) in simp)
  qed (use f(8,12) in simp_all)
qed

subsection \<open>Runs with dropped calls\<close>

text \<open>\<open>d\<close> counts the waits that were given up.\<close>

inductive dropping :: "nat \<Rightarrow> ('w::len, 'g::len) rcu \<Rightarrow> bool" where
  start: "start_ok e0 \<Longrightarrow> dropping 0 (init_sys e0 addr)"
| step: "dropping d s \<Longrightarrow> step ev s = Some s' \<Longrightarrow> dropping d s'"
| drop: "dropping d s \<Longrightarrow> cancel q t s = Some s' \<Longrightarrow> \<not> in_epoch_reset (ops s q) \<Longrightarrow>
    dropping (d + given_up (ops s q)) s'"

lemma dropping_invs:
  "dropping d s \<Longrightarrow> 2 * d + 6 < 2 ^ LENGTH('w) \<Longrightarrow> thread_inv s \<and> gp_inv d (s :: ('w::len, 'g::len) rcu)"
proof (induction rule: dropping.induct)
  case (start e0 addr)
  then show ?case
    by (simp add: gp_inv_init thread_inv_init start_ok_def)
next
  case (step d s ev s')
  then show ?case
    using step_invs by blast
next
  case (drop d s q t s')
  then have "thread_inv s" "gp_inv d s"
    by simp_all
  then show ?case
    using gp_inv_cancel drop.hyps(2,3) drop.prems thread_inv_cancel(2) by blast
qed

interpretation drops: grace_periods "\<lambda>s :: ('w::len, 'g::len) rcu. dropping d s \<and> 2 * d + 6 < 2 ^ LENGTH('w)"
  by unfold_locales (use dropping_invs in blast)+

subsection \<open>Any drops\<close>

text \<open>
  The invariant of the threads does not depend on grace periods. All it needs of the futures is that
  the id they are about to raise is valid and not the maximum.
\<close>

definition raises_ok :: "('w::len, 'g::len) rcu \<Rightarrow> bool" where
  "raises_ok s \<longleftrightarrow> (\<forall>q e. opc (ops s q) = OSetEpoch e \<longrightarrow> valid_epoch e \<and> e \<noteq> EPOCH_ID_MAX)"

lemma raises_ok_same: "raises_ok s \<Longrightarrow> (\<And>q e. opc (ops s' q) = OSetEpoch e \<Longrightarrow> opc (ops s q) = OSetEpoch e) \<Longrightarrow> raises_ok s'"
  unfolding raises_ok_def by blast

lemma poll_raises:
  assumes inv: "thread_inv s" and p: "poll_op q t i wk s = Some s'" and e: "opc (ops s' q) = OSetEpoch e"
  shows "valid_epoch e \<and> e \<noteq> EPOCH_ID_MAX"
proof -
  have ep: "\<And>j. j < nepochs s \<Longrightarrow> valid_epoch (epoch_at s j)"
    using thread_invD(4) [OF inv] by (simp add: inv_epochs_def)
  have aw: "after_wait w \<noteq> OSetEpoch e" for w :: "'a word wait"
    by (cases w) simp_all
  show ?thesis
    using p
  proof (cases rule: poll_op_cases)
    case 1
    then show ?thesis
      using e by (cases "opc (ops s q)") (auto simp: op_defs Let_def split: if_splits option.splits)
  next
    case 2
    then show ?thesis
      using e ep by (cases "opc (ops s q)") (auto simp: Let_def readable_def split: if_splits)
  next
    case 3
    then show ?thesis
      using e aw by (cases "opc (ops s q)") (auto simp: op_defs Let_def split: if_splits option.splits)
  qed
qed

lemma quiet_poll_raises:
  fixes s s' :: "('w::len, 'g::len) rcu"
  assumes inv: "thread_inv s" and ok: "raises_ok s" and len: "2 < LENGTH('w)" and p: "poll_op q t i wk s = Some s'"
  shows "quiet s s'"
proof (rule quiet_poll_op [OF inv p len])
  fix e
  assume "opc (ops s q) = OSetEpoch e"
  then have "valid_epoch e" "e + 2 \<noteq> 0"
    using ok by (auto simp: raises_ok_def EPOCH_ID_MAX_def eq_neg_iff_add_eq_0)
  then show "valid_epoch (e + 2)"
    by (simp add: valid_epoch_def)
qed

lemma step_threads:
  fixes s s' :: "('w::len, 'g::len) rcu"
  assumes inv: "thread_inv s" and ok: "raises_ok s" and len: "2 < LENGTH('w)" and st: "step ev s = Some s'"
  shows "thread_inv s'" and "raises_ok s'" and "grows (mem s) (mem s')"
proof -
  have task: "tsteps s s'" if "task_frame q s s'" for q
    using that by (simp add: task_frame_def tstep_quiet)
  have hook: "tsteps s s'" if "hook_steps s s'"
    using that by (simp add: hook_steps_def)
  have ts: "tsteps s s'"
  proof (cases ev)
    case (Poll q t i wk)
    then show ?thesis
      using st by (auto intro: tstep_quiet quiet_poll_raises [OF inv ok len])
  qed (use st task hook in \<open>auto intro: hook_steps_run_hook inv hook_steps_read hook_steps_use
      hook_steps_drop_guards hook_steps_swap task_frame_wait_call task_frame_wait_return task_frame_suspend task_frame_resume\<close>)
  show "thread_inv s'" and "grows (mem s) (mem s')"
    by (rule thread_inv_tsteps [OF ts inv], rule tsteps_grows [OF ts])
  show "raises_ok s'"
  proof (cases ev)
    case (Hook h t i)
    then have "run_hook h t i s = Some s'"
      using st by simp
    from hook_frame_run_hook [OF this] show ?thesis
      using ok by (simp add: hook_frame_def raises_ok_def)
  next
    case (Poll q t i wk)
    then have p: "poll_op q t i wk s = Some s'"
      using st by simp
    have "valid_epoch e \<and> e \<noteq> EPOCH_ID_MAX" if "opc (ops s' u) = OSetEpoch e" for u e
      using that ok poll_raises [OF inv p] poll_oth [OF inv p, of u] by (cases "u = q") (auto simp: raises_ok_def)
    then show ?thesis
      by (simp add: raises_ok_def)
  qed (rule raises_ok_same [OF ok]; use st in \<open>auto simp: wait_call_def wait_return_def suspend_def resume_def
      rcu_box_read_def use_reference_def drop_guards_def rcu_box_swap_def record_access_def upd_defs Let_def
      split: if_splits option.splits\<close>)+
qed

lemma placed_step:
  assumes inv: "thread_inv s" and st: "step ev s = Some s'" and p: "placed s' x"
  shows "placed s x \<or> snd x = last_ix (mem s) (LPtr (fst x))"
proof (cases ev)
  case (Hook h t i)
  then have "run_hook h t i s = Some s'"
    using st by simp
  then have "old_data s' = old_data s" "freed s' = freed s" "ops s' = ops s"
    using hook_frame_run_hook [of h t i s s'] by (simp_all add: hook_frame_def)
  then show ?thesis
    using p by (auto simp: placed_def in_wait_def split: if_splits)
next
  case (Poll q t i wk)
  then have "poll_op q t i wk s = Some s'"
    using st by simp
  then show ?thesis
    using p poll_op_frame [OF inv] in_wait_poll [OF inv] by (simp add: placed_def op_frame_def)
next
  case (WaitCall q t vs)
  then show ?thesis
    using st p by (fastforce simp: wait_call_def placed_def in_wait_def split: if_splits)
next
  case (WaitReturn q t)
  then show ?thesis
    using st p by (fastforce simp: wait_return_def placed_def in_wait_def split: if_splits)
next
  case (Swap t b v)
  then show ?thesis
    using st p by (auto simp: rcu_box_swap_def placed_def in_wait_def split: if_splits)
next
  case (Suspend q t)
  then show ?thesis
    using st p move_task(1) [of q t s s'] by (simp add: placed_def)
next
  case (Resume q t)
  then show ?thesis
    using st p move_task(2) [of q t s s'] by (simp add: placed_def)
qed (use st p in \<open>auto simp: rcu_box_read_def use_reference_def drop_guards_def record_access_def placed_def in_wait_def
    Let_def split: if_splits option.splits\<close>)

text \<open>The versions a dropped call was to give back are gone for good.\<close>

definition leaked :: "('e, 'g) sys \<Rightarrow> nat \<times> nat \<Rightarrow> bool" where
  "leaked s x \<longleftrightarrow> \<not> placed s x \<and> snd x < last_ix (mem s) (LPtr (fst x))"

lemma cancel_wait:
  assumes inv: "thread_inv s" and c: "cancel q t s = Some s'"
  shows "in_wait s' r = (if r = q then {} else in_wait s r)" and "in_wait s q = olds (ops s q)"
  using cancel_frame [OF inv c] by (auto simp: in_wait_def await_point_def)

lemma owned_once_cancel:
  assumes inv: "thread_inv s" and o: "owned_once s" and c: "cancel q t s = Some s'"
  shows "owned_once s'" and "x \<in> olds (ops s q) \<Longrightarrow> leaked s' x" and "leaked s x \<Longrightarrow> leaked s' x"
proof -
  note f = cancel_frame [OF inv c] and w = cancel_wait [OF inv c] and D = owned_onceD [OF o]
  have g: "last_ix (mem s) (LPtr b) \<le> last_ix (mem s') (LPtr b)" for b
    using f(1) growsD(5) by (auto simp: calm_def)
  have p: "placed s' y \<longleftrightarrow> y \<in> old_data s \<or> y \<in> freed s \<or> (\<exists>r. r \<noteq> q \<and> y \<in> in_wait s r)" for y
    by (auto simp: placed_def f(5,6) w(1))
  show "owned_once s'"
  proof (rule owned_onceI [OF o g])
    show "placed s' y \<Longrightarrow> placed s y" for y
      unfolding p by (auto simp: placed_def)
    show "y \<in> old_data s' \<Longrightarrow> y \<notin> freed s'" for y
      using D(1) by (simp add: f(5,6))
    show "y \<in> in_wait s' r \<Longrightarrow> y \<notin> old_data s' \<and> y \<notin> freed s'" for y r
      using D(2,3) by (simp add: f(5,6) w(1) split: if_splits)
    show "y \<in> in_wait s' r \<Longrightarrow> y \<in> in_wait s' u \<Longrightarrow> r = u" for y r u
      using D(4) by (simp add: w(1) split: if_splits)
  qed
  show "leaked s' x" if x: "x \<in> olds (ops s q)"
  proof -
    have i: "x \<in> in_wait s q"
      using x w(2) by simp
    have "\<not> placed s' x"
      using D(2,3) [OF i] D(4) [OF i] unfolding p by blast
    moreover have "placed s x"
      using i unfolding placed_def by blast
    ultimately show ?thesis
      using D(5) [of x] g [of "fst x"] by (simp add: leaked_def)
  qed
  show "leaked s' x" if "leaked s x"
    using that g [of "fst x"] unfolding leaked_def p by (auto simp: placed_def)
qed

lemma leaked_step:
  assumes inv: "thread_inv s" and gr: "grows (mem s) (mem s')" and st: "step ev s = Some s'" and l: "leaked s x"
  shows "leaked s' x"
  using placed_step [OF inv st, of x] l growsD(5) [OF gr, of "LPtr (fst x)"] by (auto simp: leaked_def)

text \<open>What holds in every run, whatever is dropped.\<close>

definition any_drops :: "('w::len, 'g::len) rcu \<Rightarrow> bool" where
  "any_drops s \<longleftrightarrow> 2 < LENGTH('w) \<and> thread_inv s \<and> raises_ok s \<and> owned_once s"

lemma any_drops_init: "start_ok e0 \<Longrightarrow> any_drops (init_sys e0 addr)"
  by (simp add: any_drops_def start_ok_def thread_inv_init owned_once_init raises_ok_def)

lemma any_drops_step:
  fixes s s' :: "('a::len, 'g::len) rcu"
  assumes a: "any_drops s" and st: "cancel_step ev s = Some s'"
  shows "any_drops s'" and "leaked s x \<Longrightarrow> leaked s' x"
proof -
  have D: "thread_inv s" "raises_ok s" "owned_once s" "2 < LENGTH('a)"
    using a by (simp_all add: any_drops_def)
  have "any_drops s' \<and> (leaked s x \<longrightarrow> leaked s' x)"
  proof (cases ev)
    case (Step e)
    then have e: "step e s = Some s'"
      using st by simp
    show ?thesis
      using step_threads [OF D(1,2,4) e] owned_once_step [OF D(1,3) e] leaked_step [OF D(1) _ e] D(4)
      by (simp add: any_drops_def)
  next
    case (Cancel q t)
    then have c: "cancel q t s = Some s'"
      using st by simp
    have "raises_ok s'"
    proof (rule raises_ok_same [OF D(2)])
      show "opc (ops s' r) = OSetEpoch e \<Longrightarrow> opc (ops s r) = OSetEpoch e" for r e
        using cancel_frame(7,8) [OF D(1) c] by (cases "r = q") auto
    qed
    then show ?thesis
      using thread_inv_cancel(2) [OF D(1) c] owned_once_cancel [OF D(1,3) c] D(4) by (simp add: any_drops_def)
  qed
  then show "any_drops s'" and "leaked s x \<Longrightarrow> leaked s' x"
    by simp_all
qed

lemma any_drops_run:
  "any_drops s \<Longrightarrow> cancel_run evs s = Some s' \<Longrightarrow> any_drops s' \<and> (leaked s x \<longrightarrow> leaked s' x)"
proof (induction evs arbitrary: s)
  case (Cons ev evs)
  then show ?case
    using any_drops_step [OF Cons.prems(1), of ev] by (auto split: option.splits)
qed simp

subsection \<open>A run with a dropped call\<close>

lemma cancel_run_append:
  "cancel_run (evs @ fs) s = (case cancel_run evs s of None \<Rightarrow> None | Some s' \<Rightarrow> cancel_run fs s')"
  by (induction evs arbitrary: s) (auto split: option.splits)

lemma cancel_run_Step [simp]: "cancel_run (map Step evs) s = run evs s"
  by (induction evs arbitrary: s) (auto split: option.splits)

lemma dropping_run: "dropping d s \<Longrightarrow> run evs s = Some s' \<Longrightarrow> dropping d s'"
  by (induction evs arbitrary: s) (auto split: option.splits intro: dropping.step)

lemma dropping_cancel_run:
  assumes a: "outcome (\<lambda>s. \<not> in_epoch_reset (ops s q) \<and> given_up (ops s q) = n) (run evs s)"
    and b: "cancel_run (map Step evs @ Cancel q t # map Step fs) s = Some s'" and d: "dropping d s"
  shows "dropping (d + n) s'"
proof -
  obtain s1 where s1: "run evs s = Some s1" "\<not> in_epoch_reset (ops s1 q)" "given_up (ops s1 q) = n"
    using a by (cases "run evs s") auto
  then obtain s2 where s2: "cancel q t s1 = Some s2" "run fs s2 = Some s'"
    using b by (auto simp: cancel_run_append split: option.splits)
  show ?thesis
    using dropping_run [OF dropping.drop [OF dropping_run [OF d s1(1)] s2(1) s1(2)] s2(2)] s1(3) by simp
qed

text \<open>
  A reader on thread 1 keeps a call of thread 0 waiting, and the call is dropped. Then the version is replaced, and
  the next call waits until the reader has dropped its guard and its poll has ended.
\<close>

definition given_up_run :: "event list" where
  "given_up_run = hooks_of BeforePoll 1 [0, 0, 0, 1, 0, 0] @ [Read 1 0 0] @ hooks_of BeforePoll 0 [0, 0, 0, 2, 0, 0] @
     [WaitCall 0 0 {}] @ polls_of 0 0 [0, 0, 0, 0, 1, 0, 0, 0, 0, 0, 0, 2, 1, 0, 0, 0, 0] @ [Suspend 0 0]"

definition second_run :: "event list" where
  "second_run = [Swap 0 0 5, WaitCall 1 0 {(0, 0)}] @ polls_of 1 0 [0, 1, 0, 0, 2, 1, 0, 0, 0, 0, 0, 2, 1, 0, 0, 0, 0] @
     [Suspend 1 0, DropGuards 1 {}] @ hooks_of AfterPoll 1 [2, 1, 2, 0, 3, 0, 0, 0, 0] @
     hooks_of AfterPoll 0 [2, 1, 2, 0, 4] @ [Hook BeforePoll 0 0, Resume 1 0] @
     polls_of 1 0 [0, 1, 0, 0, 0, 0, 1, 0, 0, 2, 2, 2, 0, 0, 0, 0, 0, 0, 0]"

lemmas drop_exec = given_up_run_def second_run_def in_epoch_reset_def given_up_def demo_start_def cancel_exec

lemma given_up_demo: "outcome (\<lambda>s. \<not> in_epoch_reset (ops s 0) \<and> given_up (ops s 0) = 1) (run given_up_run demo_start)"
  by (simp add: drop_exec del: at_apply)

lemma second_demo:
  "outcome (\<lambda>s. opc (ops s 1) = OReturned \<and> attached (ops s 1) = Some 0 \<and> call_view (ops s 1) (LPtr 0) = 1 \<and>
      accs s = {\<lparr>a_tid = 1, a_slot = 0, a_box = 0, a_ts = 0, a_clk = 1, a_idx = 2\<rparr>})
    (cancel_run (map Step given_up_run @ Cancel 0 0 # map Step second_run) demo_start)"
  by (simp add: drop_exec del: at_apply cancel_run_Step)

text \<open>The wait for a version that was replaced is dropped.\<close>

lemma olds_demo: "outcome (\<lambda>s. (0, 0) \<in> olds (ops s 0)) (run (start_run @ wait_run) demo_start)"
  by (simp add: run_defs exec del: at_apply)

lemma cancel_demo: "outcome (\<lambda>s. True) (cancel_run (map Step (start_run @ wait_run) @ [Cancel 0 0]) demo_start)"
  by (simp add: run_defs cancel_exec del: at_apply cancel_run_Step)

lemma dropped_wait_demo:
  "\<exists>s s'. run (start_run @ wait_run) demo_start = Some s \<and> cancel 0 0 s = Some s' \<and> (0, 0) \<in> olds (ops s 0)"
proof -
  obtain s where s: "run (start_run @ wait_run) demo_start = Some s" "(0, 0) \<in> olds (ops s 0)"
    using outcomeD [OF olds_demo] by blast
  then obtain s' where "cancel 0 0 s = Some s'"
    using cancel_demo by (auto simp: cancel_run_append simp del: map_append split: option.splits)
  with s show ?thesis
    by blast
qed

end
