(* ===== verification/Slots_Storage.thy ===== *)
theory Slots_Storage
  imports Thread_State
begin

text \<open>
  The buffer behind the storage slots, \<open>src/src/rcu_core/per_thread_storage/thread_storage_slots.rs\<close>, and the
  thread local slot of \<open>src/src/rcu_core/per_thread_storage/mod.rs\<close>. The machine sees a slice of slots; here
  are the raw parts of the vector, its reallocation, the free list and the panics.

  Writers are serialized by the write lock, so an operation is a function of the state. Memory of the
  heap is a map from addresses to the elements of a live buffer; an address that is not in the map has been
  freed. The vector type of the crate \<open>index_type\<close> is not part of the repository: the largest length its index
  type can name is the parameter \<open>lim\<close>, the growth of a full vector the parameter \<open>grow\<close>, and the
  capacity that \<open>TypedVec::with_capacity(num_cpus::get() + 1)\<close> returns the parameter \<open>cap\<close>.
\<close>

subsection \<open>State\<close>

record slots_cur_data =
  cd_ptr :: nat
  cd_len :: nat
  cd_capacity :: nat

record 'v slots =
  cur_data :: slots_cur_data
  buffers :: "nat \<Rightarrow> 'v list option"
  next_addr :: nat
  free_ids :: "nat list"
  poisoned :: bool

text \<open>\<open>NonNull::dangling\<close>: an address at which no buffer ever is.\<close>

definition dangling :: nat where
  "dangling = 0"

definition new_slots :: "'v slots" where
  "new_slots = \<lparr>cur_data = \<lparr>cd_ptr = dangling, cd_len = 0, cd_capacity = 0\<rparr>, buffers = (\<lambda>_. None), next_addr = 1,
     free_ids = [], poisoned = False\<rparr>"

text \<open>
  The panics: the \<open>expect\<close> on \<open>try_push\<close>, a \<open>push\<close> beyond the largest length, the
  \<open>unwrap\<close> on a poisoned lock, an index out of bounds.
\<close>

datatype slots_panic = TooManyConcurrentThreads | VecTooLong | PoisonedLock | IndexOutOfBounds

text \<open>
  \<open>cur_data_as_slice\<close>: the elements the raw parts point at, or \<open>None\<close> where they point at freed memory,
  which is undefined behaviour in the source.
\<close>

definition cur_data_as_slice :: "'v slots \<Rightarrow> 'v list option" where
  "cur_data_as_slice st =
     (if cd_len (cur_data st) = 0 then Some []
      else map_option (take (cd_len (cur_data st))) (buffers st (cd_ptr (cur_data st))))"

subsection \<open>Vectors\<close>

record raw_vec =
  vec_ptr :: nat
  vec_len :: nat
  vec_capacity :: nat

text \<open>
  \<open>TypedVec::push\<close> and \<open>try_push\<close>: fail at the largest length; within the capacity write in place; otherwise
  move the elements to a new buffer and free the old one.
\<close>

definition vec_push ::
    "(nat \<Rightarrow> nat) \<Rightarrow> nat \<Rightarrow> 'v \<Rightarrow> raw_vec \<Rightarrow> 'v slots \<Rightarrow> (raw_vec \<times> 'v slots) option" where
  "vec_push grow lim x v st =
     (let xs = (case buffers st (vec_ptr v) of None \<Rightarrow> [] | Some xs \<Rightarrow> xs)
      in if lim \<le> vec_len v then None
         else if vec_len v < vec_capacity v
         then Some (v\<lparr>vec_len := Suc (vec_len v)\<rparr>, st\<lparr>buffers := (buffers st)(vec_ptr v \<mapsto> xs @ [x])\<rparr>)
         else Some (\<lparr>vec_ptr = next_addr st, vec_len = Suc (vec_len v), vec_capacity = grow (vec_capacity v)\<rparr>,
                st\<lparr>buffers := (buffers st)(vec_ptr v := None, next_addr st \<mapsto> xs @ [x]),
                   next_addr := Suc (next_addr st)\<rparr>))"

text \<open>Dropping a vector frees its buffer.\<close>

definition vec_drop :: "raw_vec \<Rightarrow> 'v slots \<Rightarrow> 'v slots" where
  "vec_drop v st = st\<lparr>buffers := (buffers st)(vec_ptr v := None)\<rparr>"

text \<open>
  Unwinding: the local vector is dropped, and the guard of the write lock is dropped while panicking,
  which poisons the mutex.
\<close>

definition unwind :: "raw_vec \<Rightarrow> 'v slots \<Rightarrow> 'v slots" where
  "unwind v st = (vec_drop v st)\<lparr>poisoned := True\<rparr>"

definition from_raw_parts :: "slots_cur_data \<Rightarrow> raw_vec" where
  "from_raw_parts d = \<lparr>vec_ptr = cd_ptr d, vec_len = cd_len d, vec_capacity = cd_capacity d\<rparr>"

definition set_cur_data :: "raw_vec \<Rightarrow> 'v slots \<Rightarrow> 'v slots" where
  "set_cur_data v st = st\<lparr>cur_data := \<lparr>cd_ptr = vec_ptr v, cd_len = vec_len v, cd_capacity = vec_capacity v\<rparr>\<rparr>"

subsection \<open>Operations\<close>

text \<open>A result carries the state, also of a panic: other threads go on with what it left behind.\<close>

type_synonym ('a, 'v) slots_result = "slots_panic \<times> 'v slots + 'a \<times> 'v slots"

definition store_slot :: "nat \<Rightarrow> 'v \<Rightarrow> 'v slots \<Rightarrow> 'v slots option" where
  "store_slot i x st =
     (case cur_data_as_slice st of
        None \<Rightarrow> None
      | Some xs \<Rightarrow>
          if i < length xs
          then Some (st\<lparr>buffers := (buffers st)(cd_ptr (cur_data st) :=
                 map_option (\<lambda>ys. ys[i := x]) (buffers st (cd_ptr (cur_data st))))\<rparr>)
          else None)"

definition alloc_from_free_slot_id :: "'v \<Rightarrow> nat \<Rightarrow> 'v slots \<Rightarrow> (nat, 'v) slots_result" where
  "alloc_from_free_slot_id x i st =
     (case store_slot i x st of
        None \<Rightarrow> Inl (IndexOutOfBounds, st\<lparr>poisoned := True\<rparr>)
      | Some st' \<Rightarrow> Inr (i, st'))"

definition alloc_no_cur_data ::
    "(nat \<Rightarrow> nat) \<Rightarrow> nat \<Rightarrow> nat \<Rightarrow> 'v \<Rightarrow> 'v slots \<Rightarrow> (nat, 'v) slots_result" where
  "alloc_no_cur_data grow lim cap x st =
     (let new_data = \<lparr>vec_ptr = next_addr st, vec_len = 0, vec_capacity = cap\<rparr>;
          st1 = st\<lparr>buffers := (buffers st)(next_addr st \<mapsto> []), next_addr := Suc (next_addr st)\<rparr>
      in case vec_push grow lim x new_data st1 of
           None \<Rightarrow> Inl (VecTooLong, unwind new_data st1)
         | Some (v, st2) \<Rightarrow> Inr (0, set_cur_data v st2))"

definition alloc_no_free_slots_grow_cur_data ::
    "(nat \<Rightarrow> nat) \<Rightarrow> nat \<Rightarrow> 'v \<Rightarrow> 'v slots \<Rightarrow> (nat, 'v) slots_result" where
  "alloc_no_free_slots_grow_cur_data grow lim x st =
     (let d = cur_data st; new_data = from_raw_parts d
      in if cd_len d < cd_capacity d
         then (case vec_push grow lim x new_data st of
                 None \<Rightarrow> Inl (TooManyConcurrentThreads, unwind new_data st)
               | Some (v, st') \<Rightarrow> Inr (cd_len d, st'\<lparr>cur_data := d\<lparr>cd_len := vec_len v\<rparr>\<rparr>))
         else (case vec_push grow lim x new_data st of
                 None \<Rightarrow> Inl (VecTooLong, unwind new_data st)
               | Some (v, st') \<Rightarrow> Inr (cd_len d, set_cur_data v st')))"

definition alloc_no_free_slot_ids ::
    "(nat \<Rightarrow> nat) \<Rightarrow> nat \<Rightarrow> nat \<Rightarrow> 'v \<Rightarrow> 'v slots \<Rightarrow> (nat, 'v) slots_result" where
  "alloc_no_free_slot_ids grow lim cap x st =
     (if cd_capacity (cur_data st) = 0 then alloc_no_cur_data grow lim cap x st
      else alloc_no_free_slots_grow_cur_data grow lim x st)"

definition slots_alloc ::
    "(nat \<Rightarrow> nat) \<Rightarrow> nat \<Rightarrow> nat \<Rightarrow> 'v \<Rightarrow> 'v slots \<Rightarrow> (nat, 'v) slots_result" where
  "slots_alloc grow lim cap x st =
     (if poisoned st then Inl (PoisonedLock, st)
      else if free_ids st \<noteq> []
      then alloc_from_free_slot_id x (last (free_ids st)) (st\<lparr>free_ids := butlast (free_ids st)\<rparr>)
      else alloc_no_free_slot_ids grow lim cap x st)"

definition slots_dealloc :: "'v \<Rightarrow> nat \<Rightarrow> 'v slots \<Rightarrow> (unit, 'v) slots_result" where
  "slots_dealloc vacant i st =
     (if poisoned st then Inl (PoisonedLock, st)
      else case store_slot i vacant st of
             None \<Rightarrow> Inl (IndexOutOfBounds, st\<lparr>poisoned := True\<rparr>)
           | Some st' \<Rightarrow> Inr ((), st'\<lparr>free_ids := free_ids st' @ [i]\<rparr>))"

text \<open>\<open>Drop for ThreadStorageSlots\<close>.\<close>

definition slots_drop :: "'v slots \<Rightarrow> 'v slots" where
  "slots_drop st =
     (if cd_capacity (cur_data st) \<noteq> 0 then vec_drop (from_raw_parts (cur_data st)) st else st)"

lemmas slots_op_defs = slots_alloc_def slots_dealloc_def alloc_no_free_slot_ids_def alloc_no_cur_data_def
  alloc_no_free_slots_grow_cur_data_def alloc_from_free_slot_id_def store_slot_def vec_push_def
  from_raw_parts_def set_cur_data_def cur_data_as_slice_def

subsection \<open>Invariant\<close>

text \<open>
  The raw parts describe one live buffer, which holds exactly the elements of the slice; the free list
  names distinct slots of it; fresh addresses are not in use.
\<close>

definition slots_inv :: "'v slots \<Rightarrow> bool" where
  "slots_inv st \<longleftrightarrow>
     (let d = cur_data st
      in cd_len d \<le> cd_capacity d \<and> cd_ptr d < next_addr st \<and>
         (if cd_capacity d = 0 then buffers st = (\<lambda>_. None) \<and> cd_ptr d = dangling
          else \<exists>xs. buffers st = [cd_ptr d \<mapsto> xs] \<and> length xs = cd_len d) \<and>
         distinct (free_ids st) \<and> (\<forall>i \<in> set (free_ids st). i < cd_len d))"

definition slice :: "'v slots \<Rightarrow> 'v list" where
  "slice st = (case buffers st (cd_ptr (cur_data st)) of None \<Rightarrow> [] | Some xs \<Rightarrow> xs)"

definition occupied :: "'v slots \<Rightarrow> nat set" where
  "occupied st = {..< length (slice st)} - set (free_ids st)"

lemma slots_inv_new: "slots_inv new_slots"
  by (simp add: slots_inv_def new_slots_def Let_def dangling_def)

lemma slots_invD:
  assumes "slots_inv st"
  shows "length (slice st) = cd_len (cur_data st)" and "cur_data_as_slice st = Some (slice st)"
    and "cd_len (cur_data st) \<le> cd_capacity (cur_data st)" and "distinct (free_ids st)"
    and "i \<in> set (free_ids st) \<Longrightarrow> i < length (slice st)"
    and "cd_capacity (cur_data st) \<noteq> 0 \<Longrightarrow> buffers st = [cd_ptr (cur_data st) \<mapsto> slice st]"
    and "cd_ptr (cur_data st) < next_addr st"
  using assms by (auto simp: slots_inv_def slice_def cur_data_as_slice_def Let_def split: if_splits)

lemma slots_invI:
  assumes "cd_ptr (cur_data st) < next_addr st" and "buffers st = [cd_ptr (cur_data st) \<mapsto> xs]"
    and "length xs = cd_len (cur_data st)" and "cd_len (cur_data st) \<le> cd_capacity (cur_data st)"
    and "cd_capacity (cur_data st) \<noteq> 0" and "distinct (free_ids st)" and "\<forall>i \<in> set (free_ids st). i < length xs"
  shows "slots_inv st \<and> slice st = xs"
  using assms by (auto simp: slots_inv_def slice_def Let_def)


subsection \<open>Allocation and deallocation\<close>

lemma store_slot_inv:
  assumes inv: "slots_inv st" and i: "i < length (slice st)"
  obtains st' where "store_slot i x st = Some st'" and "slots_inv st'" and "slice st' = (slice st)[i := x]"
    and "free_ids st' = free_ids st" and "poisoned st' = poisoned st" and "cur_data st' = cur_data st"
proof -
  let ?d = "cur_data st"
  let ?st = "st\<lparr>buffers := (buffers st)(cd_ptr ?d := map_option (\<lambda>ys. ys[i := x]) (buffers st (cd_ptr ?d)))\<rparr>"
  note I = slots_invD [OF inv]
  have cap: "cd_capacity ?d \<noteq> 0" using I(1,3) i by auto
  have "slots_inv ?st \<and> slice ?st = (slice st)[i := x]"
    by (rule slots_invI) (use I(1,3,4,5,7) I(6) [OF cap] cap in auto)
  moreover have "store_slot i x st = Some ?st"
    using i I(2) by (simp add: store_slot_def)
  ultimately show ?thesis using that by simp
qed

text \<open>A push of the published vector, in place or into a bigger buffer.\<close>

lemma push_cur_data:
  assumes inv: "slots_inv st" and free: "free_ids st = []" and cap: "cd_capacity (cur_data st) \<noteq> 0"
    and lim: "cd_len (cur_data st) < lim" and grow: "\<And>c. c < grow c"
  obtains st' where "alloc_no_free_slots_grow_cur_data grow lim x st = Inr (length (slice st), st')"
    and "slots_inv st'" and "slice st' = slice st @ [x]" and "free_ids st' = []"
    and "poisoned st' = poisoned st"
proof -
  let ?d = "cur_data st"
  note I = slots_invD [OF inv]
  note buf = I(6) [OF cap]
  show ?thesis
  proof (cases "cd_len ?d < cd_capacity ?d")
    case True
    let ?st = "st\<lparr>buffers := (buffers st)(cd_ptr ?d \<mapsto> slice st @ [x]), cur_data := ?d\<lparr>cd_len := Suc (cd_len ?d)\<rparr>\<rparr>"
    have "slots_inv ?st \<and> slice ?st = slice st @ [x]"
      by (rule slots_invI) (use True I buf cap free in auto)
    moreover have "alloc_no_free_slots_grow_cur_data grow lim x st = Inr (length (slice st), ?st)"
      using True lim I(1) buf by (simp add: slots_op_defs Let_def)
    ultimately show ?thesis using that free by simp
  next
    case False
    let ?n = "next_addr st"
    let ?st = "st\<lparr>buffers := (buffers st)(cd_ptr ?d := None, ?n \<mapsto> slice st @ [x]), next_addr := Suc ?n,
      cur_data := \<lparr>cd_ptr = ?n, cd_len = Suc (cd_len ?d), cd_capacity = grow (cd_capacity ?d)\<rparr>\<rparr>"
    have room: "Suc (cd_len ?d) \<le> grow (cd_capacity ?d)" "grow (cd_capacity ?d) \<noteq> 0"
      using I(3) grow [of "cd_capacity ?d"] by linarith+
    have "slots_inv ?st \<and> slice ?st = slice st @ [x]"
      by (rule slots_invI) (use room I(1,7) buf free in auto)
    moreover have "alloc_no_free_slots_grow_cur_data grow lim x st = Inr (length (slice st), ?st)"
      using False lim I(1) buf by (simp add: slots_op_defs Let_def)
    ultimately show ?thesis using that free by simp
  qed
qed

lemma alloc_first:
  assumes inv: "slots_inv st" and free: "free_ids st = []" and cap0: "cd_capacity (cur_data st) = 0"
    and lim: "0 < lim" and cap: "0 < cap"
  obtains st' where "alloc_no_cur_data grow lim cap x st = Inr (length (slice st), st')"
    and "slots_inv st'" and "slice st' = [x]" and "free_ids st' = []"
    and "poisoned st' = poisoned st" and "slice st = []"
proof -
  let ?n = "next_addr st"
  let ?st = "st\<lparr>buffers := (buffers st)(?n \<mapsto> [x]), next_addr := Suc ?n,
    cur_data := \<lparr>cd_ptr = ?n, cd_len = 1, cd_capacity = cap\<rparr>\<rparr>"
  have empty: "buffers st = (\<lambda>_. None)" "slice st = []"
    using inv cap0 by (auto simp: slots_inv_def slice_def Let_def)
  have "slots_inv ?st \<and> slice ?st = [x]"
    by (rule slots_invI) (use cap free empty in auto)
  moreover have "alloc_no_cur_data grow lim cap x st = Inr (length (slice st), ?st)"
    using lim cap empty by (simp add: slots_op_defs Let_def)
  ultimately show ?thesis using that free empty by simp
qed

lemma free_id_last:
  assumes "slots_inv st" and "free_ids st \<noteq> []"
  shows "last (free_ids st) \<notin> set (butlast (free_ids st))" and "last (free_ids st) < length (slice st)"
    and "set (free_ids st) = insert (last (free_ids st)) (set (butlast (free_ids st)))"
proof -
  obtain js i where eq: "free_ids st = js @ [i]" using assms(2) by (cases "free_ids st" rule: rev_cases) auto
  show "last (free_ids st) \<notin> set (butlast (free_ids st))" "last (free_ids st) < length (slice st)"
    "set (free_ids st) = insert (last (free_ids st)) (set (butlast (free_ids st)))"
    using slots_invD(4,5) [OF assms(1)] by (auto simp: eq)
qed

lemma slots_inv_butlast:
  assumes "slots_inv st"
  shows "slots_inv (st\<lparr>free_ids := butlast (free_ids st)\<rparr>)"
  using assms by (auto simp: slots_inv_def Let_def distinct_butlast dest: in_set_butlastD)

lemma slice_free_ids [simp]: "slice (st\<lparr>free_ids := f\<rparr>) = slice st"
  by (simp add: slice_def)

lemma slots_alloc_reuse:
  assumes inv: "slots_inv st" and clean: "\<not> poisoned st" and free: "free_ids st \<noteq> []"
  obtains st' where "slots_alloc grow lim cap x st = Inr (last (free_ids st), st')" and "slots_inv st'"
    and "\<not> poisoned st'" and "slice st' = (slice st)[last (free_ids st) := x]"
    and "free_ids st' = butlast (free_ids st)"
proof -
  let ?i = "last (free_ids st)" and ?st = "st\<lparr>free_ids := butlast (free_ids st)\<rparr>"
  have i: "?i < length (slice ?st)" using free_id_last(2) [OF inv free] by simp
  obtain st' where st': "store_slot ?i x ?st = Some st'" "slots_inv st'" "slice st' = (slice ?st)[?i := x]"
      "free_ids st' = free_ids ?st" "poisoned st' = poisoned ?st"
    by (rule store_slot_inv [OF slots_inv_butlast [OF inv] i])
  thus ?thesis
    using that clean free by (simp add: slots_alloc_def alloc_from_free_slot_id_def)
qed

lemma slots_alloc_push:
  assumes inv: "slots_inv st" and clean: "\<not> poisoned st" and free: "free_ids st = []"
    and lim: "length (slice st) < lim" and cap: "0 < cap" and grow: "\<And>c. c < grow c"
  obtains st' where "slots_alloc grow lim cap x st = Inr (length (slice st), st')" and "slots_inv st'"
    and "\<not> poisoned st'" and "slice st' = slice st @ [x]" and "free_ids st' = []"
proof (cases "cd_capacity (cur_data st) = 0")
  case True
  have pos: "0 < lim" using lim by simp
  obtain st' where "alloc_no_cur_data grow lim cap x st = Inr (length (slice st), st')" "slots_inv st'"
      "slice st' = [x]" "free_ids st' = []" "poisoned st' = poisoned st" "slice st = []"
    by (rule alloc_first [OF inv free True pos cap])
  thus ?thesis using that clean free True by (simp add: slots_alloc_def alloc_no_free_slot_ids_def)
next
  case False
  have "cd_len (cur_data st) < lim" using lim slots_invD(1) [OF inv] by simp
  then obtain st' where "alloc_no_free_slots_grow_cur_data grow lim x st = Inr (length (slice st), st')"
      "slots_inv st'" "slice st' = slice st @ [x]" "free_ids st' = []" "poisoned st' = poisoned st"
    by (rule push_cur_data [OF inv free False _ grow])
  thus ?thesis using that clean free False by (simp add: slots_alloc_def alloc_no_free_slot_ids_def)
qed

lemma slots_alloc_full:
  assumes inv: "slots_inv st" and clean: "\<not> poisoned st" and free: "free_ids st = []"
    and lim: "lim \<le> length (slice st)" "0 < lim"
  shows "\<exists>p st'. slots_alloc grow lim cap x st = Inl (p, st') \<and> p \<in> {TooManyConcurrentThreads, VecTooLong}"
proof -
  have "cd_capacity (cur_data st) \<noteq> 0" using lim slots_invD(1,3) [OF inv] by simp
  thus ?thesis
    using clean free lim slots_invD(1) [OF inv]
    by (simp add: slots_alloc_def alloc_no_free_slot_ids_def alloc_no_free_slots_grow_cur_data_def vec_push_def
        from_raw_parts_def Let_def)
qed

text \<open>
  \<open>alloc\<close> returns a vacant slot and initializes it, or panics because the vector is as long as it can be
  and no slot of it is free.
\<close>

definition allocated :: "'v slots \<Rightarrow> 'v \<Rightarrow> nat \<Rightarrow> 'v slots \<Rightarrow> bool" where
  "allocated st x i st' \<longleftrightarrow>
     slots_inv st' \<and> \<not> poisoned st' \<and> i \<notin> occupied st \<and> occupied st' = insert i (occupied st) \<and>
     slice st' ! i = x \<and> (\<forall>j < length (slice st). j \<noteq> i \<longrightarrow> slice st' ! j = slice st ! j) \<and>
     length (slice st) \<le> length (slice st')"

lemma slots_alloc_cases:
  assumes inv: "slots_inv st" and clean: "\<not> poisoned st" and lim: "0 < lim" and cap: "0 < cap"
    and grow: "\<And>c. c < grow c"
  shows "(\<exists>i st'. slots_alloc grow lim cap x st = Inr (i, st') \<and> allocated st x i st') \<or>
    (\<exists>p st'. slots_alloc grow lim cap x st = Inl (p, st') \<and> p \<in> {TooManyConcurrentThreads, VecTooLong} \<and>
       free_ids st = [] \<and> lim \<le> length (slice st))"
proof (cases "free_ids st = []")
  case False
  note F = free_id_last [OF inv False]
  obtain st' where st': "slots_alloc grow lim cap x st = Inr (last (free_ids st), st')" "slots_inv st'"
      "\<not> poisoned st'" "slice st' = (slice st)[last (free_ids st) := x]" "free_ids st' = butlast (free_ids st)"
    by (rule slots_alloc_reuse [OF inv clean False])
  have "occupied st' = insert (last (free_ids st)) (occupied st)" "last (free_ids st) \<notin> occupied st"
    using F by (auto simp: occupied_def st'(4,5))
  hence "allocated st x (last (free_ids st)) st'" using F(2) st' by (simp add: allocated_def)
  thus ?thesis using st'(1) by blast
next
  case free: True
  show ?thesis
  proof (cases "length (slice st) < lim")
    case True
    obtain st' where st': "slots_alloc grow lim cap x st = Inr (length (slice st), st')" "slots_inv st'"
        "\<not> poisoned st'" "slice st' = slice st @ [x]" "free_ids st' = []"
      by (rule slots_alloc_push [OF inv clean free True cap grow])
    hence "allocated st x (length (slice st)) st'"
      using free by (auto simp: allocated_def occupied_def nth_append)
    thus ?thesis using st'(1) by blast
  next
    case False
    thus ?thesis using slots_alloc_full [OF inv clean free _ lim, of grow cap x] free by auto
  qed
qed

text \<open>\<open>dealloc\<close> of an occupied slot makes the slot vacant and keeps the others.\<close>

lemma slots_dealloc_occupied:
  assumes inv: "slots_inv st" and clean: "\<not> poisoned st" and i: "i \<in> occupied st"
  obtains st' where "slots_dealloc vacant i st = Inr ((), st')" and "slots_inv st'" and "\<not> poisoned st'"
    and "occupied st' = occupied st - {i}" and "slice st' = (slice st)[i := vacant]"
    and "free_ids st' = free_ids st @ [i]"
proof -
  have len: "i < length (slice st)" and new: "i \<notin> set (free_ids st)" using i by (auto simp: occupied_def)
  obtain st1 where st1: "store_slot i vacant st = Some st1" "slots_inv st1" "slice st1 = (slice st)[i := vacant]"
      "free_ids st1 = free_ids st" "poisoned st1 = poisoned st" "cur_data st1 = cur_data st"
    by (rule store_slot_inv [OF inv len])
  let ?st = "st1\<lparr>free_ids := free_ids st1 @ [i]\<rparr>"
  have "slots_inv ?st"
    using st1(2,4,6) new len slots_invD(1) [OF inv] by (auto simp: slots_inv_def Let_def)
  moreover have "slots_dealloc vacant i st = Inr ((), ?st)"
    using st1(1) clean by (simp add: slots_dealloc_def)
  moreover have "occupied ?st = occupied st - {i}"
    using st1(3,4) by (auto simp: occupied_def)
  ultimately show ?thesis using that st1 clean by simp
qed

text \<open>The free list is a stack: the next allocation reuses the slot that was freed last.\<close>

lemma alloc_after_dealloc:
  assumes inv: "slots_inv st" and clean: "\<not> poisoned st" and i: "i \<in> occupied st"
    and dealloc: "slots_dealloc vacant i st = Inr ((), st1)"
  obtains st2 where "slots_alloc grow lim cap x st1 = Inr (i, st2)" and "slice st2 = (slice st)[i := x]"
    and "free_ids st2 = free_ids st" and "slots_inv st2"
proof -
  obtain st1' where "slots_dealloc vacant i st = Inr ((), st1')" "slots_inv st1'" "\<not> poisoned st1'"
      "slice st1' = (slice st)[i := vacant]" "free_ids st1' = free_ids st @ [i]"
    by (rule slots_dealloc_occupied [OF inv clean i])
  hence st1: "slots_inv st1" "\<not> poisoned st1" "slice st1 = (slice st)[i := vacant]"
    "free_ids st1 = free_ids st @ [i]" using dealloc by simp_all
  obtain st2 where "slots_alloc grow lim cap x st1 = Inr (last (free_ids st1), st2)" "slots_inv st2"
      "slice st2 = (slice st1)[last (free_ids st1) := x]" "free_ids st2 = butlast (free_ids st1)"
    by (rule slots_alloc_reuse [OF st1(1,2)]) (simp_all add: st1(4))
  thus ?thesis using that by (simp add: st1(3,4))
qed

lemma drop_frees_buffers:
  assumes "slots_inv st"
  shows "buffers (slots_drop st) = (\<lambda>_. None)"
  using assms by (auto simp: slots_drop_def vec_drop_def from_raw_parts_def slots_inv_def Let_def split: if_splits)


text \<open>
  The panic at the largest length: the vector that was rebuilt from the raw parts is dropped while
  unwinding, so the published raw parts point at freed memory, and the write lock is poisoned.
\<close>

lemma too_many_threads:
  assumes inv: "slots_inv st" and clean: "\<not> poisoned st" and free: "free_ids st = []"
    and full: "cd_len (cur_data st) = lim" "0 < lim"
  shows "\<exists>p st'. slots_alloc grow lim cap x st = Inl (p, st') \<and> poisoned st' \<and> cur_data st' = cur_data st \<and>
    cur_data_as_slice st' = None"
proof -
  have nonempty: "cd_capacity (cur_data st) \<noteq> 0" using slots_invD(3) [OF inv] full by simp
  show ?thesis
    using full clean free nonempty
    by (simp add: slots_alloc_def alloc_no_free_slot_ids_def alloc_no_free_slots_grow_cur_data_def vec_push_def
        from_raw_parts_def unwind_def vec_drop_def cur_data_as_slice_def Let_def)
qed

subsection \<open>Owned slots\<close>

text \<open>
  \<open>OwnedThreadStorageSlot\<close>, one per thread: the id of the slot of the thread, or \<open>None\<close>. Its operations use
  the slots through \<open>alloc\<close> and \<open>dealloc\<close> only, which are their parameters here.
\<close>

type_synonym owned_slots = "nat \<Rightarrow> nat option"

definition unallocated :: owned_slots where
  "unallocated = (\<lambda>_. None)"

definition owned_alloc ::
    "('v \<Rightarrow> 's \<Rightarrow> 'e \<times> 's + nat \<times> 's) \<Rightarrow> 'v \<Rightarrow> nat \<Rightarrow> owned_slots \<times> 's \<Rightarrow>
     'e \<times> 's + nat \<times> owned_slots \<times> 's" where
  "owned_alloc alloc x t = (\<lambda>(ids, st).
     case ids t of
       Some existing_id \<Rightarrow> Inr (existing_id, ids, st)
     | None \<Rightarrow> (case alloc x st of
                  Inl e \<Rightarrow> Inl e
                | Inr (i, st') \<Rightarrow> Inr (i, ids(t \<mapsto> i), st')))"

definition owned_dealloc ::
    "(nat \<Rightarrow> 's \<Rightarrow> 'e \<times> 's + unit \<times> 's) \<Rightarrow> nat \<Rightarrow> owned_slots \<times> 's \<Rightarrow>
     'e \<times> 's + bool \<times> owned_slots \<times> 's" where
  "owned_dealloc dealloc t = (\<lambda>(ids, st).
     case ids t of
       None \<Rightarrow> Inr (False, ids, st)
     | Some i \<Rightarrow> (case dealloc i st of
                  Inl e \<Rightarrow> Inl e
                | Inr (_, st') \<Rightarrow> Inr (True, ids(t := None), st')))"

text \<open>Every thread with an id owns an occupied slot of its own, and every occupied slot has an owner.\<close>

definition owners :: "owned_slots \<Rightarrow> nat set \<Rightarrow> bool" where
  "owners ids S \<longleftrightarrow> (\<forall>t u i. ids t = Some i \<and> ids u = Some i \<longrightarrow> t = u) \<and> ran ids = S"

lemma owners_alloc:
  assumes "owners ids S" and "ids t = None" and "i \<notin> S"
  shows "owners (ids(t \<mapsto> i)) (insert i S)"
proof -
  have "ids u \<noteq> Some i" for u using assms(1,3) by (auto simp: owners_def ran_def)
  thus ?thesis using assms(1,2) by (simp add: owners_def)
qed

lemma owners_dealloc:
  assumes "owners ids S" and "ids t = Some i"
  shows "owners (ids(t := None)) (S - {i})"
proof -
  have S: "S = ran ids" and inj: "ids u = Some j \<Longrightarrow> ids v = Some j \<Longrightarrow> u = v" for u v j
    using assms(1) by (auto simp: owners_def)
  have "ran (ids(t := None)) = ran ids - {i}"
  proof (intro equalityI subsetI)
    fix j assume "j \<in> ran (ids(t := None))"
    then obtain u where "ids u = Some j" "u \<noteq> t" by (auto simp: ran_def split: if_splits)
    thus "j \<in> ran ids - {i}" using inj assms(2) by (auto intro: ranI)
  next
    fix j assume "j \<in> ran ids - {i}"
    then obtain u where "ids u = Some j" "j \<noteq> i" by (auto simp: ran_def)
    hence "(ids(t := None)) u = Some j" using assms(2) by auto
    thus "j \<in> ran (ids(t := None))" by (rule ranI)
  qed
  thus ?thesis using inj by (fastforce simp: owners_def S)
qed

definition owned_inv :: "('s \<Rightarrow> nat set) \<Rightarrow> ('s \<Rightarrow> bool) \<Rightarrow> owned_slots \<times> 's \<Rightarrow> bool" where
  "owned_inv used ok w \<longleftrightarrow> ok (snd w) \<and> owners (fst w) (used (snd w))"

text \<open>What the owned slots rely on.\<close>

locale slot_allocator =
  fixes alloc :: "'v \<Rightarrow> 's \<Rightarrow> 'e \<times> 's + nat \<times> 's" and dealloc :: "nat \<Rightarrow> 's \<Rightarrow> 'e \<times> 's + unit \<times> 's"
    and used :: "'s \<Rightarrow> nat set" and val :: "'s \<Rightarrow> nat \<Rightarrow> 'v" and ok :: "'s \<Rightarrow> bool"
  assumes alloc_law: "ok st \<Longrightarrow> alloc x st = Inr (i, st') \<Longrightarrow>
      ok st' \<and> i \<notin> used st \<and> used st' = insert i (used st) \<and> val st' i = x \<and> (\<forall>j \<in> used st. val st' j = val st j)"
    and dealloc_law: "ok st \<Longrightarrow> i \<in> used st \<Longrightarrow>
      \<exists>st'. dealloc i st = Inr ((), st') \<and> ok st' \<and> used st' = used st - {i} \<and> (\<forall>j \<in> used st'. val st' j = val st j)"
begin

lemma owned_alloc_inv:
  assumes "owned_inv used ok w" and "owned_alloc alloc x t w = Inr (i, w')"
  shows "owned_inv used ok w' \<and> fst w' t = Some i \<and> (fst w t = None \<longrightarrow> val (snd w') i = x) \<and>
    (\<forall>u j. u \<noteq> t \<longrightarrow> fst w u = Some j \<longrightarrow> fst w' u = Some j \<and> j \<noteq> i \<and> val (snd w') j = val (snd w) j)"
proof -
  obtain ids st where w: "w = (ids, st)" by (cases w)
  have ok: "ok st" and own: "owners ids (used st)" using assms(1) by (simp_all add: owned_inv_def w)
  show ?thesis
  proof (cases "ids t")
    case (Some k)
    hence "w' = w" "k = i" using assms(2) by (simp_all add: owned_alloc_def w)
    thus ?thesis using Some assms(1) own by (auto simp: w owners_def)
  next
    case None
    then obtain st' where a: "alloc x st = Inr (i, st')" and w': "w' = (ids(t \<mapsto> i), st')"
      using assms(2) by (auto simp: owned_alloc_def w split: sum.splits)
    note L = alloc_law [OF ok a]
    have "owners (ids(t \<mapsto> i)) (used st')" using owners_alloc [OF own None] L by simp
    moreover have "j \<in> used st" if "ids u = Some j" for u j
      using that own by (auto simp: owners_def ran_def)
    ultimately show ?thesis using L None by (auto simp: owned_inv_def w w')
  qed
qed

lemma owned_dealloc_inv:
  assumes "owned_inv used ok w"
  shows "\<exists>w'. owned_dealloc dealloc t w = Inr (fst w t \<noteq> None, w') \<and> owned_inv used ok w' \<and> fst w' t = None \<and>
    (\<forall>u j. u \<noteq> t \<longrightarrow> fst w u = Some j \<longrightarrow> fst w' u = Some j \<and> val (snd w') j = val (snd w) j)"
proof -
  obtain ids st where w: "w = (ids, st)" by (cases w)
  have ok: "ok st" and own: "owners ids (used st)" using assms(1) by (simp_all add: owned_inv_def w)
  show ?thesis
  proof (cases "ids t")
    case None
    thus ?thesis using assms by (simp add: owned_dealloc_def w)
  next
    case (Some i)
    hence "i \<in> used st" using own by (auto simp: owners_def ran_def)
    then obtain st' where d: "dealloc i st = Inr ((), st')" "ok st'" "used st' = used st - {i}"
        "\<forall>j \<in> used st'. val st' j = val st j"
      using dealloc_law [OF ok] by blast
    have "owners (ids(t := None)) (used st')" using owners_dealloc [OF own Some] d(3) by simp
    moreover have "j \<in> used st'" if "ids u = Some j" "u \<noteq> t" for u j
      using that own Some d(3) by (auto simp: owners_def ran_def)
    ultimately show ?thesis using d Some by (auto simp: owned_dealloc_def owned_inv_def w)
  qed
qed

end

text \<open>
  What the slots rely on of the vector type: a full vector grows, and a vector has room for one element.
  The value of a vacant slot, \<open>ThreadState::NONE_ENCODED_VALUE\<close>, is the last parameter.
\<close>

locale typed_vec =
  fixes grow :: "nat \<Rightarrow> nat" and lim :: nat and cap :: nat and vacant :: "'v"
  assumes grows: "c < grow c" and lim: "0 < lim" and cap: "0 < cap"

definition slots_ok :: "'v slots \<Rightarrow> bool" where
  "slots_ok st \<longleftrightarrow> slots_inv st \<and> \<not> poisoned st"

sublocale typed_vec \<subseteq> slots: slot_allocator "slots_alloc grow lim cap" "slots_dealloc vacant" occupied
  "\<lambda>st i. slice st ! i" slots_ok
proof
  fix st and x :: 'v and i st'
  assume "slots_ok st" and "slots_alloc grow lim cap x st = Inr (i, st')"
  hence "allocated st x i st'"
    using slots_alloc_cases [OF _ _ lim cap grows, of st x] by (auto simp: slots_ok_def)
  thus "slots_ok st' \<and> i \<notin> occupied st \<and> occupied st' = insert i (occupied st) \<and> slice st' ! i = x \<and>
      (\<forall>j \<in> occupied st. slice st' ! j = slice st ! j)"
    by (auto simp: allocated_def slots_ok_def occupied_def)
next
  fix st :: "'v slots" and i
  assume ok: "slots_ok st" and i: "i \<in> occupied st"
  obtain st' where st': "slots_dealloc vacant i st = Inr ((), st')" "slots_inv st'" "\<not> poisoned st'"
      "occupied st' = occupied st - {i}" "slice st' = (slice st)[i := vacant]"
    using ok by (auto simp: slots_ok_def intro: slots_dealloc_occupied [OF _ _ i, of vacant])
  have "\<forall>j \<in> occupied st'. slice st' ! j = slice st ! j" using st'(4,5) by simp
  thus "\<exists>st'. slots_dealloc vacant i st = Inr ((), st') \<and> slots_ok st' \<and> occupied st' = occupied st - {i} \<and>
      (\<forall>j \<in> occupied st'. slice st' ! j = slice st ! j)"
    using st' by (auto simp: slots_ok_def)
qed

text \<open>
  A vector that doubles, with sixteen bit indices that are not zero: the index type of the program.
\<close>

definition doubling :: "nat \<Rightarrow> nat" where
  "doubling c = max 4 (2 * c)"

lemma doubling_grows: "c < doubling c"
  by (simp add: doubling_def)

interpretation vec: typed_vec doubling 65535 8 "0 :: nat"
  by unfold_locales (simp_all add: doubling_grows)

subsection \<open>The slots of the program\<close>

text \<open>The state of all threads: their thread locals, and the static \<open>THREAD_STORAGE_SLOTS\<close>.\<close>

type_synonym 'v thread_slots = "owned_slots \<times> 'v slots"

definition THREAD_STORAGE_SLOTS :: "'v thread_slots" where
  "THREAD_STORAGE_SLOTS = (unallocated, new_slots)"

definition this_thread_get_storage_slot_id :: "nat \<Rightarrow> 'v thread_slots \<Rightarrow> nat option" where
  "this_thread_get_storage_slot_id t w = fst w t"

definition this_thread_does_have_allocated_storage_slot :: "nat \<Rightarrow> 'v thread_slots \<Rightarrow> bool" where
  "this_thread_does_have_allocated_storage_slot t w \<longleftrightarrow> fst w t \<noteq> None"

definition this_thread_alloc_storage_slot ::
    "(nat \<Rightarrow> nat) \<Rightarrow> nat \<Rightarrow> nat \<Rightarrow> 'v \<Rightarrow> nat \<Rightarrow> 'v thread_slots \<Rightarrow>
     slots_panic \<times> 'v slots + nat \<times> 'v thread_slots" where
  "this_thread_alloc_storage_slot grow lim cap x t w = owned_alloc (slots_alloc grow lim cap) x t w"

definition this_thread_dealloc_storage_slot ::
    "'v \<Rightarrow> nat \<Rightarrow> 'v thread_slots \<Rightarrow> slots_panic \<times> 'v slots + bool \<times> 'v thread_slots" where
  "this_thread_dealloc_storage_slot vacant t w = owned_dealloc (slots_dealloc vacant) t w"

text \<open>
  The states that the calls of the threads reach. A call that panics leaves its thread local as it was, and whatever
  it has done to the slots.
\<close>

inductive slots_reachable :: "(nat \<Rightarrow> nat) \<Rightarrow> nat \<Rightarrow> nat \<Rightarrow> 'v \<Rightarrow> 'v thread_slots \<Rightarrow> bool"
  for grow lim cap vacant where
  reach_init: "slots_reachable grow lim cap vacant THREAD_STORAGE_SLOTS"
| reach_alloc: "slots_reachable grow lim cap vacant w \<Longrightarrow>
    this_thread_alloc_storage_slot grow lim cap x t w = Inr (i, w') \<Longrightarrow>
    slots_reachable grow lim cap vacant w'"
| reach_dealloc: "slots_reachable grow lim cap vacant w \<Longrightarrow>
    this_thread_dealloc_storage_slot vacant t w = Inr (r, w') \<Longrightarrow>
    slots_reachable grow lim cap vacant w'"
| reach_alloc_panic: "slots_reachable grow lim cap vacant w \<Longrightarrow>
    this_thread_alloc_storage_slot grow lim cap x t w = Inl (p, st') \<Longrightarrow>
    slots_reachable grow lim cap vacant (fst w, st')"
| reach_dealloc_panic: "slots_reachable grow lim cap vacant w \<Longrightarrow>
    this_thread_dealloc_storage_slot vacant t w = Inl (p, st') \<Longrightarrow>
    slots_reachable grow lim cap vacant (fst w, st')"

lemma slots_panic_poisons:
  "slots_alloc grow lim cap x st = Inl (p, st') \<Longrightarrow> poisoned st'"
  "slots_dealloc vacant i st = Inl (p, st') \<Longrightarrow> poisoned st'"
  by (auto simp: slots_alloc_def slots_dealloc_def alloc_no_free_slot_ids_def alloc_no_cur_data_def unwind_def vec_drop_def
      alloc_no_free_slots_grow_cur_data_def alloc_from_free_slot_id_def Let_def split: if_splits option.splits)

lemma call_panic_poisons:
  "this_thread_alloc_storage_slot grow lim cap x t w = Inl (p, st') \<Longrightarrow> poisoned st'"
  "this_thread_dealloc_storage_slot vacant t w = Inl (p, st') \<Longrightarrow> poisoned st'"
  by (cases w; auto simp: this_thread_alloc_storage_slot_def this_thread_dealloc_storage_slot_def owned_alloc_def
      owned_dealloc_def split: option.splits sum.splits dest: slots_panic_poisons)+

text \<open>A poisoned lock stops the calls of every thread that needs it, and they change nothing.\<close>

lemma poisoned_calls:
  assumes "poisoned (snd w)"
  shows "this_thread_alloc_storage_slot grow lim cap x t w =
      (case fst w t of None \<Rightarrow> Inl (PoisonedLock, snd w) | Some i \<Rightarrow> Inr (i, w))"
    and "this_thread_dealloc_storage_slot vacant t w =
      (if fst w t = None then Inr (False, w) else Inl (PoisonedLock, snd w))"
  using assms by (cases w; auto simp: this_thread_alloc_storage_slot_def this_thread_dealloc_storage_slot_def
      owned_alloc_def owned_dealloc_def slots_alloc_def slots_dealloc_def split: option.splits)+

definition ids_distinct :: "owned_slots \<Rightarrow> bool" where
  "ids_distinct ids \<longleftrightarrow> (\<forall>t u i. ids t = Some i \<and> ids u = Some i \<longrightarrow> t = u)"

definition owned_or_poisoned :: "'v thread_slots \<Rightarrow> bool" where
  "owned_or_poisoned w \<longleftrightarrow> ids_distinct (fst w) \<and> (poisoned (snd w) \<or> owned_inv occupied slots_ok w)"

lemma owned_distinct: "owned_inv used ok w \<Longrightarrow> ids_distinct (fst w)"
  by (simp add: owned_inv_def owners_def ids_distinct_def)

context typed_vec
begin

lemma reachable_owned_or_poisoned:
  assumes "slots_reachable grow lim cap vacant w"
  shows "owned_or_poisoned w"
  using assms
proof induction
  case reach_init
  have "owned_inv occupied slots_ok (THREAD_STORAGE_SLOTS :: 'v thread_slots)"
    unfolding owned_inv_def THREAD_STORAGE_SLOTS_def slots_ok_def
    using slots_inv_new by (auto simp: new_slots_def owners_def occupied_def slice_def unallocated_def)
  then show ?case
    using owned_distinct by (simp add: owned_or_poisoned_def)
next
  case (reach_alloc w x t i w')
  show ?case
  proof (cases "poisoned (snd w)")
    case True
    then show ?thesis
      using reach_alloc poisoned_calls(1) [OF True, of grow lim cap x t] by (auto split: option.splits)
  next
    case False
    then have "owned_inv occupied slots_ok w"
      using reach_alloc.IH by (simp add: owned_or_poisoned_def)
    from slots.owned_alloc_inv [OF this] have "owned_inv occupied slots_ok w'"
      using reach_alloc.hyps(2) unfolding this_thread_alloc_storage_slot_def by blast
    then show ?thesis
      using owned_distinct by (simp add: owned_or_poisoned_def)
  qed
next
  case (reach_dealloc w t r w')
  show ?case
  proof (cases "poisoned (snd w)")
    case True
    then show ?thesis
      using reach_dealloc poisoned_calls(2) [OF True, of vacant t] by (auto split: if_splits)
  next
    case False
    then have "owned_inv occupied slots_ok w'"
      using reach_dealloc slots.owned_dealloc_inv [of w t]
      by (auto simp: owned_or_poisoned_def this_thread_dealloc_storage_slot_def)
    then show ?thesis
      using owned_distinct by (simp add: owned_or_poisoned_def)
  qed
next
  case (reach_alloc_panic w x t p st')
  have "poisoned st'"
    by (rule call_panic_poisons(1) [OF reach_alloc_panic.hyps(2)])
  then show ?case
    using reach_alloc_panic.IH by (simp add: owned_or_poisoned_def)
next
  case (reach_dealloc_panic w t p st')
  have "poisoned st'"
    by (rule call_panic_poisons(2) [OF reach_dealloc_panic.hyps(2)])
  then show ?case
    using reach_dealloc_panic.IH by (simp add: owned_or_poisoned_def)
qed

lemma reachable_owned:
  assumes "slots_reachable grow lim cap vacant w" and "\<not> poisoned (snd w)"
  shows "owned_inv occupied slots_ok w"
  using reachable_owned_or_poisoned [OF assms(1)] assms(2) by (simp add: owned_or_poisoned_def)

lemma reachable_dealloc:
  assumes "slots_reachable grow lim cap vacant w" and "\<not> poisoned (snd w)"
  shows "\<exists>w'. this_thread_dealloc_storage_slot vacant t w =
    Inr (this_thread_does_have_allocated_storage_slot t w, w') \<and> fst w' t = None"
  using slots.owned_dealloc_inv [OF reachable_owned [OF assms], of t]
  unfolding this_thread_dealloc_storage_slot_def this_thread_does_have_allocated_storage_slot_def by blast

end

end
