(* ===== verification/Slots_Refine.thy ===== *)
theory Slots_Refine
  imports Hooks Slots_Storage
begin

text \<open>
  The two models of the storage slots agree: the slots of the machine are what the buffer of
  \<open>Slots_Storage\<close> looks like from outside. The buffer holds the newest message of every state word, the
  length and the free list are the same, and the allocations and deallocations of the machine are those of
  the buffer.
\<close>

definition newest :: "('e, 'g) sys \<Rightarrow> nat \<Rightarrow> 'e" where
  "newest s i = val_epoch (mval (mem s) (LSlot i) (last_ix (mem s) (LSlot i)))"

definition slots_match :: "'e slots \<Rightarrow> ('e, 'g) sys \<Rightarrow> bool" where
  "slots_match st s \<longleftrightarrow>
     slots_ok st \<and> free_ids st = free_slots s \<and> length (slice st) = slots_len s \<and>
     (\<forall>i < slots_len s. slice st ! i = newest s i)"

lemma newest_append:
  "hist (mem s') (LSlot i) = hist (mem s) (LSlot i) @ [(VEpoch a, w)] \<Longrightarrow> newest s' i = a"
  by (simp add: newest_def mval_def last_ix_def)

lemma newest_same: "hist (mem s') (LSlot i) = hist (mem s) (LSlot i) \<Longrightarrow> newest s' i = newest s i"
  by (simp add: newest_def mval_def last_ix_def)

text \<open>What the operations of the machine do to the slots.\<close>

lemma alloc_slot_free:
  assumes "alloc_slot t g a s = Some s'" and "free_slots s \<noteq> []"
  shows "tslot (thr s' t) = Some (last (free_slots s))" and "free_slots s' = butlast (free_slots s)"
    and "slots_len s' = slots_len s" and "newest s' (last (free_slots s)) = a"
    and "i \<noteq> last (free_slots s) \<Longrightarrow> newest s' i = newest s i"
  using assms
  by (auto simp: alloc_slot_def alloc_from_free_slot_def upd_defs slots_len_def newest_def mval_def last_ix_def
      view_simps Let_def)

lemma alloc_slot_push:
  assumes "alloc_slot t g a s = Some s'" and "free_slots s = []"
  shows "tslot (thr s' t) = Some (slots_len s)" and "free_slots s' = []" and "slots_len s < max_slots"
    and "slots_len s' = Suc (slots_len s)" and "newest s' (slots_len s) = a"
    and "i \<noteq> slots_len s \<Longrightarrow> newest s' i = newest s i"
  using assms
  by (auto simp: alloc_slot_def alloc_no_free_slots_def init_slot_def upd_defs slots_len_def newest_def mval_def
      last_ix_def view_simps Let_def split: if_splits)

lemma dealloc_slot_effect:
  "free_slots (dealloc_slot t sl s) = free_slots s @ [sl]" "slots_len (dealloc_slot t sl s) = slots_len s"
  "newest (dealloc_slot t sl s) sl = NONE_ENCODED_VALUE"
  "i \<noteq> sl \<Longrightarrow> newest (dealloc_slot t sl s) i = newest s i"
  by (auto simp: dealloc_slot_def upd_defs slots_len_def newest_def mval_def last_ix_def view_simps Let_def)

subsection \<open>Simulation\<close>

lemma slots_matchI:
  assumes "slots_inv st" and "\<not> poisoned st" and "free_ids st = free_slots s" and "length (slice st) = slots_len s"
    and "\<And>i. i < slots_len s \<Longrightarrow> slice st ! i = newest s i"
  shows "slots_match st s"
  using assms by (simp add: slots_match_def slots_ok_def)

context typed_vec
begin

lemma alloc_matches:
  assumes m: "slots_match st s" and a: "alloc_slot t g a s = Some s'" and "lim = max_slots"
  shows "\<exists>i st'. slots_alloc grow lim cap a st = Inr (i, st') \<and> tslot (thr s' t) = Some i \<and> slots_match st' s'"
proof -
  have ok: "slots_inv st" "\<not> poisoned st" and free: "free_ids st = free_slots s"
    and len: "length (slice st) = slots_len s" and val: "i < slots_len s \<Longrightarrow> slice st ! i = newest s i" for i
    using m by (simp_all add: slots_match_def slots_ok_def)
  show ?thesis
  proof (cases "free_slots s = []")
    case False
    note A = alloc_slot_free [OF a False]
    have fr: "free_ids st \<noteq> []" using False free by simp
    obtain st' where st': "slots_alloc grow lim cap a st = Inr (last (free_ids st), st')" "slots_inv st'"
        "\<not> poisoned st'" "slice st' = (slice st)[last (free_ids st) := a]" "free_ids st' = butlast (free_ids st)"
      by (rule slots_alloc_reuse [OF ok fr])
    have "slice st' ! i = newest s' i" if "i < slots_len s'" for i
      using that A(3-5) val len free by (cases "i = last (free_slots s)") (simp_all add: st'(4))
    hence "slots_match st' s'"
      using st'(2-5) A(2,3) free len by (intro slots_matchI) simp_all
    thus ?thesis using st'(1) A(1) free by auto
  next
    case True
    note A = alloc_slot_push [OF a True]
    have fr: "free_ids st = []" "length (slice st) < lim" using True free len A(3) assms(3) by simp_all
    obtain st' where st': "slots_alloc grow lim cap a st = Inr (length (slice st), st')" "slots_inv st'"
        "\<not> poisoned st'" "slice st' = slice st @ [a]" "free_ids st' = []"
      by (rule slots_alloc_push [OF ok fr cap grows])
    have "slice st' ! i = newest s' i" if "i < slots_len s'" for i
      using that A(4-6) val len by (cases "i = slots_len s") (simp_all add: st'(4) nth_append)
    hence "slots_match st' s'"
      using st'(2-5) A(2,4) len by (intro slots_matchI) simp_all
    thus ?thesis using st'(1) A(1) len by auto
  qed
qed

text \<open>The machine stops exactly where the buffer panics.\<close>

lemma alloc_panics:
  assumes m: "slots_match st s" and "lim = max_slots"
  shows "alloc_slot t g a s = None \<longleftrightarrow> (\<exists>e. slots_alloc grow lim cap a st = Inl e)"
proof -
  have ok: "slots_inv st" "\<not> poisoned st" and free: "free_ids st = free_slots s"
    and len: "length (slice st) = slots_len s" using m by (simp_all add: slots_match_def slots_ok_def)
  have none: "alloc_slot t g a s = None \<longleftrightarrow> free_slots s = [] \<and> max_slots \<le> slots_len s"
    by (auto simp: alloc_slot_def Let_def)
  show ?thesis
  proof
    assume "alloc_slot t g a s = None"
    thus "\<exists>e. slots_alloc grow lim cap a st = Inl e"
      using none slots_alloc_full [OF ok, of lim grow cap a] free len lim assms(2) by auto
  next
    assume "\<exists>e. slots_alloc grow lim cap a st = Inl e"
    thus "alloc_slot t g a s = None"
      using alloc_matches [OF m _ assms(2), of t g a] by (cases "alloc_slot t g a s") auto
  qed
qed

end

lemma dealloc_matches:
  assumes m: "slots_match st s" and sl: "sl \<in> occupied st"
  shows "\<exists>st'. slots_dealloc NONE_ENCODED_VALUE sl st = Inr ((), st') \<and> slots_match st' (dealloc_slot t sl s)"
proof -
  have ok: "slots_inv st" "\<not> poisoned st" and free: "free_ids st = free_slots s"
    and len: "length (slice st) = slots_len s" and val: "i < slots_len s \<Longrightarrow> slice st ! i = newest s i" for i
    using m by (simp_all add: slots_match_def slots_ok_def)
  obtain st' where st': "slots_dealloc NONE_ENCODED_VALUE sl st = Inr ((), st')" "slots_inv st'" "\<not> poisoned st'"
      "slice st' = (slice st)[sl := NONE_ENCODED_VALUE]" "free_ids st' = free_ids st @ [sl]"
    by (rule slots_dealloc_occupied [OF ok sl])
  have "slice st' ! i = newest (dealloc_slot t sl s) i" if "i < slots_len s" for i
    using that dealloc_slot_effect(3,4) [where sl = sl and t = t and s = s] val len
    by (cases "i = sl") (simp_all add: st'(4))
  hence "slots_match st' (dealloc_slot t sl s)"
    using st'(2-5) free len by (intro slots_matchI) (simp_all add: dealloc_slot_effect)
  thus ?thesis using st'(1) by blast
qed

lemma new_matches:
  assumes "free_slots s = []" and "slots_len s = 0"
  shows "slots_match new_slots s"
  using assms slots_inv_new by (intro slots_matchI) (simp_all add: new_slots_def slice_def)

end
