(* ===== verification/Notify_List.thy ===== *)
theory Notify_List
  imports Prelude "HOL-Library.Monad_Syntax"
begin

text \<open>
  The intrusive list of \<open>src/src/rcu_core/notify.rs\<close>: the slots embedded in the futures, the pointers between
  them, and the critical sections of the mutex that change them. Futures live in a heap; a pointer to a slot is
  the address of the future that holds it, and a pointer to the \<open>next\<close> field of a slot is that address too. An
  operation is \<open>None\<close> when it dereferences a pointer to a future that has been dropped, or when one of the
  debug assertions fails.

  Words of width \<open>'w\<close> stand for \<open>usize\<close>.
\<close>

subsection \<open>State\<close>

record slot =
  pprev :: "nat option"
  next_slot :: "nat option"
  waker :: "nat option"
  is_in_list :: bool

record 'u notified = slot +
  num_wakeups_snapshot :: 'u
  was_registered_into_list :: bool

text \<open>
  The notify object, the heap of its futures, and the effect of the wakers: the waker through which a
  future has been woken since it was last polled.
\<close>

record 'u notify =
  num_wakeups :: 'u
  waiters_list_head :: "nat option"
  num_active_waiters :: 'u
  futs :: "nat \<Rightarrow> 'u notified option"
  woken_by :: "nat \<Rightarrow> nat option"

definition new_notify :: "'w::len word notify" where
  "new_notify = \<lparr>num_wakeups = 0, waiters_list_head = None, num_active_waiters = 0, futs = (\<lambda>_. None),
     woken_by = (\<lambda>_. None)\<rparr>"

definition slot_new :: "'w::len word \<Rightarrow> 'w word notified" where
  "slot_new snapshot = \<lparr>pprev = None, next_slot = None, waker = None, is_in_list = False,
     num_wakeups_snapshot = snapshot, was_registered_into_list = False\<rparr>"

text \<open>A write through a pointer.\<close>

definition write_at :: "nat \<Rightarrow> ('w::len word notified \<Rightarrow> 'w word notified) \<Rightarrow> 'w word notify \<Rightarrow> 'w word notify option" where
  "write_at a g st = map_option (\<lambda>f. st\<lparr>futs := (futs st)(a \<mapsto> g f)\<rparr>) (futs st a)"

text \<open>The write through \<open>cur_slot_ptr\<close> or \<open>next_opt\<close>, when there is one.\<close>

definition write_opt ::
    "nat option \<Rightarrow> ('w::len word notified \<Rightarrow> 'w word notified) \<Rightarrow> 'w word notify \<Rightarrow> 'w word notify option" where
  "write_opt p g st = (case p of None \<Rightarrow> Some st | Some a \<Rightarrow> write_at a g st)"

subsection \<open>Operations\<close>

definition inc_num_active_waiters :: "'w::len word notify \<Rightarrow> 'w word notify option" where
  "inc_num_active_waiters st =
     (if num_active_waiters st = - 1 then None
      else Some (st\<lparr>num_active_waiters := num_active_waiters st + 1\<rparr>))"

definition dec_num_active_waiters :: "'w::len word notify \<Rightarrow> 'w word notify option" where
  "dec_num_active_waiters st =
     (if num_active_waiters st = 0 then None
      else Some (st\<lparr>num_active_waiters := num_active_waiters st - 1\<rparr>))"

text \<open>One round of the loop of \<open>notify\<close>, on the slot at the head.\<close>

definition notify_one :: "nat \<Rightarrow> 'w::len word notify \<Rightarrow> 'w word notify option" where
  "notify_one a st =
     do { cur_slot \<leftarrow> futs st a;
          let next_slot_ptr = next_slot cur_slot;
          let st = st\<lparr>waiters_list_head := next_slot_ptr\<rparr>;
          st \<leftarrow> write_opt next_slot_ptr (pprev_update (\<lambda>_. pprev cur_slot)) st;
          st \<leftarrow> (if next_slot_ptr = None then Some st else write_at a (pprev_update (\<lambda>_. None)) st);
          st \<leftarrow> write_at a (is_in_list_update (\<lambda>_. False)) st;
          st \<leftarrow> dec_num_active_waiters st;
          st \<leftarrow> write_at a (waker_update (\<lambda>_. None)) st;
          Some (case waker cur_slot of
                  None \<Rightarrow> st
                | Some w \<Rightarrow> st\<lparr>woken_by := (woken_by st)(a \<mapsto> w)\<rparr>) }"

partial_function (option) notify_loop :: "'w::len word notify \<Rightarrow> 'w word notify option" where
  "notify_loop st =
     (case waiters_list_head st of
        None \<Rightarrow> Some st
      | Some a \<Rightarrow> Option.bind (notify_one a st) notify_loop)"

text \<open>The first time a future is polled it goes to the front of the list.\<close>

definition register :: "nat \<Rightarrow> nat \<Rightarrow> 'w::len word notify \<Rightarrow> 'w word notify option" where
  "register a w st =
     do { st \<leftarrow> write_at a (waker_update (\<lambda>_. Some w)) st;
          st \<leftarrow> write_at a (is_in_list_update (\<lambda>_. True)) st;
          let head_opt = waiters_list_head st;
          st \<leftarrow> write_at a (next_slot_update (\<lambda>_. head_opt)) st;
          st \<leftarrow> write_at a (pprev_update (\<lambda>_. None)) st;
          st \<leftarrow> write_opt head_opt (pprev_update (\<lambda>_. Some a)) st;
          let st = st\<lparr>waiters_list_head := Some a\<rparr>;
          write_at a (was_registered_into_list_update (\<lambda>_. True)) st }"

text \<open>The critical section of \<open>poll\<close>; \<open>True\<close> is \<open>Poll::Ready\<close>.\<close>

definition poll_locked :: "nat \<Rightarrow> nat \<Rightarrow> 'w::len word notify \<Rightarrow> (bool \<times> 'w word notify) option" where
  "poll_locked a w st =
     do { f \<leftarrow> futs st a;
          if is_in_list f
          then (if waker f = Some w then Some (False, st)
                else map_option (Pair False) (write_at a (waker_update (\<lambda>_. Some w)) st))
          else if was_registered_into_list f then Some (True, st)
          else map_option (Pair False) (register a w st) }"

text \<open>The check of \<open>poll\<close> before and after it.\<close>

definition wakeups_seen :: "nat \<Rightarrow> 'w::len word notify \<Rightarrow> bool" where
  "wakeups_seen a st =
     (case futs st a of None \<Rightarrow> False | Some f \<Rightarrow> num_wakeups st \<noteq> num_wakeups_snapshot f)"

definition drop_never_registered_into_list :: "'w::len word notify \<Rightarrow> 'w word notify option" where
  "drop_never_registered_into_list st = dec_num_active_waiters st"

definition drop_was_registered_into_list :: "nat \<Rightarrow> 'w::len word notify \<Rightarrow> 'w word notify option" where
  "drop_was_registered_into_list a st =
     do { f \<leftarrow> futs st a;
          if is_in_list f
          then do { let pprev_opt = pprev f;
                    let next_opt = next_slot f;
                    st \<leftarrow> write_at a (pprev_update (\<lambda>_. None)) st;
                    st \<leftarrow> (case pprev_opt of
                             Some p \<Rightarrow> write_at p (next_slot_update (\<lambda>_. next_opt)) st
                           | None \<Rightarrow> (if waiters_list_head st = Some a
                                     then Some (st\<lparr>waiters_list_head := next_opt\<rparr>) else None));
                    st \<leftarrow> write_opt next_opt (pprev_update (\<lambda>_. pprev_opt)) st;
                    dec_num_active_waiters st }
          else Some st }"

text \<open>\<open>Drop for Notified\<close>; the memory of the future is gone afterwards.\<close>

definition drop_notified :: "nat \<Rightarrow> 'w::len word notify \<Rightarrow> 'w word notify option" where
  "drop_notified a st =
     do { f \<leftarrow> futs st a;
          st \<leftarrow> (if was_registered_into_list f then drop_was_registered_into_list a st
                else drop_never_registered_into_list st);
          Some (st\<lparr>futs := (futs st)(a := None)\<rparr>) }"

subsection \<open>The list\<close>

fun linked :: "(nat \<Rightarrow> 'w::len word notified option) \<Rightarrow> nat option \<Rightarrow> nat option \<Rightarrow> nat list \<Rightarrow> bool" where
  "linked h p prev [] = (p = None)"
| "linked h p prev (a # xs) =
     (p = Some a \<and> (case h a of
        None \<Rightarrow> False
      | Some f \<Rightarrow> pprev f = prev \<and> is_in_list f \<and> linked h (next_slot f) (Some a) xs))"

definition linked_fields :: "'w::len word notified \<Rightarrow> nat option \<times> nat option \<times> bool" where
  "linked_fields f = (pprev f, next_slot f, is_in_list f)"

lemma linked_cong:
  "(\<And>a. a \<in> set xs \<Longrightarrow> map_option linked_fields (h' a) = map_option linked_fields (h a)) \<Longrightarrow>
   linked h' p prev xs = linked h p prev xs"
proof (induction xs arbitrary: p prev)
  case (Cons a xs)
  show ?case
    using Cons.prems [of a] Cons.IH Cons.prems
    by (cases "h a"; cases "h' a") (auto simp: linked_fields_def)
qed simp

lemma linked_upd_other [simp]: "a \<notin> set xs \<Longrightarrow> linked (h(a := v)) p prev xs = linked h p prev xs"
  by (rule linked_cong) auto

lemma linked_live: "linked h p prev xs \<Longrightarrow> a \<in> set xs \<Longrightarrow> \<exists>f. h a = Some f \<and> is_in_list f"
  by (induction xs arbitrary: p prev) (auto split: option.splits)

lemma linked_head: "linked h p prev xs \<Longrightarrow> p = (if xs = [] then None else Some (hd xs))"
  by (cases xs) auto

lemma linked_Cons:
  "linked h p prev (a # xs) \<longleftrightarrow>
     (\<exists>f. p = Some a \<and> h a = Some f \<and> pprev f = prev \<and> is_in_list f \<and> linked h (next_slot f) (Some a) xs)"
  by (cases "h a") auto

declare linked.simps(2) [simp del]

text \<open>The list without its first slot starts at the next one, whose \<open>pprev\<close> is then the one of the head.\<close>

definition set_pprev ::
    "nat option \<Rightarrow> nat option \<Rightarrow> (nat \<Rightarrow> 'w::len word notified option) \<Rightarrow> nat \<Rightarrow> 'w word notified option" where
  "set_pprev p v h = (case p of None \<Rightarrow> h | Some b \<Rightarrow> h(b := map_option (pprev_update (\<lambda>_. v)) (h b)))"

lemma linked_set_pprev:
  assumes "linked h p prev xs" and "distinct xs"
  shows "linked (set_pprev p v h) p v xs"
  using assms by (cases xs) (auto simp: set_pprev_def linked_Cons)

lemma set_pprev_other: "(\<forall>b. p = Some b \<longrightarrow> b \<noteq> a) \<Longrightarrow> set_pprev p v h a = h a"
  by (auto simp: set_pprev_def split: option.splits)

lemma write_opt_pprev:
  assumes "linked (futs st) p prev xs"
  shows "write_opt p (pprev_update (\<lambda>_. v)) st = Some (st\<lparr>futs := set_pprev p v (futs st)\<rparr>)"
  using assms by (cases xs) (auto simp: write_opt_def write_at_def set_pprev_def linked_Cons)

subsection \<open>Draining the list\<close>

definition removed :: "'w::len word notified \<Rightarrow> 'w word notified" where
  "removed f = f\<lparr>pprev := None, waker := None, is_in_list := False\<rparr>"

definition waker_of :: "'w::len word notify \<Rightarrow> nat \<Rightarrow> nat option" where
  "waker_of st a = (case futs st a of None \<Rightarrow> None | Some f \<Rightarrow> waker f)"

definition drained :: "nat list \<Rightarrow> 'w::len word notify \<Rightarrow> 'w word notify" where
  "drained xs st = st\<lparr>waiters_list_head := None,
     num_active_waiters := num_active_waiters st - of_nat (length xs),
     futs := (\<lambda>a. if a \<in> set xs then map_option removed (futs st a) else futs st a),
     woken_by := (\<lambda>a. if a \<in> set xs \<and> waker_of st a \<noteq> None then waker_of st a else woken_by st a)\<rparr>"

lemma drained_sel [simp]:
  "num_wakeups (drained xs st) = num_wakeups st" "waiters_list_head (drained xs st) = None"
  "num_active_waiters (drained xs st) = num_active_waiters st - of_nat (length xs)"
  "futs (drained xs st) = (\<lambda>a. if a \<in> set xs then map_option removed (futs st a) else futs st a)"
  "woken_by (drained xs st) =
     (\<lambda>a. if a \<in> set xs \<and> waker_of st a \<noteq> None then waker_of st a else woken_by st a)"
  by (simp_all add: drained_def)

lemma removed_upd [simp]: "removed (removed f) = removed f" "removed (f\<lparr>pprev := v\<rparr>) = removed f"
  by (simp_all add: removed_def)

lemma notify_one_eq:
  assumes "linked (futs st) (waiters_list_head st) None (a # xs)" and "distinct (a # xs)"
    and "num_active_waiters st \<noteq> 0"
  obtains f where "futs st a = Some f" and "is_in_list f" and "linked (futs st) (next_slot f) (Some a) xs"
    and "notify_one a st = Some (st\<lparr>waiters_list_head := next_slot f, num_active_waiters := num_active_waiters st - 1,
           futs := (set_pprev (next_slot f) None (futs st))(a \<mapsto> removed f),
           woken_by := (case waker f of None \<Rightarrow> woken_by st | Some w \<Rightarrow> (woken_by st)(a \<mapsto> w))\<rparr>)"
    and "linked ((set_pprev (next_slot f) None (futs st))(a \<mapsto> removed f)) (next_slot f) None xs"
proof -
  obtain f where f: "futs st a = Some f" "pprev f = None" "is_in_list f"
      "linked (futs st) (next_slot f) (Some a) xs" using assms(1) by (auto simp: linked_Cons)
  have other: "\<forall>b. next_slot f = Some b \<longrightarrow> b \<noteq> a"
    using linked_head [OF f(4)] assms(2) by (auto split: if_splits)
  let ?h = "(set_pprev (next_slot f) None (futs st))(a \<mapsto> removed f)"
  let ?st = "st\<lparr>waiters_list_head := next_slot f, num_active_waiters := num_active_waiters st - 1, futs := ?h,
    woken_by := (case waker f of None \<Rightarrow> woken_by st | Some w \<Rightarrow> (woken_by st)(a \<mapsto> w))\<rparr>"
  let ?u = "st\<lparr>waiters_list_head := next_slot f\<rparr>"
  have w: "write_opt (next_slot f) (pprev_update (\<lambda>_. None)) ?u =
      Some (?u\<lparr>futs := set_pprev (next_slot f) None (futs st)\<rparr>)"
    using write_opt_pprev [of ?u, where v = None] f(4) by simp
  have upd: "f\<lparr>is_in_list := False, waker := None\<rparr> = removed f" "f\<lparr>pprev := None, is_in_list := False, waker := None\<rparr> = removed f"
    using f(2) by (simp_all add: removed_def)
  have "notify_one a st = Some ?st"
    using assms(3) f(1,2) w set_pprev_other [OF other, of None "futs st"]
    by (cases "next_slot f"; cases "waker f")
      (simp_all add: notify_one_def write_at_def dec_num_active_waiters_def upd Let_def)
  moreover have "linked ?h (next_slot f) None xs"
    using linked_set_pprev [OF f(4), of None] assms(2) by simp
  ultimately show ?thesis using that f(1,3,4) by blast
qed

lemma notify_one_linked:
  assumes "linked (futs st) (waiters_list_head st) None (a # xs)" and "distinct (a # xs)"
    and "num_active_waiters st \<noteq> 0"
  obtains st1 where "notify_one a st = Some st1" and "linked (futs st1) (waiters_list_head st1) None xs"
    and "drained xs st1 = drained (a # xs) st" and "num_active_waiters st1 = num_active_waiters st - 1"
proof -
  obtain f where f: "futs st a = Some f" "linked (futs st) (next_slot f) (Some a) xs"
    and eq: "notify_one a st = Some (st\<lparr>waiters_list_head := next_slot f, num_active_waiters := num_active_waiters st - 1,
           futs := (set_pprev (next_slot f) None (futs st))(a \<mapsto> removed f),
           woken_by := (case waker f of None \<Rightarrow> woken_by st | Some w \<Rightarrow> (woken_by st)(a \<mapsto> w))\<rparr>)"
      "linked ((set_pprev (next_slot f) None (futs st))(a \<mapsto> removed f)) (next_slot f) None xs"
    using notify_one_eq [OF assms] by blast
  let ?st = "st\<lparr>waiters_list_head := next_slot f, num_active_waiters := num_active_waiters st - 1,
    futs := (set_pprev (next_slot f) None (futs st))(a \<mapsto> removed f),
    woken_by := (case waker f of None \<Rightarrow> woken_by st | Some w \<Rightarrow> (woken_by st)(a \<mapsto> w))\<rparr>"
  note eq
  moreover have "drained xs ?st = drained (a # xs) st"
  proof (rule notify.equality)
    have w: "waker_of ?st b = waker_of st b" if "b \<noteq> a" for b
      using that by (auto simp: waker_of_def set_pprev_def split: option.splits)
    have h: "map_option removed (set_pprev (next_slot f) None (futs st) b) = map_option removed (futs st b)" for b
      by (simp add: set_pprev_def option.map_comp comp_def split: option.split)
    have n: "b \<in> set xs \<or> set_pprev (next_slot f) None (futs st) b = futs st b" for b
      using linked_head [OF f(2)] set_pprev_other [of "next_slot f" b] by (cases xs) auto
    show "futs (drained xs ?st) = futs (drained (a # xs) st)"
      using assms(2) f(1) h n by (auto simp: fun_eq_iff)
    show "woken_by (drained xs ?st) = woken_by (drained (a # xs) st)"
    proof
      fix b
      show "woken_by (drained xs ?st) b = woken_by (drained (a # xs) st) b"
      proof (cases "b = a")
        case True
        thus ?thesis using assms(2) f(1) by (simp add: waker_of_def split: option.split)
      next
        case False
        show ?thesis
          unfolding drained_sel w [OF False] using False by (auto split: option.split)
      qed
    qed
  qed simp_all
  ultimately show ?thesis using that by simp
qed

lemma notify_loop_drains:
  assumes "linked (futs st) (waiters_list_head st) None xs" and "distinct xs"
    and "length xs \<le> unat (num_active_waiters st)"
  shows "notify_loop st = Some (drained xs st)"
  using assms
proof (induction xs arbitrary: st)
  case Nil
  thus ?case by (subst notify_loop.simps) (simp add: drained_def)
next
  case (Cons a xs)
  have nz: "num_active_waiters st \<noteq> 0" using Cons.prems(3) by auto
  obtain st1 where st1: "notify_one a st = Some st1" "linked (futs st1) (waiters_list_head st1) None xs"
      "drained xs st1 = drained (a # xs) st" "num_active_waiters st1 = num_active_waiters st - 1"
    by (rule notify_one_linked [OF Cons.prems(1,2) nz])
  have "length xs \<le> unat (num_active_waiters st1)"
    using Cons.prems(3) nz by (simp add: st1(4) unat_minus_one)
  hence "notify_loop st1 = Some (drained xs st1)" using Cons.IH [OF st1(2)] Cons.prems(2) by simp
  moreover have "waiters_list_head st = Some a" using Cons.prems(1) by (simp add: linked_Cons)
  ultimately show ?case using st1(1,3) by (subst notify_loop.simps) simp
qed

subsection \<open>Inserting at the front\<close>

definition inserted :: "nat option \<Rightarrow> nat \<Rightarrow> 'w::len word notified \<Rightarrow> 'w word notified" where
  "inserted p w f = f\<lparr>waker := Some w, is_in_list := True, next_slot := p, pprev := None,
     was_registered_into_list := True\<rparr>"

lemma register_linked:
  assumes l: "linked (futs st) (waiters_list_head st) None xs" and d: "distinct xs"
    and f: "futs st a = Some f" "\<not> is_in_list f"
  shows "register a w st = Some (st\<lparr>waiters_list_head := Some a,
      futs := (set_pprev (waiters_list_head st) (Some a) (futs st))(a \<mapsto> inserted (waiters_list_head st) w f)\<rparr>)"
    and "linked ((set_pprev (waiters_list_head st) (Some a) (futs st))(a \<mapsto> inserted (waiters_list_head st) w f))
      (Some a) None (a # xs)"
proof -
  have a: "a \<notin> set xs" using linked_live [OF l, of a] f by auto
  have other: "\<forall>b. waiters_list_head st = Some b \<longrightarrow> b \<noteq> a" using linked_head [OF l] a by (auto split: if_splits)
  let ?p = "waiters_list_head st"
  let ?g = "f\<lparr>waker := Some w, is_in_list := True, next_slot := ?p, pprev := None\<rparr>"
  let ?u = "st\<lparr>futs := (futs st)(a \<mapsto> ?g)\<rparr>"
  have "linked (futs ?u) ?p None xs" using l a by simp
  from write_opt_pprev [OF this, of "Some a"]
  have "write_opt ?p (pprev_update (\<lambda>_. Some a)) ?u =
      Some (?u\<lparr>futs := set_pprev ?p (Some a) ((futs st)(a \<mapsto> ?g))\<rparr>)" by simp
  moreover have "set_pprev ?p (Some a) ((futs st)(a \<mapsto> ?g)) = (set_pprev ?p (Some a) (futs st))(a \<mapsto> ?g)"
    using other by (auto simp: set_pprev_def split: option.splits)
  ultimately show "register a w st = Some (st\<lparr>waiters_list_head := Some a,
      futs := (set_pprev ?p (Some a) (futs st))(a \<mapsto> inserted ?p w f)\<rparr>)"
    using f by (simp add: register_def write_at_def inserted_def Let_def)
  show "linked ((set_pprev ?p (Some a) (futs st))(a \<mapsto> inserted ?p w f)) (Some a) None (a # xs)"
    using linked_set_pprev [OF l d, of "Some a"] a by (simp add: linked_Cons inserted_def)
qed

subsection \<open>Unlinking\<close>

definition set_next ::
    "nat option \<Rightarrow> nat option \<Rightarrow> (nat \<Rightarrow> 'w::len word notified option) \<Rightarrow> nat \<Rightarrow> 'w word notified option" where
  "set_next p v h = (case p of None \<Rightarrow> h | Some b \<Rightarrow> h(b := map_option (next_slot_update (\<lambda>_. v)) (h b)))"

definition last_or :: "nat option \<Rightarrow> nat list \<Rightarrow> nat option" where
  "last_or prev xs = (if xs = [] then prev else Some (last xs))"

lemma linked_split:
  "linked h p prev (xs @ a # ys) \<Longrightarrow>
   \<exists>f. h a = Some f \<and> pprev f = last_or prev xs \<and> is_in_list f \<and> linked h (next_slot f) (Some a) ys"
proof (induction xs arbitrary: p prev)
  case (Cons b xs)
  then obtain g :: "'a word notified" where "linked h (next_slot g) (Some b) (xs @ a # ys)"
    by (auto simp: linked_Cons)
  from Cons.IH [OF this] show ?case by (simp add: last_or_def split: if_splits)
qed (simp add: linked_Cons last_or_def)

lemma unlink_linked:
  assumes "linked h p prev (xs @ a # ys)" and "distinct (xs @ a # ys)" and "h a = Some f"
  shows "linked (set_pprev (next_slot f) (last_or prev xs) (set_next (last_or None xs) (next_slot f) h))
    (if xs = [] then next_slot f else p) prev (xs @ ys)"
  using assms
proof (induction xs arbitrary: p prev)
  case Nil
  hence "linked h (next_slot f) (Some a) ys" "distinct ys" by (auto simp: linked_Cons)
  thus ?case using linked_set_pprev by (simp add: last_or_def set_next_def)
next
  case (Cons b xs)
  obtain g where g: "p = Some b" "h b = Some g" "pprev g = prev" "is_in_list g"
      "linked h (next_slot g) (Some b) (xs @ a # ys)" using Cons.prems(1) by (auto simp: linked_Cons)
  have nf: "linked h (next_slot f) (Some a) ys" using linked_split [OF Cons.prems(1)] Cons.prems(3) by auto
  have ne: "\<forall>c. next_slot f = Some c \<longrightarrow> c \<noteq> b"
    using linked_head [OF nf] Cons.prems(2) by (auto split: if_splits)
  show ?case
  proof (cases xs)
    case Nil
    have "linked (set_pprev (next_slot f) (Some b) h) (next_slot f) (Some b) ys"
      using linked_set_pprev [OF nf] Cons.prems(2) by simp
    moreover have "set_pprev (next_slot f) (Some b) (h(b \<mapsto> g\<lparr>next_slot := next_slot f\<rparr>)) =
        (set_pprev (next_slot f) (Some b) h)(b \<mapsto> g\<lparr>next_slot := next_slot f\<rparr>)"
      using ne by (auto simp: set_pprev_def split: option.splits)
    moreover have "set_next (Some b) (next_slot f) h = h(b \<mapsto> g\<lparr>next_slot := next_slot f\<rparr>)"
      using g(2) by (simp add: set_next_def)
    ultimately have "linked (set_pprev (next_slot f) (Some b) (set_next (Some b) (next_slot f) h)) p prev (b # ys)"
      using g(1,3,4) Cons.prems(2) by (simp only:) (simp add: linked_Cons)
    thus ?thesis using Nil by (simp add: last_or_def)
  next
    case (Cons c zs)
    have IH: "linked (set_pprev (next_slot f) (Some (last xs)) (set_next (Some (last xs)) (next_slot f) h))
        (next_slot g) (Some b) (xs @ ys)"
      using Cons.IH [OF g(5)] Cons.prems(2,3) Cons by (simp add: last_or_def)
    have "last xs \<noteq> b" using Cons.prems(2) Cons by auto
    hence "set_pprev (next_slot f) (Some (last xs)) (set_next (Some (last xs)) (next_slot f) h) b = Some g"
      using ne g(2) by (simp add: set_pprev_other set_next_def)
    thus ?thesis using IH g Cons by (simp add: last_or_def linked_Cons)
  qed
qed

text \<open>The futures without the links of the list.\<close>

definition core :: "'w::len word notified \<Rightarrow> 'w word notified" where
  "core f = f\<lparr>pprev := None, next_slot := None\<rparr>"

definition cores :: "(nat \<Rightarrow> 'w::len word notified option) \<Rightarrow> nat \<Rightarrow> 'w word notified option" where
  "cores h = (\<lambda>a. map_option core (h a))"

lemma core_sel [simp]:
  "waker (core f) = waker f" "is_in_list (core f) = is_in_list f"
  "num_wakeups_snapshot (core f) = num_wakeups_snapshot f"
  "was_registered_into_list (core f) = was_registered_into_list f"
  by (simp_all add: core_def)

lemma core_links [simp]: "core (pprev_update g f) = core f" "core (next_slot_update g f) = core f"
  by (simp_all add: core_def)

lemma core_upd:
  "core (waker_update g f) = waker_update g (core f)"
  "core (is_in_list_update h f) = is_in_list_update h (core f)"
  "core (was_registered_into_list_update h f) = was_registered_into_list_update h (core f)"
  by (cases f; simp add: core_def)+

lemma cores_set [simp]: "cores (set_pprev p v h) = cores h" "cores (set_next p v h) = cores h"
  by (auto simp: cores_def set_pprev_def set_next_def option.map_comp comp_def fun_eq_iff split: option.split)

lemma cores_upd [simp]: "cores (h(a := x)) = (cores h)(a := map_option core x)"
  by (simp add: cores_def fun_eq_iff)

lemma cores_same: "h a = Some f \<Longrightarrow> (cores h)(a \<mapsto> core f) = cores h"
  by (simp add: cores_def fun_eq_iff)

lemma last_or_in: "last_or None xs = Some b \<Longrightarrow> b \<in> set xs"
  by (auto simp: last_or_def split: if_splits)

lemma unlink_in_list:
  assumes l: "linked (futs st) (waiters_list_head st) None xs" and d: "distinct xs" and a: "a \<in> set xs"
    and n: "num_active_waiters st \<noteq> 0"
  obtains st' where "drop_was_registered_into_list a st = Some st'"
    and "linked (futs st') (waiters_list_head st') None (remove1 a xs)"
    and "cores (futs st') = cores (futs st)" and "num_active_waiters st' = num_active_waiters st - 1"
    and "num_wakeups st' = num_wakeups st" and "woken_by st' = woken_by st"
proof -
  obtain ys zs where xs: "xs = ys @ a # zs" using a by (meson split_list)
  obtain f where f: "futs st a = Some f" "pprev f = last_or None ys" "is_in_list f"
      "linked (futs st) (next_slot f) (Some a) zs" using linked_split [of "futs st"] l xs by blast
  let ?p = "last_or None ys" and ?n = "next_slot f" and ?g = "f\<lparr>pprev := None\<rparr>"
  let ?h = "set_pprev ?n ?p (set_next ?p ?n (futs st))"
  have pa: "\<forall>b. ?p = Some b \<longrightarrow> b \<noteq> a" using last_or_in [of ys] d xs by auto
  have na: "\<forall>b. ?n = Some b \<longrightarrow> b \<noteq> a" using linked_head [OF f(4)] d xs by (auto split: if_splits)
  have pn: "\<forall>b. ?n = Some b \<longrightarrow> ?p \<noteq> Some b"
    using linked_head [OF f(4)] last_or_in [of ys] d xs by (fastforce split: if_splits)
  have live: "\<exists>g. futs st b = Some g" if "?p = Some b \<or> ?n = Some b" for b
    using that linked_live [OF l, of b] last_or_in [of ys b] linked_head [OF f(4)] xs by (auto split: if_splits)
  have head: "waiters_list_head st = (if ys = [] then Some a else Some (hd ys))"
    using linked_head [OF l] xs by (cases ys) auto
  let ?st = "st\<lparr>waiters_list_head := (if ys = [] then ?n else waiters_list_head st),
    num_active_waiters := num_active_waiters st - 1, futs := ?h(a \<mapsto> ?g)\<rparr>"
  have "drop_was_registered_into_list a st = Some ?st"
  proof (cases "?p")
    case None
    hence "ys = []" by (simp add: last_or_def split: if_splits)
    thus ?thesis
      using None f(1-3) n na live [of "the ?n"] head
      by (cases "?n") (auto simp: drop_was_registered_into_list_def write_at_def write_opt_def
          dec_num_active_waiters_def set_pprev_def set_next_def fun_upd_twist Let_def)
  next
    case (Some b)
    hence ys: "ys \<noteq> []" by (auto simp: last_or_def)
    obtain g where g: "futs st b = Some g" using live Some by blast
    show ?thesis
      using Some ys g f(1-3) n na pa pn live [of "the ?n"] head
      by (cases "?n") (auto simp: drop_was_registered_into_list_def write_at_def write_opt_def
          dec_num_active_waiters_def set_pprev_def set_next_def fun_upd_twist Let_def)
  qed
  moreover have "remove1 a xs = ys @ zs" using d xs by (simp add: remove1_append)
  moreover have "linked (?h(a \<mapsto> ?g)) (if ys = [] then ?n else waiters_list_head st) None (ys @ zs)"
    using unlink_linked [OF l [unfolded xs] _ f(1)] d xs by simp
  moreover have "cores (?h(a \<mapsto> ?g)) = cores (futs st)"
    using cores_same [of "futs st" a f] f(1) by simp
  ultimately show ?thesis using that [of ?st] by simp
qed

subsection \<open>What the critical sections do\<close>

text \<open>
  The list holds exactly the futures whose slots say that they are in it. The lemmas of this section give the
  operations as functions of the futures without their links.
\<close>

definition in_list :: "'w::len word notify \<Rightarrow> nat \<Rightarrow> bool" where
  "in_list st a \<longleftrightarrow> (\<exists>f. futs st a = Some f \<and> is_in_list f)"

definition list_inv :: "'w::len word notify \<Rightarrow> bool" where
  "list_inv st \<longleftrightarrow>
     (\<exists>xs. linked (futs st) (waiters_list_head st) None xs \<and> distinct xs \<and> (\<forall>a. in_list st a \<longleftrightarrow> a \<in> set xs))"

lemma in_list_cores: "in_list st a \<longleftrightarrow> (\<exists>f. cores (futs st) a = Some f \<and> is_in_list f)"
  by (auto simp: in_list_def cores_def)

lemma list_invI:
  assumes "linked (futs st) (waiters_list_head st) None xs" and "distinct xs"
    and "\<And>a. in_list st a \<Longrightarrow> a \<in> set xs"
  shows "list_inv st"
  unfolding list_inv_def
  using assms linked_live [OF assms(1)] by (auto simp: in_list_def)

lemma list_inv_new: "list_inv new_notify"
  by (rule list_invI [of _ "[]"]) (simp_all add: new_notify_def in_list_def)

lemma list_inv_other:
  assumes "list_inv st" and "\<not> in_list st a" and "waiters_list_head st' = waiters_list_head st"
    and "futs st' = (futs st)(a := x)" and "\<And>f. x = Some f \<Longrightarrow> \<not> is_in_list f"
  shows "list_inv st'"
proof -
  obtain xs where "linked (futs st) (waiters_list_head st) None xs" "distinct xs"
      "\<And>b. in_list st b \<longleftrightarrow> b \<in> set xs" using assms(1) by (auto simp: list_inv_def)
  thus ?thesis
    using assms(2-5) by (intro list_invI [of _ xs]) (auto simp: in_list_def split: if_splits)
qed

lemma list_inv_same:
  assumes "list_inv st" and "waiters_list_head st' = waiters_list_head st" and "futs st' = futs st"
  shows "list_inv st'"
  using assms by (simp add: list_inv_def in_list_def)

lemma register_effect:
  assumes inv: "list_inv st" and f: "futs st a = Some f" "\<not> is_in_list f"
  obtains st' where "register a w st = Some st'" and "list_inv st'"
    and "cores (futs st') = (cores (futs st))(a \<mapsto> core f\<lparr>waker := Some w, is_in_list := True,
           was_registered_into_list := True\<rparr>)"
    and "num_active_waiters st' = num_active_waiters st" and "num_wakeups st' = num_wakeups st"
    and "woken_by st' = woken_by st"
proof -
  obtain xs where xs: "linked (futs st) (waiters_list_head st) None xs" "distinct xs"
      "\<And>b. in_list st b \<longleftrightarrow> b \<in> set xs" using inv by (auto simp: list_inv_def)
  note R = register_linked [OF xs(1,2) f, of w]
  let ?h = "(set_pprev (waiters_list_head st) (Some a) (futs st))(a \<mapsto> inserted (waiters_list_head st) w f)"
  let ?st = "st\<lparr>waiters_list_head := Some a, futs := ?h\<rparr>"
  have a: "a \<notin> set xs" using xs(3) [of a] f by (simp add: in_list_def)
  have cores: "cores ?h = (cores (futs st))(a \<mapsto> core f\<lparr>waker := Some w, is_in_list := True,
      was_registered_into_list := True\<rparr>)"
    by (simp add: inserted_def core_upd)
  have "b \<in> set (a # xs)" if "in_list ?st b" for b
    using that xs(3) [of b] unfolding in_list_cores by (auto simp: cores simp del: cores_upd split: if_splits)
  hence "list_inv ?st" using R(2) a xs(2) by (intro list_invI [of _ "a # xs"]) auto
  thus ?thesis using that [of ?st] R(1) cores by simp
qed

lemma waker_effect:
  assumes inv: "list_inv st" and f: "futs st a = Some f" "is_in_list f"
  shows "list_inv (st\<lparr>futs := (futs st)(a \<mapsto> f\<lparr>waker := v\<rparr>)\<rparr>)"
proof -
  obtain xs where xs: "linked (futs st) (waiters_list_head st) None xs" "distinct xs"
      "\<And>b. in_list st b \<longleftrightarrow> b \<in> set xs" using inv by (auto simp: list_inv_def)
  have "linked ((futs st)(a \<mapsto> f\<lparr>waker := v\<rparr>)) (waiters_list_head st) None xs = linked (futs st) (waiters_list_head st) None xs"
    by (rule linked_cong) (simp add: f(1) linked_fields_def)
  thus ?thesis
    using xs f by (intro list_invI [of _ xs]) (auto simp: in_list_def split: if_splits)
qed

text \<open>\<open>poll_locked\<close> always returns, and says \<open>Ready\<close> to a future that was registered and has been taken off.\<close>

definition repoll :: "nat \<Rightarrow> 'w::len word notified \<Rightarrow> 'w word notified" where
  "repoll w f = f\<lparr>waker := Some w, is_in_list := True, was_registered_into_list := True\<rparr>"

lemma poll_locked_effect:
  assumes inv: "list_inv st" and f: "futs st a = Some f" and reg: "is_in_list f \<Longrightarrow> was_registered_into_list f"
  obtains (taken_off) "was_registered_into_list f" and "\<not> is_in_list f" and "poll_locked a w st = Some (True, st)"
  | (waits) st' where "was_registered_into_list f \<longrightarrow> is_in_list f" and "poll_locked a w st = Some (False, st')"
      and "list_inv st'" and "cores (futs st') = (cores (futs st))(a \<mapsto> repoll w (core f))"
      and "num_active_waiters st' = num_active_waiters st" and "num_wakeups st' = num_wakeups st"
      and "woken_by st' = woken_by st"
proof (cases "is_in_list f")
  case True
  let ?st = "st\<lparr>futs := (futs st)(a \<mapsto> f\<lparr>waker := Some w\<rparr>)\<rparr>"
  have same: "waker f = Some w \<Longrightarrow> ?st = st"
    using f by (cases f) (auto simp: fun_upd_idem)
  have upd: "repoll w (core f) = core (f\<lparr>waker := Some w\<rparr>)"
    using True reg by (simp add: repoll_def core_def)
  have "poll_locked a w st = Some (False, ?st)"
    using f True same by (auto simp: poll_locked_def write_at_def)
  thus ?thesis
    using waits [of ?st] True waker_effect [OF inv f True] by (simp add: upd)
next
  case False
  show ?thesis
  proof (cases "was_registered_into_list f")
    case True
    thus ?thesis using taken_off False f by (simp add: poll_locked_def)
  next
    case new: False
    obtain st' where st': "register a w st = Some st'" "list_inv st'"
        "cores (futs st') = (cores (futs st))(a \<mapsto> core f\<lparr>waker := Some w, is_in_list := True,
           was_registered_into_list := True\<rparr>)"
        "num_active_waiters st' = num_active_waiters st" "num_wakeups st' = num_wakeups st"
        "woken_by st' = woken_by st"
      by (rule register_effect [OF inv f False])
    have "poll_locked a w st = Some (False, st')" using new False f st'(1) by (simp add: poll_locked_def)
    thus ?thesis using waits [of st'] new st'(2-) by (simp add: repoll_def)
  qed
qed

text \<open>The loop of \<open>notify\<close> ends, with every future taken off the list and woken.\<close>

definition take_off :: "'w::len word notified \<Rightarrow> 'w word notified" where
  "take_off f = (if is_in_list f then f\<lparr>waker := None, is_in_list := False\<rparr> else f)"

lemma notify_loop_effect:
  assumes inv: "list_inv st" and n: "card {a. in_list st a} \<le> unat (num_active_waiters st)"
  obtains st' where "notify_loop st = Some st'" and "list_inv st'"
    and "cores (futs st') = (\<lambda>a. map_option take_off (cores (futs st) a))"
    and "num_active_waiters st' = num_active_waiters st - of_nat (card {a. in_list st a})"
    and "num_wakeups st' = num_wakeups st"
    and "woken_by st' = (\<lambda>a. if in_list st a \<and> waker_of st a \<noteq> None then waker_of st a else woken_by st a)"
    and "finite {a. in_list st a}"
proof -
  obtain xs where xs: "linked (futs st) (waiters_list_head st) None xs" "distinct xs"
      "\<And>b. in_list st b \<longleftrightarrow> b \<in> set xs" using inv by (auto simp: list_inv_def)
  have set: "{a. in_list st a} = set xs" using xs(3) by auto
  hence len: "card {a. in_list st a} = length xs" using xs(2) distinct_card by metis
  have loop: "notify_loop st = Some (drained xs st)"
    by (rule notify_loop_drains [OF xs(1,2)]) (use n len in simp)
  have "list_inv (drained xs st)"
  proof (rule list_invI [of _ "[]"])
    show "a \<in> set []" if "in_list (drained xs st) a" for a
      using that xs(3) [of a] by (auto simp: in_list_def removed_def split: if_splits)
  qed simp_all
  moreover have "cores (futs (drained xs st)) a = map_option take_off (cores (futs st) a)" for a
    using xs(3) [of a]
    by (cases "futs st a") (auto simp: cores_def in_list_def take_off_def removed_def core_def)
  ultimately show ?thesis using that [OF loop] xs(3) set len by (simp add: fun_eq_iff)
qed

text \<open>Dropping a future leaves no pointer to it.\<close>

definition active :: "'w::len word notified \<Rightarrow> bool" where
  "active f \<longleftrightarrow> \<not> was_registered_into_list f \<or> is_in_list f"

lemma drop_notified_effect:
  assumes inv: "list_inv st" and f: "futs st a = Some f" and reg: "is_in_list f \<Longrightarrow> was_registered_into_list f"
    and n: "active f \<Longrightarrow> num_active_waiters st \<noteq> 0"
  obtains st' where "drop_notified a st = Some st'" and "list_inv st'"
    and "cores (futs st') = (cores (futs st))(a := None)"
    and "num_active_waiters st' = num_active_waiters st - (if active f then 1 else 0)"
    and "num_wakeups st' = num_wakeups st" and "woken_by st' = woken_by st"
proof (cases "is_in_list f")
  case True
  have act: "active f" using True by (simp add: active_def)
  obtain xs where xs: "linked (futs st) (waiters_list_head st) None xs" "distinct xs"
      "\<And>b. in_list st b \<longleftrightarrow> b \<in> set xs" using inv by (auto simp: list_inv_def)
  have a: "a \<in> set xs" using xs(3) [of a] f True by (simp add: in_list_def)
  obtain st1 where st1: "drop_was_registered_into_list a st = Some st1"
      "linked (futs st1) (waiters_list_head st1) None (remove1 a xs)" "cores (futs st1) = cores (futs st)"
      "num_active_waiters st1 = num_active_waiters st - 1" "num_wakeups st1 = num_wakeups st"
      "woken_by st1 = woken_by st"
    by (rule unlink_in_list [OF xs(1,2) a n [OF act]])
  let ?st = "st1\<lparr>futs := (futs st1)(a := None)\<rparr>"
  have "b \<in> set (remove1 a xs)" if "in_list ?st b" for b
    using that xs(2) xs(3) [of b] unfolding in_list_cores by (auto simp: st1(3) split: if_splits)
  moreover have "linked (futs ?st) (waiters_list_head ?st) None (remove1 a xs)"
    using st1(2) xs(2) by simp
  ultimately have "list_inv ?st" using xs(2) by (intro list_invI [of _ "remove1 a xs"]) auto
  moreover have "drop_notified a st = Some ?st" using f st1(1) reg True by (simp add: drop_notified_def)
  ultimately show ?thesis using that st1(3-) act by simp
next
  case False
  have out: "\<not> in_list st a" using f False by (simp add: in_list_def)
  show ?thesis
  proof (cases "was_registered_into_list f")
    case True
    let ?st = "st\<lparr>futs := (futs st)(a := None)\<rparr>"
    have "list_inv ?st" by (rule list_inv_other [OF inv out, where x = None]) simp_all
    thus ?thesis
      using that [of ?st] f True False
      by (simp add: drop_notified_def drop_was_registered_into_list_def active_def)
  next
    case never: False
    have act: "active f" using never by (simp add: active_def)
    let ?st = "st\<lparr>num_active_waiters := num_active_waiters st - 1, futs := (futs st)(a := None)\<rparr>"
    have "list_inv ?st" by (rule list_inv_other [OF inv out, where x = None]) simp_all
    thus ?thesis
      using that [of ?st] f never n act
      by (simp add: drop_notified_def drop_never_registered_into_list_def dec_num_active_waiters_def)
  qed
qed

end
