(* ===== verification/Notify_Machine.thy ===== *)
theory Notify_Machine
  imports Notify_List
begin

text \<open>
  The notify object of \<open>src/src/rcu_core/notify.rs\<close> under concurrent use: the atomic steps of \<open>notified\<close>,
  \<open>poll\<close>, \<open>drop\<close> and \<open>notify\<close> from any number of threads, in any order. A critical section of the mutex is
  one step: what other threads may do meanwhile, the counter of active waiters, commutes with it. The steps are
  those of a sequentially consistent memory; the orderings that \<open>notify\<close> promises its users are the lock and
  release views of the machine of \<open>Machine\<close>.

  The contract is the specification \<open>notify_spec\<close>: a call of \<open>notify\<close> does not return before every future
  that was registered when it was called has been notified, and woken if it slept.
\<close>

subsection \<open>State\<close>

text \<open>
  Where a future is. \<open>FNew\<close>: counted as a waiter, but its snapshot is not taken yet. \<open>FLock w\<close> and
  \<open>FRecheck w\<close>: in a poll with waker \<open>w\<close>, before the critical section and after it. \<open>FPending w\<close>: the last poll
  returned \<open>Pending\<close>.
\<close>

datatype fut_pc = FNone | FNew | FIdle | FLock nat | FRecheck nat | FReady | FPending nat

text \<open>Where a call of \<open>notify\<close> is. The set is auxiliary: the futures that were registered when it began.\<close>

datatype ntf_pc = NIdle | NCalled "nat set" | NAdd "nat set" | NLock "nat set" | NReturn "nat set"

text \<open>
  The number of wakeups without the wrap-around of \<open>usize\<close>, and its value when a future was registered,
  are auxiliary too.
\<close>

record 'u notify_sys =
  nst :: "'u notify"
  fpc :: "nat \<Rightarrow> fut_pc"
  npc :: "nat \<Rightarrow> ntf_pc"
  total :: nat
  born :: "nat \<Rightarrow> nat"

definition notify_init :: "'w::len word notify_sys" where
  "notify_init = \<lparr>nst = new_notify, fpc = (\<lambda>_. FNone), npc = (\<lambda>_. NIdle), total = 0, born = (\<lambda>_. 0)\<rparr>"

abbreviation at_f :: "nat \<Rightarrow> fut_pc \<Rightarrow> 'w::len word notify \<Rightarrow> 'w word notify_sys \<Rightarrow> 'w word notify_sys" where
  "at_f a c st s \<equiv> s\<lparr>nst := st, fpc := (fpc s)(a := c)\<rparr>"

abbreviation at_n :: "nat \<Rightarrow> ntf_pc \<Rightarrow> 'w::len word notify \<Rightarrow> 'w word notify_sys \<Rightarrow> 'w word notify_sys" where
  "at_n t c st s \<equiv> s\<lparr>nst := st, npc := (npc s)(t := c)\<rparr>"

fun forget :: "nat \<Rightarrow> ntf_pc \<Rightarrow> ntf_pc" where
  "forget a NIdle = NIdle"
| "forget a (NCalled F) = NCalled (F - {a})"
| "forget a (NAdd F) = NAdd (F - {a})"
| "forget a (NLock F) = NLock (F - {a})"
| "forget a (NReturn F) = NReturn (F - {a})"

subsection \<open>Steps\<close>

definition notified_load :: "nat \<Rightarrow> 'w::len word notify \<Rightarrow> 'w word notify" where
  "notified_load a st = st\<lparr>futs := (futs st)(a \<mapsto> slot_new (num_wakeups st)), woken_by := (woken_by st)(a := None)\<rparr>"

definition poll_check :: "nat \<Rightarrow> 'w::len word notify \<Rightarrow> bool \<times> 'w word notify" where
  "poll_check a st = (wakeups_seen a st, st\<lparr>woken_by := (woken_by st)(a := None)\<rparr>)"

definition notify_add :: "'w::len word notify \<Rightarrow> 'w word notify" where
  "notify_add st = st\<lparr>num_wakeups := num_wakeups st + 1\<rparr>"

inductive notify_step :: "'w::len word notify_sys \<Rightarrow> 'w word notify_sys \<Rightarrow> bool" where
  notified_inc: "fpc s a = FNone \<Longrightarrow> inc_num_active_waiters (nst s) = Some st \<Longrightarrow>
    notify_step s (at_f a FNew st s)"
| notified_load: "fpc s a = FNew \<Longrightarrow>
    notify_step s ((at_f a FIdle (notified_load a (nst s)) s)\<lparr>born := (born s)(a := total s)\<rparr>)"
| poll_check: "fpc s a = FIdle \<or> fpc s a = FPending w' \<Longrightarrow> poll_check a (nst s) = (ready, st) \<Longrightarrow>
    notify_step s (at_f a (if ready then FReady else FLock w) st s)"
| poll_lock: "fpc s a = FLock w \<Longrightarrow> poll_locked a w (nst s) = Some (ready, st) \<Longrightarrow>
    notify_step s (at_f a (if ready then FReady else FRecheck w) st s)"
| poll_recheck: "fpc s a = FRecheck w \<Longrightarrow>
    notify_step s (at_f a (if wakeups_seen a (nst s) then FReady else FPending w) (nst s) s)"
| notified_drop: "fpc s a \<in> {FIdle, FReady} \<or> fpc s a = FPending w \<Longrightarrow> drop_notified a (nst s) = Some st \<Longrightarrow>
    notify_step s ((at_f a FNone st s)\<lparr>npc := (\<lambda>t. forget a (npc s t))\<rparr>)"
| notify_call: "npc s t = NIdle \<Longrightarrow>
    notify_step s (at_n t (NCalled {a. futs (nst s) a \<noteq> None}) (nst s) s)"
| notify_check: "npc s t = NCalled F \<Longrightarrow>
    notify_step s (at_n t (if num_active_waiters (nst s) = 0 then NReturn F else NAdd F) (nst s) s)"
| notify_add: "npc s t = NAdd F \<Longrightarrow>
    notify_step s ((at_n t (NLock F) (notify_add (nst s)) s)\<lparr>total := Suc (total s)\<rparr>)"
| notify_lock: "npc s t = NLock F \<Longrightarrow> notify_loop (nst s) = Some st \<Longrightarrow>
    notify_step s (at_n t (NReturn F) st s)"
| notify_return: "npc s t = NReturn F \<Longrightarrow>
    notify_step s (at_n t NIdle (nst s) s)"

inductive_cases notify_stepE: "notify_step s s'"

inductive notify_reachable :: "'w::len word notify_sys \<Rightarrow> bool" where
  nreach_init: "notify_reachable notify_init"
| nreach_step: "notify_reachable s \<Longrightarrow> notify_step s s' \<Longrightarrow> notify_reachable s'"

subsection \<open>Invariant\<close>

abbreviation fut :: "'w::len word notify_sys \<Rightarrow> nat \<Rightarrow> 'w word notified option" where
  "fut s a \<equiv> cores (futs (nst s)) a"

definition waiting_futs :: "'w::len word notify_sys \<Rightarrow> nat set" where
  "waiting_futs s = {a. fpc s a = FNew \<or> (\<exists>f. fut s a = Some f \<and> active f)}"

definition count_inv :: "'w::len word notify_sys \<Rightarrow> bool" where
  "count_inv s \<longleftrightarrow> finite (waiting_futs s) \<and> unat (num_active_waiters (nst s)) = card (waiting_futs s)"

text \<open>A future that the next poll finds ready.\<close>

definition signalled :: "'w::len word notify_sys \<Rightarrow> nat \<Rightarrow> bool" where
  "signalled s a \<longleftrightarrow> born s a < total s \<or>
     (\<exists>f. fut s a = Some f \<and> was_registered_into_list f \<and> \<not> is_in_list f)"

text \<open>A future whose last poll returned \<open>Pending\<close> and whose waker has not been called since.\<close>

definition asleep :: "'w::len word notify_sys \<Rightarrow> nat \<Rightarrow> bool" where
  "asleep s a \<longleftrightarrow> (\<exists>w. fpc s a = FPending w) \<and> woken_by (nst s) a = None"

definition fut_inv :: "'w::len word notify_sys \<Rightarrow> nat \<Rightarrow> 'w word notified \<Rightarrow> bool" where
  "fut_inv s a f \<longleftrightarrow>
     (is_in_list f \<longrightarrow> was_registered_into_list f) \<and> num_wakeups_snapshot f = of_nat (born s a) \<and>
     born s a \<le> total s \<and>
     (\<forall>w. fpc s a = FRecheck w \<or> fpc s a = FPending w \<longrightarrow> was_registered_into_list f \<and>
       (if is_in_list f then waker f = Some w else woken_by (nst s) a = Some w)) \<and>
     (\<forall>w. fpc s a = FPending w \<and> is_in_list f \<longrightarrow> total s = born s a \<or> (\<exists>t F. npc s t = NLock F)) \<and>
     (is_in_list f \<longrightarrow> waker f \<noteq> None) \<and>
     (fpc s a = FReady \<longrightarrow> signalled s a)"

definition futs_inv :: "'w::len word notify_sys \<Rightarrow> bool" where
  "futs_inv s \<longleftrightarrow>
     (\<forall>a. (fut s a = None \<longleftrightarrow> fpc s a \<in> {FNone, FNew}) \<and> (\<forall>f. fut s a = Some f \<longrightarrow> fut_inv s a f))"

fun ntf_inv :: "'w::len word notify_sys \<Rightarrow> ntf_pc \<Rightarrow> bool" where
  "ntf_inv s NIdle = True"
| "ntf_inv s (NCalled F) = (\<forall>a \<in> F. fut s a \<noteq> None)"
| "ntf_inv s (NAdd F) = (\<forall>a \<in> F. fut s a \<noteq> None)"
| "ntf_inv s (NLock F) = (\<forall>a \<in> F. fut s a \<noteq> None \<and> born s a < total s)"
| "ntf_inv s (NReturn F) = (\<forall>a \<in> F. fut s a \<noteq> None \<and> signalled s a \<and> \<not> asleep s a)"

definition notify_inv :: "'w::len word notify_sys \<Rightarrow> bool" where
  "notify_inv s \<longleftrightarrow> list_inv (nst s) \<and> count_inv s \<and> futs_inv s \<and> (\<forall>t. ntf_inv s (npc s t)) \<and>
     num_wakeups (nst s) = of_nat (total s)"

lemma notify_invD:
  assumes "notify_inv s"
  shows "list_inv (nst s)" and "count_inv s" and "fut s a = None \<longleftrightarrow> fpc s a \<in> {FNone, FNew}"
    and "fut s a = Some f \<Longrightarrow> fut_inv s a f" and "ntf_inv s (npc s t)" and "num_wakeups (nst s) = of_nat (total s)"
  using assms by (auto simp: notify_inv_def futs_inv_def)

lemma fut_Some: "fut s a = Some c \<longleftrightarrow> (\<exists>f. futs (nst s) a = Some f \<and> c = core f)"
  by (auto simp: cores_def)

lemma fut_None: "fut s a = None \<longleftrightarrow> futs (nst s) a = None"
  by (simp add: cores_def)

lemma active_core [simp]: "active (core f) = active f"
  by (simp add: active_def)

text \<open>A step that changes one future, and nothing of the calls of \<open>notify\<close>.\<close>

definition only :: "nat \<Rightarrow> 'w::len word notify_sys \<Rightarrow> 'w word notify_sys \<Rightarrow> bool" where
  "only a s s' \<longleftrightarrow> total s' = total s \<and> npc s' = npc s \<and> num_wakeups (nst s') = num_wakeups (nst s) \<and>
     (\<forall>b. b \<noteq> a \<longrightarrow> fut s' b = fut s b \<and> fpc s' b = fpc s b \<and> born s' b = born s b \<and>
        woken_by (nst s') b = woken_by (nst s) b)"

lemma only_other:
  assumes "only a s s'" and "b \<noteq> a"
  shows "fut_inv s' b f = fut_inv s b f" and "signalled s' b = signalled s b" and "asleep s' b = asleep s b"
  using assms by (simp_all add: only_def fut_inv_def signalled_def asleep_def)

lemma only_ntf_inv:
  assumes "only a s s'" and "ntf_inv s c"
    and "fut s a \<noteq> None \<Longrightarrow> fut s' a \<noteq> None \<and> born s' a = born s a"
    and "fut s a \<noteq> None \<Longrightarrow> signalled s a \<Longrightarrow> \<not> asleep s a \<Longrightarrow> signalled s' a \<and> \<not> asleep s' a"
  shows "ntf_inv s' c"
proof -
  have same: "fut s' b = fut s b" "born s' b = born s b" "total s' = total s" if "b \<noteq> a" for b
    using assms(1) that by (simp_all add: only_def)
  have t: "total s' = total s" using assms(1) by (simp add: only_def)
  show ?thesis
  proof (cases c)
    case (NCalled F)
    show ?thesis unfolding NCalled ntf_inv.simps
    proof
      fix b assume "b \<in> F"
      thus "fut s' b \<noteq> None" using assms(2,3) same by (cases "b = a") (auto simp: NCalled)
    qed
  next
    case (NAdd F)
    show ?thesis unfolding NAdd ntf_inv.simps
    proof
      fix b assume "b \<in> F"
      thus "fut s' b \<noteq> None" using assms(2,3) same by (cases "b = a") (auto simp: NAdd)
    qed
  next
    case (NLock F)
    show ?thesis unfolding NLock ntf_inv.simps
    proof
      fix b assume "b \<in> F"
      thus "fut s' b \<noteq> None \<and> born s' b < total s'"
        using assms(2,3) same t by (cases "b = a") (auto simp: NLock)
    qed
  next
    case (NReturn F)
    show ?thesis unfolding NReturn ntf_inv.simps
    proof
      fix b assume "b \<in> F"
      thus "fut s' b \<noteq> None \<and> signalled s' b \<and> \<not> asleep s' b"
        using assms(2-4) same only_other [OF assms(1)] by (cases "b = a") (auto simp: NReturn)
    qed
  qed simp
qed

lemma only_notify_inv:
  assumes inv: "notify_inv s" and o: "only a s s'" and "list_inv (nst s')" and "count_inv s'"
    and "fut s' a = None \<longleftrightarrow> fpc s' a \<in> {FNone, FNew}" and "\<And>f. fut s' a = Some f \<Longrightarrow> fut_inv s' a f"
    and "fut s a \<noteq> None \<Longrightarrow> fut s' a \<noteq> None \<and> born s' a = born s a"
    and "fut s a \<noteq> None \<Longrightarrow> signalled s a \<Longrightarrow> \<not> asleep s a \<Longrightarrow> signalled s' a \<and> \<not> asleep s' a"
  shows "notify_inv s'"
proof -
  have "(fut s' b = None \<longleftrightarrow> fpc s' b \<in> {FNone, FNew}) \<and> (\<forall>f. fut s' b = Some f \<longrightarrow> fut_inv s' b f)" for b
  proof (cases "b = a")
    case False
    have same: "fut s' b = fut s b" "fpc s' b = fpc s b" using o False by (simp_all add: only_def)
    show ?thesis
      unfolding same only_other(1) [OF o False] using notify_invD(3,4) [OF inv] by blast
  qed (use assms(5,6) in simp)
  moreover have "ntf_inv s' (npc s' t)" for t
    using only_ntf_inv [OF o notify_invD(5) [OF inv, of t] assms(7,8)] o by (simp add: only_def)
  ultimately show ?thesis
    using assms(3,4) o notify_invD(6) [OF inv] by (simp add: notify_inv_def futs_inv_def only_def)
qed

lemma waiting_futs_iff: "a \<in> waiting_futs s \<longleftrightarrow> fpc s a = FNew \<or> (\<exists>f. fut s a = Some f \<and> active f)"
  by (simp add: waiting_futs_def)

lemma count_same:
  assumes "count_inv s" and "waiting_futs s' = waiting_futs s" and "num_active_waiters (nst s') = num_active_waiters (nst s)"
  shows "count_inv s'"
  using assms by (simp add: count_inv_def)

lemma count_nonzero: "count_inv s \<Longrightarrow> a \<in> waiting_futs s \<Longrightarrow> num_active_waiters (nst s) \<noteq> 0"
  by (auto simp: count_inv_def)

lemma count_remove:
  assumes c: "count_inv s" and a: "a \<in> waiting_futs s" and w: "waiting_futs s' = waiting_futs s - {a}"
    and n: "num_active_waiters (nst s') = num_active_waiters (nst s) - 1"
  shows "count_inv s'"
proof -
  have "unat (num_active_waiters (nst s) - 1) = unat (num_active_waiters (nst s)) - 1"
    using count_nonzero [OF c a] by (simp add: unat_minus_one)
  thus ?thesis using c a w n by (simp add: count_inv_def card_Diff_singleton)
qed

text \<open>As long as the counter of wakeups has not wrapped around, it tells the futures that saw one.\<close>

lemma seen_iff:
  fixes s :: "'w::len word notify_sys"
  assumes inv: "notify_inv s" and f: "fut s a = Some f" and bound: "total s < 2 ^ LENGTH('w)"
  shows "wakeups_seen a (nst s) \<longleftrightarrow> born s a < total s"
proof -
  have i: "num_wakeups_snapshot f = of_nat (born s a)" "born s a \<le> total s"
    using notify_invD(4) [OF inv f] by (simp_all add: fut_inv_def)
  have "(of_nat (total s) :: 'w word) = of_nat (born s a) \<longleftrightarrow> total s = born s a"
    using i(2) bound by (metis le_less_trans mod_less unat_of_nat)
  moreover have "wakeups_seen a (nst s) \<longleftrightarrow> num_wakeups (nst s) \<noteq> num_wakeups_snapshot f"
    using f by (auto simp: wakeups_seen_def fut_Some)
  ultimately show ?thesis using i notify_invD(6) [OF inv] by auto
qed

subsection \<open>Preservation\<close>

lemma notified_inc_inv:
  assumes inv: "notify_inv s" and pc: "fpc s a = FNone" and inc: "inc_num_active_waiters (nst s) = Some st"
  shows "notify_inv (at_f a FNew st s)"
proof -
  have none: "fut s a = None" using notify_invD(3) [OF inv, of a] pc by simp
  have st: "st = (nst s)\<lparr>num_active_waiters := num_active_waiters (nst s) + 1\<rparr>" "num_active_waiters (nst s) \<noteq> - 1"
    using inc by (auto simp: inc_num_active_waiters_def split: if_splits)
  have w: "waiting_futs (at_f a FNew st s) = insert a (waiting_futs s)" "a \<notin> waiting_futs s"
    using none pc by (auto simp: waiting_futs_def st)
  have "unat (num_active_waiters (nst s) + 1) = Suc (unat (num_active_waiters (nst s)))"
    using st(2) unatSuc [of "num_active_waiters (nst s)"] by (simp add: add_eq_0_iff add.commute)
  hence "count_inv (at_f a FNew st s)"
    using notify_invD(2) [OF inv] w by (simp add: count_inv_def st)
  moreover have "list_inv st" using list_inv_same [OF notify_invD(1) [OF inv]] by (simp add: st)
  ultimately show ?thesis
    using none by (intro only_notify_inv [OF inv, of a]) (auto simp: only_def st)
qed

lemma notified_load_inv:
  assumes inv: "notify_inv s" and pc: "fpc s a = FNew"
  shows "notify_inv ((at_f a FIdle (notified_load a (nst s)) s)\<lparr>born := (born s)(a := total s)\<rparr>)" (is "notify_inv ?s")
proof -
  have none: "fut s a = None" using notify_invD(3) [OF inv, of a] pc by simp
  hence out: "\<not> in_list (nst s) a" by (simp add: in_list_cores)
  let ?f = "slot_new (num_wakeups (nst s))"
  have fut: "fut ?s a = Some (core ?f)" by (simp add: notified_load_def)
  have "list_inv (notified_load a (nst s))"
    by (rule list_inv_other [OF notify_invD(1) [OF inv] out, where x = "Some ?f"])
      (auto simp: notified_load_def slot_new_def)
  moreover have "waiting_futs ?s = waiting_futs s"
    using pc by (auto simp: waiting_futs_def notified_load_def active_def slot_new_def)
  hence "count_inv ?s"
    by (intro count_same [OF notify_invD(2) [OF inv]]) (simp_all add: notified_load_def)
  moreover have "fut_inv ?s a (core ?f)"
    using notify_invD(6) [OF inv] by (simp add: fut_inv_def slot_new_def)
  ultimately show ?thesis
    using none fut by (intro only_notify_inv [OF inv, of a]) (auto simp: only_def notified_load_def)
qed

lemma poll_check_inv:
  fixes s :: "'w::len word notify_sys"
  assumes inv: "notify_inv s" and pc: "fpc s a = FIdle \<or> fpc s a = FPending w'"
    and check: "poll_check a (nst s) = (ready, st)" and bound: "total s < 2 ^ LENGTH('w)"
  shows "notify_inv (at_f a (if ready then FReady else FLock w) st s)" (is "notify_inv ?s")
proof -
  obtain f where f: "fut s a = Some f" using notify_invD(3) [OF inv, of a] pc by auto
  have st: "st = (nst s)\<lparr>woken_by := (woken_by (nst s))(a := None)\<rparr>"
    and ready: "ready = wakeups_seen a (nst s)" using check by (auto simp: poll_check_def)
  have fut: "fut ?s b = fut s b" for b by (simp add: st)
  have "list_inv st" using list_inv_same [OF notify_invD(1) [OF inv]] by (simp add: st)
  moreover have "waiting_futs ?s = waiting_futs s" using pc by (auto simp: waiting_futs_def st)
  hence "count_inv ?s" by (intro count_same [OF notify_invD(2) [OF inv]]) (simp_all add: st)
  moreover have "signalled ?s a = signalled s a" by (simp add: signalled_def st)
  moreover have "fut_inv ?s a f"
    using notify_invD(4) [OF inv f] seen_iff [OF inv f bound]
    by (auto simp: fut_inv_def ready signalled_def st)
  ultimately show ?thesis
    using f by (intro only_notify_inv [OF inv, of a]) (auto simp: only_def st asleep_def)
qed

lemma poll_lock_inv:
  assumes inv: "notify_inv s" and pc: "fpc s a = FLock w" and lock: "poll_locked a w (nst s) = Some (ready, st)"
  shows "notify_inv (at_f a (if ready then FReady else FRecheck w) st s)" (is "notify_inv ?s")
proof -
  obtain c where c: "fut s a = Some c" using notify_invD(3) [OF inv, of a] pc by auto
  then obtain f where f: "futs (nst s) a = Some f" "c = core f" by (auto simp: fut_Some)
  note i = notify_invD(4) [OF inv c]
  have reg: "is_in_list f \<Longrightarrow> was_registered_into_list f" using i by (simp add: fut_inv_def f(2))
  show ?thesis
  proof (rule poll_locked_effect [OF notify_invD(1) [OF inv] f(1) reg, of w])
    assume t: "was_registered_into_list f" "\<not> is_in_list f" "poll_locked a w (nst s) = Some (True, nst s)"
    hence st: "st = nst s" "ready" using lock by auto
    have "waiting_futs ?s = waiting_futs s" using pc st by (auto simp: waiting_futs_def)
    hence "count_inv ?s" by (intro count_same [OF notify_invD(2) [OF inv]]) (simp_all add: st)
    moreover have "signalled ?s a" using t c f(2) by (simp add: signalled_def st)
    moreover have "fut_inv ?s a c" using i t(2) calculation(2) f(2) st(2) by (simp add: fut_inv_def)
    ultimately show ?thesis
      using c st notify_invD(1) [OF inv] pc
      by (intro only_notify_inv [OF inv, of a]) (auto simp: only_def asleep_def)
  next
    fix st'
    assume t: "was_registered_into_list f \<longrightarrow> is_in_list f" "poll_locked a w (nst s) = Some (False, st')"
      "list_inv st'" "cores (futs st') = (cores (futs (nst s)))(a \<mapsto> repoll w (core f))"
      "num_active_waiters st' = num_active_waiters (nst s)" "num_wakeups st' = num_wakeups (nst s)"
      "woken_by st' = woken_by (nst s)"
    hence st: "st = st'" "\<not> ready" using lock by auto
    let ?c = "repoll w c"
    have fut: "fut ?s = (fut s)(a \<mapsto> ?c)" using t(4) f(2) st by (simp add: fun_upd_def)
    have act: "active c" "active ?c" using t(1) f(2) by (auto simp: active_def repoll_def)
    have "b \<in> waiting_futs ?s \<longleftrightarrow> b \<in> waiting_futs s" for b
      unfolding waiting_futs_iff fut using pc c act st(2) by (cases "b = a") simp_all
    hence "waiting_futs ?s = waiting_futs s" by blast
    hence "count_inv ?s" by (intro count_same [OF notify_invD(2) [OF inv]]) (simp_all add: st t(5))
    moreover have "fut_inv ?s a ?c"
      using i st(2) by (simp add: fut_inv_def repoll_def)
    moreover have "signalled s a \<Longrightarrow> signalled ?s a"
      using t(1) c f(2) by (auto simp: signalled_def)
    ultimately show ?thesis
      using fut t st(1,2) f(2) by (intro only_notify_inv [OF inv, of a]) (auto simp: only_def asleep_def)
  qed
qed

lemma poll_recheck_inv:
  fixes s :: "'w::len word notify_sys"
  assumes inv: "notify_inv s" and pc: "fpc s a = FRecheck w" and bound: "total s < 2 ^ LENGTH('w)"
  shows "notify_inv (at_f a (if wakeups_seen a (nst s) then FReady else FPending w) (nst s) s)" (is "notify_inv ?s")
proof -
  obtain f where f: "fut s a = Some f" using notify_invD(3) [OF inv, of a] pc by auto
  note i = notify_invD(4) [OF inv f] and seen = seen_iff [OF inv f bound]
  have "waiting_futs ?s = waiting_futs s" using pc by (auto simp: waiting_futs_def)
  hence "count_inv ?s" by (intro count_same [OF notify_invD(2) [OF inv]]) simp_all
  moreover have sig: "signalled ?s a = signalled s a" by (simp add: signalled_def)
  moreover have "fut_inv ?s a f"
    using i pc seen by (auto simp: fut_inv_def signalled_def)
  moreover have "\<not> asleep ?s a" if "signalled s a"
    using that i pc seen f by (auto simp: asleep_def signalled_def fut_inv_def split: if_splits)
  ultimately show ?thesis
    using f notify_invD(1) [OF inv] by (intro only_notify_inv [OF inv, of a]) (auto simp: only_def)
qed

text \<open>Only whether some call is about to take the list matters to the futures.\<close>

definition locking :: "'w::len word notify_sys \<Rightarrow> bool" where
  "locking s \<longleftrightarrow> (\<exists>t F. npc s t = NLock F)"

lemma fut_inv_locking:
  "fut_inv s a f \<longleftrightarrow>
     (is_in_list f \<longrightarrow> was_registered_into_list f) \<and> num_wakeups_snapshot f = of_nat (born s a) \<and>
     born s a \<le> total s \<and>
     (\<forall>w. fpc s a = FRecheck w \<or> fpc s a = FPending w \<longrightarrow> was_registered_into_list f \<and>
       (if is_in_list f then waker f = Some w else woken_by (nst s) a = Some w)) \<and>
     (\<forall>w. fpc s a = FPending w \<and> is_in_list f \<longrightarrow> total s = born s a \<or> locking s) \<and>
     (is_in_list f \<longrightarrow> waker f \<noteq> None) \<and>
     (fpc s a = FReady \<longrightarrow> signalled s a)"
  by (simp add: fut_inv_def locking_def)

lemma notified_drop_inv:
  assumes inv: "notify_inv s" and pc: "fpc s a \<in> {FIdle, FReady} \<or> fpc s a = FPending w"
    and drop: "drop_notified a (nst s) = Some st"
  shows "notify_inv ((at_f a FNone st s)\<lparr>npc := (\<lambda>t. forget a (npc s t))\<rparr>)" (is "notify_inv ?s")
proof -
  obtain c where c: "fut s a = Some c" using notify_invD(3) [OF inv, of a] pc by auto
  then obtain f where f: "futs (nst s) a = Some f" "c = core f" by (auto simp: fut_Some)
  have reg: "is_in_list f \<Longrightarrow> was_registered_into_list f" using notify_invD(4) [OF inv c] by (simp add: fut_inv_def f(2))
  have waits: "active f \<Longrightarrow> a \<in> waiting_futs s" using c f(2) by (simp add: waiting_futs_iff)
  have nz: "active f \<Longrightarrow> num_active_waiters (nst s) \<noteq> 0"
    using count_nonzero [OF notify_invD(2) [OF inv]] waits by blast
  obtain st': "list_inv st" "cores (futs st) = (fut s)(a := None)"
      "num_active_waiters st = num_active_waiters (nst s) - (if active f then 1 else 0)"
      "num_wakeups st = num_wakeups (nst s)" "woken_by st = woken_by (nst s)"
    by (rule drop_notified_effect [OF notify_invD(1) [OF inv] f(1) reg nz]) (use drop in auto)
  have fut: "fut ?s b = (if b = a then None else fut s b)" for b by (simp add: st'(2))
  have "b \<in> waiting_futs ?s \<longleftrightarrow> b \<in> waiting_futs s - {a}" for b
    unfolding waiting_futs_iff Diff_iff by (cases "b = a") (simp_all add: st'(2))
  hence w: "waiting_futs ?s = waiting_futs s - {a}" by blast
  have "count_inv ?s"
  proof (cases "active f")
    case True
    thus ?thesis by (intro count_remove [OF notify_invD(2) [OF inv] waits w]) (simp_all add: st'(3))
  next
    case False
    hence "a \<notin> waiting_futs s" using c f(2) pc by (auto simp: waiting_futs_iff)
    thus ?thesis using w False by (intro count_same [OF notify_invD(2) [OF inv]]) (simp_all add: st'(3))
  qed
  moreover have lock: "locking ?s = locking s"
  proof -
    have "(\<exists>F. forget a c = NLock F) \<longleftrightarrow> (\<exists>F. c = NLock F)" for c by (cases c) auto
    thus ?thesis by (simp add: locking_def)
  qed
  have same: "signalled ?s b = signalled s b" "asleep ?s b = asleep s b" if "b \<noteq> a" for b
    using that by (simp_all add: signalled_def asleep_def st')
  have "(fut ?s b = None \<longleftrightarrow> fpc ?s b \<in> {FNone, FNew}) \<and> (\<forall>f. fut ?s b = Some f \<longrightarrow> fut_inv ?s b f)" for b
  proof (cases "b = a")
    case False
    have "fut_inv ?s b g = fut_inv s b g" for g
      unfolding fut_inv_locking lock same(1) [OF False] using False by (simp add: st'(5))
    thus ?thesis unfolding fut using notify_invD(3,4) [OF inv, of b] False by simp
  qed (simp add: st'(2))
  moreover have "ntf_inv ?s (forget a k)" if "ntf_inv s k" for k
    using that same fut by (cases k) auto
  ultimately show ?thesis
    using st'(1,4) notify_invD(5,6) [OF inv] by (simp add: notify_inv_def futs_inv_def)
qed

text \<open>A step of a call that changes nothing else.\<close>

lemma call_inv:
  assumes inv: "notify_inv s" and "\<And>F. npc s t \<noteq> NLock F" and "\<And>F. c \<noteq> NLock F"
    and "ntf_inv s c"
  shows "notify_inv (at_n t c (nst s) s)"
proof -
  let ?s = "s\<lparr>npc := (npc s)(t := c)\<rparr>"
  have "(\<exists>F. npc ?s u = NLock F) \<longleftrightarrow> (\<exists>F. npc s u = NLock F)" for u
    using assms(2,3) by (cases "u = t") auto
  hence lock: "locking ?s = locking s" by (simp add: locking_def)
  have fut: "fut_inv ?s b f = fut_inv s b f" for b f
    unfolding fut_inv_locking lock by (simp add: signalled_def)
  have "ntf_inv ?s k = ntf_inv s k" for k by (cases k) (simp_all add: signalled_def asleep_def)
  moreover have "waiting_futs ?s = waiting_futs s" by (simp add: waiting_futs_def)
  ultimately show ?thesis
    using assms(4) inv by (simp add: notify_inv_def futs_inv_def count_inv_def fut)
qed

lemma no_waiters:
  assumes inv: "notify_inv s" and zero: "num_active_waiters (nst s) = 0" and f: "fut s a = Some f"
  shows "signalled s a" and "\<not> asleep s a"
proof -
  have "waiting_futs s = {}" using notify_invD(2) [OF inv] zero by (auto simp: count_inv_def)
  hence "\<not> active f" using f by (auto simp: waiting_futs_def)
  thus "signalled s a" "\<not> asleep s a"
    using f notify_invD(4) [OF inv f] by (auto simp: active_def signalled_def asleep_def fut_inv_def)
qed

lemma notify_check_inv:
  assumes inv: "notify_inv s" and pc: "npc s t = NCalled F"
  shows "notify_inv (at_n t (if num_active_waiters (nst s) = 0 then NReturn F else NAdd F) (nst s) s)"
  by (rule call_inv [OF inv]) (use pc notify_invD(5) [OF inv, of t] no_waiters [OF inv] in \<open>auto\<close>)

lemma notify_add_inv:
  assumes inv: "notify_inv s" and pc: "npc s t = NAdd F"
  shows "notify_inv ((at_n t (NLock F) (notify_add (nst s)) s)\<lparr>total := Suc (total s)\<rparr>)" (is "notify_inv ?s")
proof -
  have lock: "locking ?s" by (auto simp: locking_def)
  have sig: "signalled s a \<Longrightarrow> signalled ?s a" for a by (auto simp: signalled_def notify_add_def)
  have fut: "fut ?s = fut s" by (simp add: notify_add_def)
  have "fut_inv ?s b f" if "fut_inv s b f" for b f
    using that sig [of b] lock unfolding fut_inv_locking by (simp add: notify_add_def)
  moreover have "ntf_inv ?s k" if "ntf_inv s k" for k
    using that sig fut by (cases k) (auto simp: asleep_def notify_add_def)
  moreover have "ntf_inv ?s (NLock F)"
    using notify_invD(5) [OF inv, of t] notify_invD(4) [OF inv] fut pc
    by (fastforce simp: fut_inv_def less_Suc_eq_le)
  moreover have "waiting_futs ?s = waiting_futs s" by (simp add: waiting_futs_def notify_add_def)
  moreover have "list_inv (notify_add (nst s))"
    by (rule list_inv_same [OF notify_invD(1) [OF inv]]) (simp_all add: notify_add_def)
  moreover from calculation(2,3) have "\<forall>u. ntf_inv ?s (npc ?s u)"
    using notify_invD(5) [OF inv] by simp
  ultimately show ?thesis
    unfolding notify_inv_def futs_inv_def count_inv_def fut
    using notify_invD(2,3,4,6) [OF inv] by (simp add: count_inv_def notify_add_def add.commute)
qed

lemma in_list_waiting:
  assumes "notify_inv s"
  shows "{a. in_list (nst s) a} \<subseteq> waiting_futs s"
  by (auto simp: waiting_futs_def in_list_cores active_def)

lemma in_list_count:
  assumes "notify_inv s"
  shows "card {a. in_list (nst s) a} \<le> unat (num_active_waiters (nst s))"
  using in_list_waiting [OF assms] notify_invD(2) [OF assms] by (simp add: count_inv_def card_mono)

lemma unat_minus_of_nat:
  fixes x :: "'w::len word"
  assumes "k \<le> unat x"
  shows "unat (x - of_nat k) = unat x - k"
proof -
  have "x - of_nat k = of_nat (unat x - k)" using assms by (simp add: of_nat_diff)
  moreover have "unat x - k < 2 ^ LENGTH('w)" by (meson diff_le_self le_less_trans unsigned_less)
  ultimately show ?thesis by (simp add: unat_of_nat)
qed

lemma notify_lock_inv:
  assumes inv: "notify_inv s" and pc: "npc s t = NLock F" and loop: "notify_loop (nst s) = Some st"
  shows "notify_inv (at_n t (NReturn F) st s)" (is "notify_inv ?s")
proof -
  let ?L = "{a. in_list (nst s) a}"
  obtain st': "list_inv st" "cores (futs st) = (\<lambda>a. map_option take_off (fut s a))"
      "num_active_waiters st = num_active_waiters (nst s) - of_nat (card ?L)"
      "num_wakeups st = num_wakeups (nst s)"
      "woken_by st = (\<lambda>a. if in_list (nst s) a \<and> waker_of (nst s) a \<noteq> None then waker_of (nst s) a
         else woken_by (nst s) a)" "finite ?L"
    by (rule notify_loop_effect [OF notify_invD(1) [OF inv] in_list_count [OF inv]]) (use loop in auto)
  have fut: "fut ?s a = map_option take_off (fut s a)" for a by (simp add: st'(2))
  have sig: "signalled ?s a" if "signalled s a" for a
    using that by (auto simp: signalled_def st'(2) take_off_def)
  have inlist: "in_list (nst s) a \<longleftrightarrow> is_in_list f" and waker: "waker_of (nst s) a = waker f" if "fut s a = Some f" for a f
    using that by (auto simp: in_list_def waker_of_def fut_Some)
  have futs: "fut_inv ?s a (take_off f)" if f: "fut s a = Some f" for a f
    using notify_invD(4) [OF inv f] sig [of a] inlist [OF f] waker [OF f]
    by (auto simp: fut_inv_def take_off_def st'(5))
  have awake: "\<not> asleep ?s a" if "fut ?s a \<noteq> None" for a
  proof -
    obtain f where f: "fut s a = Some f" using \<open>fut ?s a \<noteq> None\<close> by (auto simp: st'(2))
    show ?thesis using futs [OF f] by (auto simp: asleep_def fut_inv_def take_off_def split: if_splits)
  qed
  have ntf: "ntf_inv ?s k" if "ntf_inv s k" for k
    using that sig awake by (cases k) (auto simp: st'(2))
  have ret: "ntf_inv ?s (NReturn F)"
    using notify_invD(5) [OF inv, of t] awake by (auto simp: pc st'(2) signalled_def)
  have "a \<in> waiting_futs ?s \<longleftrightarrow> a \<in> waiting_futs s - ?L" for a
  proof (cases "fut s a")
    case None
    thus ?thesis by (auto simp: waiting_futs_iff st'(2) in_list_cores)
  next
    case (Some f)
    have "active (take_off f) \<longleftrightarrow> active f \<and> \<not> is_in_list f"
      using notify_invD(4) [OF inv Some] by (auto simp: active_def take_off_def fut_inv_def)
    thus ?thesis
      using Some notify_invD(3) [OF inv, of a] inlist [OF Some] by (auto simp: waiting_futs_iff st'(2))
  qed
  hence w: "waiting_futs ?s = waiting_futs s - ?L" by blast
  have "unat (num_active_waiters st) = unat (num_active_waiters (nst s)) - card ?L"
    using unat_minus_of_nat [OF in_list_count [OF inv]] by (simp add: st'(3))
  hence "count_inv ?s"
    using notify_invD(2) [OF inv] in_list_waiting [OF inv]
    by (simp add: count_inv_def w card_Diff_subset [OF st'(6)])
  moreover have "futs_inv ?s"
    using notify_invD(3) [OF inv] futs by (auto simp: futs_inv_def st'(2))
  ultimately show ?thesis
    using st'(1,4) ntf ret notify_invD(5,6) [OF inv] by (simp add: notify_inv_def)
qed

lemma notify_inv_init: "notify_inv notify_init"
  by (simp add: notify_inv_def notify_init_def list_inv_new count_inv_def futs_inv_def waiting_futs_def)
    (simp add: new_notify_def cores_def)

theorem notify_step_inv:
  fixes s :: "'w::len word notify_sys"
  assumes inv: "notify_inv s" and step: "notify_step s s'" and bound: "total s < 2 ^ LENGTH('w)"
  shows "notify_inv s'"
  using step
proof cases
  case (notify_call t)
  show ?thesis
    unfolding notify_call(1) by (rule call_inv [OF inv]) (use notify_call(2) in \<open>auto simp: fut_None\<close>)
next
  case (notify_return t F)
  show ?thesis
    unfolding notify_return(1) by (rule call_inv [OF inv]) (use notify_return(2) in auto)
next
  case (notified_inc a st)
  thus ?thesis using notified_inc_inv [OF inv] by simp
next
  case (notified_load a)
  thus ?thesis using notified_load_inv [OF inv] by simp
next
  case (poll_check a w' ready st w)
  show ?thesis unfolding poll_check(1) by (rule poll_check_inv [OF inv poll_check(2,3) bound])
next
  case (poll_lock a w ready st)
  show ?thesis unfolding poll_lock(1) by (rule poll_lock_inv [OF inv poll_lock(2,3)])
next
  case (poll_recheck a w)
  show ?thesis unfolding poll_recheck(1) by (rule poll_recheck_inv [OF inv poll_recheck(2) bound])
next
  case (notified_drop a w st)
  show ?thesis unfolding notified_drop(1) by (rule notified_drop_inv [OF inv notified_drop(2,3)])
next
  case (notify_check t F)
  show ?thesis unfolding notify_check(1) by (rule notify_check_inv [OF inv notify_check(2)])
next
  case (notify_add t F)
  show ?thesis unfolding notify_add(1) by (rule notify_add_inv [OF inv notify_add(2)])
next
  case (notify_lock t F st)
  show ?thesis unfolding notify_lock(1) by (rule notify_lock_inv [OF inv notify_lock(2,3)])
qed

lemma notify_step_total: "notify_step s s' \<Longrightarrow> total s \<le> total s'"
  by (induction rule: notify_step.induct) auto

theorem notify_reachable_inv:
  fixes s :: "'w::len word notify_sys"
  assumes "notify_reachable s" and "total s < 2 ^ LENGTH('w)"
  shows "notify_inv s"
  using assms
proof induction
  case (nreach_step s s')
  thus ?case using notify_step_inv notify_step_total by (metis le_less_trans)
qed (simp add: notify_inv_init)

end
