(* ===== verification/Notify_Spec.thy ===== *)
theory Notify_Spec
  imports Notify_Machine
begin

text \<open>
  What \<open>src/src/rcu_core/notify.rs\<close> promises, as an abstract machine over sets of futures, and the refinement
  of it by the machine of \<open>Notify_Machine\<close>.
\<close>

subsection \<open>Specification\<close>

text \<open>
  The futures that are registered, those that have been notified, those whose last poll said \<open>Ready\<close>, those that
  said \<open>Pending\<close> and have not been woken since, and the calls of \<open>notify\<close> in progress, each with the futures
  that were registered when it began.
\<close>

record notify_spec =
  listening :: "nat set"
  notified_set :: "nat set"
  ready_set :: "nat set"
  sleeping :: "nat set"
  calls :: "nat \<Rightarrow> nat set option"

definition notify_spec_init :: notify_spec where
  "notify_spec_init = \<lparr>listening = {}, notified_set = {}, ready_set = {}, sleeping = {}, calls = (\<lambda>_. None)\<rparr>"

inductive notify_spec_step :: "notify_spec \<Rightarrow> notify_spec \<Rightarrow> bool" where
  spec_listen: "a \<notin> listening A \<Longrightarrow> notify_spec_step A (A\<lparr>listening := insert a (listening A)\<rparr>)"
| spec_call: "calls A t = None \<Longrightarrow> notify_spec_step A (A\<lparr>calls := (calls A)(t \<mapsto> listening A)\<rparr>)"
| spec_notify: "calls A t \<noteq> None \<Longrightarrow> N \<subseteq> listening A \<Longrightarrow>
    notify_spec_step A (A\<lparr>notified_set := notified_set A \<union> N, sleeping := sleeping A - W\<rparr>)"
| spec_return: "calls A t = Some F \<Longrightarrow> F \<subseteq> notified_set A \<Longrightarrow> F \<inter> sleeping A = {} \<Longrightarrow>
    notify_spec_step A (A\<lparr>calls := (calls A)(t := None)\<rparr>)"
| spec_ready: "a \<in> notified_set A \<Longrightarrow>
    notify_spec_step A (A\<lparr>ready_set := insert a (ready_set A), sleeping := sleeping A - {a}\<rparr>)"
| spec_resume: "notify_spec_step A (A\<lparr>sleeping := sleeping A - {a}\<rparr>)"
| spec_pending: "a \<in> listening A \<Longrightarrow> a \<notin> notified_set A \<Longrightarrow>
    notify_spec_step A (A\<lparr>sleeping := insert a (sleeping A)\<rparr>)"
| spec_drop: "notify_spec_step A (A\<lparr>listening := listening A - {a}, notified_set := notified_set A - {a},
      ready_set := ready_set A - {a}, sleeping := sleeping A - {a},
      calls := (\<lambda>t. map_option (\<lambda>F. F - {a}) (calls A t))\<rparr>)"
| spec_stutter: "notify_spec_step A A"

inductive notify_spec_reachable :: "notify_spec \<Rightarrow> bool" where
  "notify_spec_reachable notify_spec_init"
| "notify_spec_reachable A \<Longrightarrow> notify_spec_step A B \<Longrightarrow> notify_spec_reachable B"

text \<open>Sets stay sets of registered futures, and \<open>Ready\<close> is said to notified futures only.\<close>

definition notify_spec_ok :: "notify_spec \<Rightarrow> bool" where
  "notify_spec_ok A \<longleftrightarrow> notified_set A \<subseteq> listening A \<and> ready_set A \<subseteq> notified_set A \<and> sleeping A \<subseteq> listening A \<and>
     (\<forall>t F. calls A t = Some F \<longrightarrow> F \<subseteq> listening A)"

lemma notify_spec_step_ok:
  assumes "notify_spec_step A B" and "notify_spec_ok A"
  shows "notify_spec_ok B"
  using assms by (induction rule: notify_spec_step.induct) (fastforce simp: notify_spec_ok_def split: if_splits)+

lemma notify_spec_reachable_ok: "notify_spec_reachable A \<Longrightarrow> notify_spec_ok A"
proof (induction rule: notify_spec_reachable.induct)
  case 1
  show ?case by (simp add: notify_spec_ok_def notify_spec_init_def)
next
  case (2 A B)
  thus ?case by (blast intro: notify_spec_step_ok)
qed

text \<open>The contract its users rely on: the concrete machine takes steps of the specification.\<close>

locale notification =
  fixes creach :: "'s \<Rightarrow> bool" and cinit :: "'s \<Rightarrow> bool" and cstep :: "'s \<Rightarrow> 's \<Rightarrow> bool"
    and abs :: "'s \<Rightarrow> notify_spec"
  assumes creach_induct: "creach s \<Longrightarrow> (\<And>u. cinit u \<Longrightarrow> P u) \<Longrightarrow>
      (\<And>u v. creach u \<Longrightarrow> creach v \<Longrightarrow> P u \<Longrightarrow> cstep u v \<Longrightarrow> P v) \<Longrightarrow> P s"
    and abs_init: "cinit s \<Longrightarrow> abs s = notify_spec_init"
    and abs_step: "creach s \<Longrightarrow> creach s' \<Longrightarrow> cstep s s' \<Longrightarrow> notify_spec_step (abs s) (abs s')"
begin

lemma abs_reachable: "creach s \<Longrightarrow> notify_spec_reachable (abs s)"
  by (erule creach_induct) (auto simp: abs_init intro: notify_spec_reachable.intros abs_step)

end

subsection \<open>Abstraction\<close>

fun call_of :: "ntf_pc \<Rightarrow> nat set option" where
  "call_of NIdle = None"
| "call_of (NCalled F) = Some F"
| "call_of (NAdd F) = Some F"
| "call_of (NLock F) = Some F"
| "call_of (NReturn F) = Some F"

lemma call_of_forget: "call_of (forget a c) = map_option (\<lambda>F. F - {a}) (call_of c)"
  by (cases c) auto

definition abs_notify :: "'w::len word notify_sys \<Rightarrow> notify_spec" where
  "abs_notify s = \<lparr>listening = {a. fut s a \<noteq> None}, notified_set = {a. fut s a \<noteq> None \<and> signalled s a},
     ready_set = {a. fpc s a = FReady}, sleeping = {a. asleep s a}, calls = (\<lambda>t. call_of (npc s t))\<rparr>"

lemma abs_notify_sel [simp]:
  "listening (abs_notify s) = {a. fut s a \<noteq> None}"
  "notified_set (abs_notify s) = {a. fut s a \<noteq> None \<and> signalled s a}"
  "ready_set (abs_notify s) = {a. fpc s a = FReady}" "sleeping (abs_notify s) = {a. asleep s a}"
  "calls (abs_notify s) = (\<lambda>t. call_of (npc s t))"
  by (simp_all add: abs_notify_def)

text \<open>A step of the poll of one future.\<close>

lemma poll_abs:
  assumes o: "only a s s'" and c: "fut s a \<noteq> None \<and> fut s' a \<noteq> None" "born s' a = born s a"
    and sig: "signalled s' a = signalled s a"
    and pc: "fpc s a \<noteq> FReady" and ready: "fpc s' a = FReady \<Longrightarrow> signalled s a \<and> \<not> asleep s' a"
    and sleep: "asleep s' a \<Longrightarrow> \<not> signalled s a"
  shows "notify_spec_step (abs_notify s) (abs_notify s')"
proof -
  have other1: "(\<exists>f. fut s' b = Some f) \<longleftrightarrow> (\<exists>f. fut s b = Some f)" for b
    using o c by (cases "b = a") (simp_all add: only_def)
  have other2: "signalled s' b = signalled s b" for b
    using only_other(2) [OF o] sig by (cases "b = a") simp_all
  have eq: "abs_notify s' = (abs_notify s)\<lparr>ready_set := {b. fpc s' b = FReady}, sleeping := {b. asleep s' b}\<rparr>"
  proof (rule notify_spec.equality)
    show "listening (abs_notify s') = listening ((abs_notify s)\<lparr>ready_set := {b. fpc s' b = FReady}, sleeping := {b. asleep s' b}\<rparr>)"
      using other1 by simp
    show "notified_set (abs_notify s') = notified_set ((abs_notify s)\<lparr>ready_set := {b. fpc s' b = FReady}, sleeping := {b. asleep s' b}\<rparr>)"
      using other1 other2 by simp
    show "calls (abs_notify s') = calls ((abs_notify s)\<lparr>ready_set := {b. fpc s' b = FReady}, sleeping := {b. asleep s' b}\<rparr>)"
      using o by (simp add: only_def)
  qed simp_all
  have sl: "{b. asleep s' b} = (if asleep s' a then insert a {b. asleep s b} else {b. asleep s b} - {a})"
  proof (intro set_eqI)
    fix b
    show "b \<in> {b. asleep s' b} \<longleftrightarrow> b \<in> (if asleep s' a then insert a {b. asleep s b} else {b. asleep s b} - {a})"
      using only_other(3) [OF o, of b] by (cases "b = a") simp_all
  qed
  have rd: "{b. fpc s' b = FReady} = (if fpc s' a = FReady then insert a {b. fpc s b = FReady} else {b. fpc s b = FReady})"
    using o pc by (auto simp: only_def)
  show ?thesis
  proof (cases "fpc s' a = FReady")
    case True
    thus ?thesis
      using spec_ready [of a "abs_notify s"] ready c unfolding eq sl rd by simp
  next
    case False
    have eq2: "abs_notify s' = (abs_notify s)\<lparr>sleeping := {b. asleep s' b}\<rparr>"
      unfolding eq using rd False by (intro notify_spec.equality) simp_all
    show ?thesis
    proof (cases "asleep s' a")
      case True
      thus ?thesis using spec_pending [of a "abs_notify s"] sleep c unfolding eq2 sl by simp
    next
      case awake: False
      thus ?thesis using spec_resume [of "abs_notify s" a] unfolding eq2 sl by simp
    qed
  qed
qed

subsection \<open>Refinement\<close>

lemma notified_load_abs:
  assumes inv: "notify_inv s" and pc: "fpc s a = FNew"
  shows "notify_spec_step (abs_notify s)
    (abs_notify ((at_f a FIdle (notified_load a (nst s)) s)\<lparr>born := (born s)(a := total s)\<rparr>))" (is "_ (abs_notify ?s)")
proof -
  have none: "fut s a = None" using notify_invD(3) [OF inv, of a] pc by simp
  have sig: "\<not> signalled ?s a" by (simp add: signalled_def notified_load_def slot_new_def)
  have o: "only a s ?s" by (simp add: only_def notified_load_def)
  have "abs_notify ?s = (abs_notify s)\<lparr>listening := insert a (listening (abs_notify s))\<rparr>"
  proof (rule notify_spec.equality)
    have "fut ?s b \<noteq> None \<longleftrightarrow> b = a \<or> fut s b \<noteq> None" for b by (simp add: notified_load_def)
    thus "listening (abs_notify ?s) = listening ((abs_notify s)\<lparr>listening := insert a (listening (abs_notify s))\<rparr>)"
      by auto
    have "fut ?s b \<noteq> None \<and> signalled ?s b \<longleftrightarrow> fut s b \<noteq> None \<and> signalled s b" for b
      using only_other(2) [OF o] sig none by (cases "b = a") (simp_all add: notified_load_def)
    thus "notified_set (abs_notify ?s) = notified_set ((abs_notify s)\<lparr>listening := insert a (listening (abs_notify s))\<rparr>)"
      by auto
    show "ready_set (abs_notify ?s) = ready_set ((abs_notify s)\<lparr>listening := insert a (listening (abs_notify s))\<rparr>)"
      using pc by auto
    have "asleep ?s b \<longleftrightarrow> asleep s b" for b
      using only_other(3) [OF o] pc by (cases "b = a") (simp_all add: asleep_def)
    thus "sleeping (abs_notify ?s) = sleeping ((abs_notify s)\<lparr>listening := insert a (listening (abs_notify s))\<rparr>)"
      by auto
  qed simp_all
  thus ?thesis using spec_listen [of a "abs_notify s"] none by simp
qed

lemma notified_drop_abs:
  assumes inv: "notify_inv s" and pc: "fpc s a \<in> {FIdle, FReady} \<or> fpc s a = FPending w"
    and drop: "drop_notified a (nst s) = Some st"
  shows "notify_spec_step (abs_notify s)
    (abs_notify ((at_f a FNone st s)\<lparr>npc := (\<lambda>t. forget a (npc s t))\<rparr>))" (is "_ (abs_notify ?s)")
proof -
  obtain c where c: "fut s a = Some c" using notify_invD(3) [OF inv, of a] pc by auto
  then obtain f where f: "futs (nst s) a = Some f" "c = core f" by (auto simp: fut_Some)
  have reg: "is_in_list f \<Longrightarrow> was_registered_into_list f" using notify_invD(4) [OF inv c] by (simp add: fut_inv_def f(2))
  have nz: "active f \<Longrightarrow> num_active_waiters (nst s) \<noteq> 0"
    using count_nonzero [OF notify_invD(2) [OF inv], of a] c f(2) by (simp add: waiting_futs_iff)
  obtain st': "cores (futs st) = (fut s)(a := None)" "woken_by st = woken_by (nst s)"
    by (rule drop_notified_effect [OF notify_invD(1) [OF inv] f(1) reg nz]) (use drop in auto)
  have "abs_notify ?s = (abs_notify s)\<lparr>listening := listening (abs_notify s) - {a},
      notified_set := notified_set (abs_notify s) - {a}, ready_set := ready_set (abs_notify s) - {a},
      sleeping := sleeping (abs_notify s) - {a},
      calls := (\<lambda>t. map_option (\<lambda>F. F - {a}) (calls (abs_notify s) t))\<rparr>"
    by (rule notify_spec.equality) (auto simp: st' signalled_def asleep_def call_of_forget)
  thus ?thesis using spec_drop [of "abs_notify s" a] by simp
qed

lemma call_abs:
  "abs_notify (s\<lparr>npc := (npc s)(t := c)\<rparr>) = (abs_notify s)\<lparr>calls := (calls (abs_notify s))(t := call_of c)\<rparr>"
  by (rule notify_spec.equality) (auto simp: signalled_def asleep_def)

lemma notify_add_abs:
  assumes inv: "notify_inv s" and pc: "npc s t = NAdd F"
  shows "notify_spec_step (abs_notify s)
    (abs_notify ((at_n t (NLock F) (notify_add (nst s)) s)\<lparr>total := Suc (total s)\<rparr>))" (is "_ (abs_notify ?s)")
proof -
  have "signalled ?s a" if "fut s a = Some f" for a f
    using notify_invD(4) [OF inv that] by (simp add: signalled_def fut_inv_def less_Suc_eq_le)
  hence "abs_notify ?s = (abs_notify s)\<lparr>notified_set := notified_set (abs_notify s) \<union> listening (abs_notify s),
      sleeping := sleeping (abs_notify s) - {}\<rparr>"
    using pc by (intro notify_spec.equality) (auto simp: notify_add_def asleep_def)
  thus ?thesis
    using spec_notify [of "abs_notify s" t "listening (abs_notify s)" "{}"] pc by simp
qed

lemma notify_lock_abs:
  assumes inv: "notify_inv s" and pc: "npc s t = NLock F" and loop: "notify_loop (nst s) = Some st"
  shows "notify_spec_step (abs_notify s) (abs_notify (at_n t (NReturn F) st s))" (is "_ (abs_notify ?s)")
proof -
  obtain st': "cores (futs st) = (\<lambda>a. map_option take_off (fut s a))"
      "woken_by st = (\<lambda>a. if in_list (nst s) a \<and> waker_of (nst s) a \<noteq> None then waker_of (nst s) a
         else woken_by (nst s) a)"
    by (rule notify_loop_effect [OF notify_invD(1) [OF inv] in_list_count [OF inv]]) (use loop in auto)
  let ?W = "{a. in_list (nst s) a}"
  have in_l: "in_list (nst s) a \<longleftrightarrow> is_in_list f" "waker_of (nst s) a = waker f" if "fut s a = Some f" for a f
    using that by (auto simp: in_list_def waker_of_def fut_Some)
  have sig: "(\<exists>f. fut s a = Some f) \<and> signalled ?s a \<longleftrightarrow> (\<exists>f. fut s a = Some f) \<and> (signalled s a \<or> a \<in> ?W)" for a
  proof (cases "fut s a")
    case (Some f)
    thus ?thesis
      using notify_invD(4) [OF inv Some] in_l [OF Some] by (auto simp: signalled_def st'(1) take_off_def fut_inv_def)
  qed simp
  have awake: "asleep ?s a \<longleftrightarrow> asleep s a \<and> a \<notin> ?W" for a
  proof (cases "fut s a")
    case None
    hence "fpc s a \<in> {FNone, FNew}" using notify_invD(3) [OF inv] by simp
    thus ?thesis by (auto simp: asleep_def)
  next
    case (Some f)
    thus ?thesis
      using notify_invD(4) [OF inv Some] in_l [OF Some] by (auto simp: asleep_def st'(2) fut_inv_def)
  qed
  have "abs_notify ?s = (abs_notify s)\<lparr>notified_set := notified_set (abs_notify s) \<union> (?W \<inter> listening (abs_notify s)),
      sleeping := sleeping (abs_notify s) - ?W\<rparr>"
  proof (rule notify_spec.equality)
    show "notified_set (abs_notify ?s) = notified_set ((abs_notify s)\<lparr>notified_set := notified_set (abs_notify s) \<union>
        (?W \<inter> listening (abs_notify s)), sleeping := sleeping (abs_notify s) - ?W\<rparr>)"
      using sig by (auto simp: st'(1))
    show "sleeping (abs_notify ?s) = sleeping ((abs_notify s)\<lparr>notified_set := notified_set (abs_notify s) \<union>
        (?W \<inter> listening (abs_notify s)), sleeping := sleeping (abs_notify s) - ?W\<rparr>)"
      using awake by auto
  qed (auto simp: st'(1) pc)
  thus ?thesis
    using spec_notify [of "abs_notify s" t "?W \<inter> listening (abs_notify s)" ?W] pc by simp
qed

theorem notify_abs_step:
  fixes s :: "'w::len word notify_sys"
  assumes inv: "notify_inv s" and step: "notify_step s s'" and bound: "total s < 2 ^ LENGTH('w)"
  shows "notify_spec_step (abs_notify s) (abs_notify s')"
  using step
proof cases
  case (notified_inc a st)
  have "fut s a = None" using notify_invD(3) [OF inv, of a] notified_inc(2) by simp
  moreover have "st = (nst s)\<lparr>num_active_waiters := num_active_waiters (nst s) + 1\<rparr>"
    using notified_inc(3) by (auto simp: inc_num_active_waiters_def split: if_splits)
  ultimately have "abs_notify s' = abs_notify s"
    using notified_inc(1,2) by (intro notify_spec.equality) (auto simp: signalled_def asleep_def)
  thus ?thesis using spec_stutter by simp
next
  case (notified_load a)
  show ?thesis unfolding notified_load(1) by (rule notified_load_abs [OF inv notified_load(2)])
next
  case (poll_check a w' ready st w)
  obtain f where f: "fut s a = Some f" using notify_invD(3) [OF inv, of a] poll_check(2) by auto
  have st: "st = (nst s)\<lparr>woken_by := (woken_by (nst s))(a := None)\<rparr>" "ready = wakeups_seen a (nst s)"
    using poll_check(3) by (auto simp: poll_check_def)
  show ?thesis
    unfolding poll_check(1)
    by (rule poll_abs [of a]) (use f st poll_check(2) seen_iff [OF inv f bound] in
      \<open>auto simp: only_def signalled_def asleep_def split: if_splits\<close>)
next
  case (poll_lock a w ready st)
  obtain c where c: "fut s a = Some c" using notify_invD(3) [OF inv, of a] poll_lock(2) by auto
  then obtain f where f: "futs (nst s) a = Some f" "c = core f" by (auto simp: fut_Some)
  have reg: "is_in_list f \<Longrightarrow> was_registered_into_list f"
    using notify_invD(4) [OF inv c] by (simp add: fut_inv_def f(2))
  show ?thesis
    unfolding poll_lock(1)
  proof (rule poll_locked_effect [OF notify_invD(1) [OF inv] f(1) reg, of w])
    assume "was_registered_into_list f" "\<not> is_in_list f" "poll_locked a w (nst s) = Some (True, nst s)"
    thus "notify_spec_step (abs_notify s) (abs_notify (at_f a (if ready then FReady else FRecheck w) st s))"
      using poll_lock c f(2) by (intro poll_abs [of a]) (auto simp: only_def signalled_def asleep_def)
  next
    fix st'
    assume t: "was_registered_into_list f \<longrightarrow> is_in_list f" "poll_locked a w (nst s) = Some (False, st')"
      "cores (futs st') = (cores (futs (nst s)))(a \<mapsto> repoll w (core f))"
      "num_wakeups st' = num_wakeups (nst s)" "woken_by st' = woken_by (nst s)"
    have "signalled (at_f a (FRecheck w) st' s) a = signalled s a"
      using t(1) c f(2) by (auto simp: signalled_def t(3) repoll_def)
    thus "notify_spec_step (abs_notify s) (abs_notify (at_f a (if ready then FReady else FRecheck w) st s))"
      using poll_lock c t by (intro poll_abs [of a]) (auto simp: only_def asleep_def)
  qed
next
  case (poll_recheck a w)
  obtain f where f: "fut s a = Some f" using notify_invD(3) [OF inv, of a] poll_recheck(2) by auto
  show ?thesis
    unfolding poll_recheck(1)
    by (rule poll_abs [of a]) (use f poll_recheck(2) seen_iff [OF inv f bound] notify_invD(4) [OF inv f] in
      \<open>auto simp: only_def signalled_def asleep_def fut_inv_def split: if_splits\<close>)
next
  case (notified_drop a w st)
  show ?thesis unfolding notified_drop(1) by (rule notified_drop_abs [OF inv notified_drop(2,3)])
next
  case (notify_call t)
  thus ?thesis
    using spec_call [of "abs_notify s" t] call_abs [of s t] by (simp add: cores_def)
next
  case (notify_check t F)
  have "abs_notify s' = abs_notify s"
  proof -
    let ?c = "if num_active_waiters (nst s) = 0 then NReturn F else NAdd F"
    have "s' = s\<lparr>npc := (npc s)(t := ?c)\<rparr>" using notify_check(1) by simp
    hence "abs_notify s' = (abs_notify s)\<lparr>calls := (calls (abs_notify s))(t := call_of ?c)\<rparr>"
      by (simp only: call_abs)
    moreover have "call_of ?c = calls (abs_notify s) t" using notify_check(2) by simp
    moreover have "(calls (abs_notify s))(t := calls (abs_notify s) t) = calls (abs_notify s)"
      by (rule fun_upd_triv)
    moreover have "(abs_notify s)\<lparr>calls := calls (abs_notify s)\<rparr> = abs_notify s"
      by (rule notify_spec.equality) simp_all
    ultimately show ?thesis by (simp only:)
  qed
  thus ?thesis using spec_stutter by simp
next
  case (notify_add t F)
  show ?thesis unfolding notify_add(1) by (rule notify_add_abs [OF inv notify_add(2)])
next
  case (notify_lock t F st)
  show ?thesis unfolding notify_lock(1) by (rule notify_lock_abs [OF inv notify_lock(2,3)])
next
  case (notify_return t F)
  have "F \<subseteq> notified_set (abs_notify s)" "F \<inter> sleeping (abs_notify s) = {}"
    using notify_invD(5) [OF inv, of t] notify_return(2) by auto
  thus ?thesis
    using spec_return [of "abs_notify s" t F] call_abs [of s t] notify_return by simp
qed

text \<open>Executions in which the counter of wakeups has not wrapped around.\<close>

definition notify_bounded :: "'w::len word notify_sys \<Rightarrow> bool" where
  "notify_bounded s \<longleftrightarrow> notify_reachable s \<and> total s < 2 ^ LENGTH('w)"

interpretation notify: notification "notify_bounded :: 'w::len word notify_sys \<Rightarrow> bool" "\<lambda>s. s = notify_init"
  notify_step abs_notify
proof
  fix s :: "'w::len word notify_sys" and P :: "'w word notify_sys \<Rightarrow> bool"
  assume s: "notify_bounded s" and init: "\<And>u. u = notify_init \<Longrightarrow> P u"
    and step: "\<And>u v. notify_bounded u \<Longrightarrow> notify_bounded v \<Longrightarrow> P u \<Longrightarrow> notify_step u v \<Longrightarrow> P v"
  have "notify_reachable s" "total s < 2 ^ LENGTH('w)" using s by (simp_all add: notify_bounded_def)
  thus "P s"
  proof induction
    case (nreach_step u v)
    have b: "total u < 2 ^ LENGTH('w)" using notify_step_total [OF nreach_step(2)] nreach_step(4) by simp
    have u: "notify_bounded u" using nreach_step(1) b by (simp add: notify_bounded_def)
    have v: "notify_bounded v"
      unfolding notify_bounded_def using notify_reachable.nreach_step [OF nreach_step(1,2)] nreach_step(4) by (rule conjI)
    show ?case by (rule step [OF u v nreach_step(3) [OF b] nreach_step(2)])
  next
    case nreach_init
    show ?case by (rule init [OF refl])
  qed
next
  fix s :: "'w::len word notify_sys" assume "s = notify_init"
  thus "abs_notify s = notify_spec_init"
    by (auto simp: abs_notify_def notify_spec_init_def notify_init_def new_notify_def signalled_def asleep_def cores_def)
next
  fix s s' :: "'w::len word notify_sys"
  assume "notify_bounded s" and "notify_step s s'"
  thus "notify_spec_step (abs_notify s) (abs_notify s')"
    using notify_abs_step notify_reachable_inv by (auto simp: notify_bounded_def)
qed

subsection \<open>Consequences\<close>

lemma notify_bounded_inv: "notify_bounded s \<Longrightarrow> notify_inv s"
  by (simp add: notify_bounded_def notify_reachable_inv)

text \<open>The critical sections return: every pointer they follow is live, and no debug assertion fails.\<close>

lemma poll_returns:
  assumes inv: "notify_inv s" and pc: "fpc s a = FLock w"
  shows "poll_locked a w' (nst s) \<noteq> None"
proof -
  obtain c where c: "fut s a = Some c" using notify_invD(3) [OF inv, of a] pc by auto
  then obtain f where f: "futs (nst s) a = Some f" "c = core f" by (auto simp: fut_Some)
  have reg: "is_in_list f \<Longrightarrow> was_registered_into_list f"
    using notify_invD(4) [OF inv c] by (simp add: fut_inv_def f(2))
  show ?thesis by (rule poll_locked_effect [OF notify_invD(1) [OF inv] f(1) reg, of w']) auto
qed

lemma notify_returns: "notify_inv s \<Longrightarrow> notify_loop (nst s) \<noteq> None"
  by (rule notify_loop_effect [OF notify_invD(1) in_list_count]) auto

lemma drop_returns:
  assumes inv: "notify_inv s" and f: "futs (nst s) a = Some f"
  shows "drop_notified a (nst s) \<noteq> None"
proof -
  have c: "fut s a = Some (core f)" using f by (simp add: cores_def)
  have reg: "is_in_list f \<Longrightarrow> was_registered_into_list f"
    using notify_invD(4) [OF inv c] by (simp add: fut_inv_def)
  have nz: "active f \<Longrightarrow> num_active_waiters (nst s) \<noteq> 0"
    using count_nonzero [OF notify_invD(2) [OF inv], of a] c by (simp add: waiting_futs_iff)
  show ?thesis by (rule drop_notified_effect [OF notify_invD(1) [OF inv] f reg nz]) auto
qed

text \<open>A future that sleeps although it has been notified is about to be woken.\<close>

lemma sleeper_woken:
  assumes inv: "notify_inv s" and "asleep s a" and "signalled s a"
  shows "\<exists>t F. npc s t = NLock F"
proof -
  obtain w where w: "fpc s a = FPending w" "woken_by (nst s) a = None" using assms(2) by (auto simp: asleep_def)
  then obtain f where f: "fut s a = Some f" using notify_invD(3) [OF inv, of a] by auto
  show ?thesis
    using notify_invD(4) [OF inv f] w f assms(3) by (auto simp: fut_inv_def signalled_def split: if_splits)
qed

lemma sleeper_woken_by:
  assumes inv: "notify_inv s" and a: "asleep s a" "signalled s a"
  shows "\<exists>t F st. npc s t = NLock F \<and> notify_loop (nst s) = Some st \<and> woken_by st a \<noteq> None"
proof -
  obtain t F where lock: "npc s t = NLock F" using sleeper_woken [OF inv a] by blast
  obtain w where w: "fpc s a = FPending w" "woken_by (nst s) a = None" using a(1) by (auto simp: asleep_def)
  then obtain f where f: "fut s a = Some f" using notify_invD(3) [OF inv, of a] by auto
  then obtain g where g: "futs (nst s) a = Some g" "f = core g" by (auto simp: fut_Some)
  have "is_in_list f" "waker f = Some w"
    using notify_invD(4) [OF inv f] w by (auto simp: fut_inv_def split: if_splits)
  hence "in_list (nst s) a" "waker_of (nst s) a = Some w" using g by (auto simp: in_list_def waker_of_def)
  moreover obtain st where "notify_loop (nst s) = Some st"
      "woken_by st = (\<lambda>a. if in_list (nst s) a \<and> waker_of (nst s) a \<noteq> None then waker_of (nst s) a
         else woken_by (nst s) a)"
    by (rule notify_loop_effect [OF notify_invD(1) [OF inv] in_list_count [OF inv]]) blast
  ultimately show ?thesis using lock by auto
qed

subsection \<open>Runs\<close>

text \<open>The same steps as a function, to compute executions.\<close>

datatype notify_event =
  NNotified nat | NSnapshot nat | NPoll nat nat | NPollLock nat | NPollRecheck nat | NDrop nat
  | NCall nat | NCheck nat | NWakeup nat | NDrain nat | NDone nat

fun notify_exec :: "notify_event \<Rightarrow> 'w::len word notify_sys \<Rightarrow> 'w word notify_sys option" where
  "notify_exec (NNotified a) s =
     (if fpc s a = FNone then map_option (\<lambda>st. at_f a FNew st s) (inc_num_active_waiters (nst s)) else None)"
| "notify_exec (NSnapshot a) s =
     (if fpc s a = FNew
      then Some ((at_f a FIdle (notified_load a (nst s)) s)\<lparr>born := (born s)(a := total s)\<rparr>) else None)"
| "notify_exec (NPoll a w) s =
     (case fpc s a of
        FIdle \<Rightarrow> (case poll_check a (nst s) of (r, st) \<Rightarrow> Some (at_f a (if r then FReady else FLock w) st s))
      | FPending _ \<Rightarrow> (case poll_check a (nst s) of (r, st) \<Rightarrow> Some (at_f a (if r then FReady else FLock w) st s))
      | _ \<Rightarrow> None)"
| "notify_exec (NPollLock a) s =
     (case fpc s a of
        FLock w \<Rightarrow> map_option (\<lambda>(r, st). at_f a (if r then FReady else FRecheck w) st s) (poll_locked a w (nst s))
      | _ \<Rightarrow> None)"
| "notify_exec (NPollRecheck a) s =
     (case fpc s a of
        FRecheck w \<Rightarrow> Some (at_f a (if wakeups_seen a (nst s) then FReady else FPending w) (nst s) s)
      | _ \<Rightarrow> None)"
| "notify_exec (NDrop a) s =
     (if fpc s a \<in> {FNone, FNew} \<or> (\<exists>w. fpc s a = FLock w \<or> fpc s a = FRecheck w) then None
      else map_option (\<lambda>st. (at_f a FNone st s)\<lparr>npc := (\<lambda>t. forget a (npc s t))\<rparr>) (drop_notified a (nst s)))"
| "notify_exec (NCall t) s =
     (case npc s t of NIdle \<Rightarrow> Some (at_n t (NCalled {a. futs (nst s) a \<noteq> None}) (nst s) s) | _ \<Rightarrow> None)"
| "notify_exec (NCheck t) s =
     (case npc s t of
        NCalled F \<Rightarrow> Some (at_n t (if num_active_waiters (nst s) = 0 then NReturn F else NAdd F) (nst s) s)
      | _ \<Rightarrow> None)"
| "notify_exec (NWakeup t) s =
     (case npc s t of
        NAdd F \<Rightarrow> Some ((at_n t (NLock F) (notify_add (nst s)) s)\<lparr>total := Suc (total s)\<rparr>) | _ \<Rightarrow> None)"
| "notify_exec (NDrain t) s =
     (case npc s t of
        NLock F \<Rightarrow> map_option (\<lambda>st. at_n t (NReturn F) st s) (notify_loop (nst s)) | _ \<Rightarrow> None)"
| "notify_exec (NDone t) s =
     (case npc s t of NReturn F \<Rightarrow> Some (at_n t NIdle (nst s) s) | _ \<Rightarrow> None)"

lemma at_seen:
  "fpc s a = FRecheck w \<Longrightarrow> wakeups_seen a (nst s) \<Longrightarrow> notify_step s (s\<lparr>fpc := (fpc s)(a := FReady)\<rparr>)"
  "fpc s a = FRecheck w \<Longrightarrow> \<not> wakeups_seen a (nst s) \<Longrightarrow> notify_step s (s\<lparr>fpc := (fpc s)(a := FPending w)\<rparr>)"
  using poll_recheck [of s a w] by simp_all

lemma at_check:
  "npc s t = NCalled F \<Longrightarrow> num_active_waiters (nst s) = 0 \<Longrightarrow> notify_step s (s\<lparr>npc := (npc s)(t := NReturn F)\<rparr>)"
  "npc s t = NCalled F \<Longrightarrow> num_active_waiters (nst s) \<noteq> 0 \<Longrightarrow> notify_step s (s\<lparr>npc := (npc s)(t := NAdd F)\<rparr>)"
  using notify_check [of s t F] by simp_all

lemmas notify_step_simps = notified_inc notified_load at_seen at_check notify_add notify_lock
  poll_check [where ready = True, simplified] poll_check [where ready = False, simplified]
  poll_lock [where ready = True, simplified] poll_lock [where ready = False, simplified]
  notify_call [simplified] notify_return [simplified]

lemma notify_exec_step: "notify_exec e s = Some s' \<Longrightarrow> notify_step s s'"
proof (cases e)
  case (NDrop a)
  assume "notify_exec e s = Some s'"
  then obtain st where "drop_notified a (nst s) = Some st" "fpc s a \<in> {FIdle, FReady} \<or> (\<exists>w. fpc s a = FPending w)"
      "s' = (at_f a FNone st s)\<lparr>npc := (\<lambda>t. forget a (npc s t))\<rparr>"
    by (cases "fpc s a") (auto simp: NDrop split: if_splits)
  thus ?thesis by (auto intro: notified_drop)
next
  case (NPollLock a)
  assume "notify_exec e s = Some s'"
  then obtain w r st where "fpc s a = FLock w" "poll_locked a w (nst s) = Some (r, st)"
      "s' = at_f a (if r then FReady else FRecheck w) st s"
    by (cases "fpc s a") (auto simp: NPollLock simp del: if_split)
  thus ?thesis using poll_lock by metis
qed (auto split: if_splits fut_pc.splits ntf_pc.splits prod.splits intro: notify_step_simps)

fun notify_run :: "notify_event list \<Rightarrow> 'w::len word notify_sys \<Rightarrow> 'w word notify_sys option" where
  "notify_run [] s = Some s"
| "notify_run (e # es) s = Option.bind (notify_exec e s) (notify_run es)"

lemma notify_run_reachable:
  "notify_run es s = Some s' \<Longrightarrow> notify_reachable s \<Longrightarrow> notify_reachable s'"
proof (induction es arbitrary: s)
  case (Cons e es)
  then obtain u where u: "notify_exec e s = Some u" "notify_run es u = Some s'" by (auto split: bind_splits)
  show ?case by (rule Cons.IH [OF u(2) nreach_step [OF Cons.prems(2) notify_exec_step [OF u(1)]]])
qed simp

definition notify_outcome :: "notify_event list \<Rightarrow> 64 word notify_sys" where
  "notify_outcome es = the (notify_run es notify_init)"

lemma notify_outcome_bounded:
  assumes "notify_run es (notify_init :: 64 word notify_sys) \<noteq> None" and "total (notify_outcome es) < 2 ^ 64"
  shows "notify_bounded (notify_outcome es)"
proof -
  have "notify_run es notify_init = Some (notify_outcome es)"
    using assms(1) by (auto simp: notify_outcome_def)
  from notify_run_reachable [OF this nreach_init] show ?thesis
    using assms(2) by (simp add: notify_bounded_def)
qed

text \<open>A future is polled and goes to sleep; then a call of \<open>notify\<close> comes to the critical section.\<close>

definition sleep_run :: "notify_event list" where
  "sleep_run = [NNotified 0, NSnapshot 0, NPoll 0 7, NPollLock 0, NPollRecheck 0, NCall 1, NCheck 1, NWakeup 1]"

lemmas notify_eval = notify_outcome_def sleep_run_def notify_init_def new_notify_def inc_num_active_waiters_def
  notified_load_def slot_new_def poll_check_def wakeups_seen_def poll_locked_def register_def write_at_def
  write_opt_def notify_add_def Let_def

lemma sleep_run_eval:
  "notify_run sleep_run notify_init = Some (notify_outcome sleep_run)"
  "total (notify_outcome sleep_run) = 1" "asleep (notify_outcome sleep_run) 0"
  "signalled (notify_outcome sleep_run) 0" "npc (notify_outcome sleep_run) 1 = NLock {0}"
  "fpc (notify_outcome sleep_run) 0 = FPending 7"
  by (simp_all add: notify_eval asleep_def signalled_def)

lemma sleep_run_bounded: "notify_bounded (notify_outcome sleep_run)"
  by (rule notify_outcome_bounded) (simp_all add: sleep_run_eval)

lemma sleep_run_asleep: "{a. asleep (notify_outcome sleep_run) a} = {0}"
  by (auto simp: notify_eval asleep_def split: if_splits)

lemma sleep_run_live: "futs (nst (notify_outcome sleep_run)) 0 \<noteq> None"
  by (simp add: notify_eval)

end
