(* ===== verification/Notify_Panic.thy ===== *)
theory Notify_Panic
  imports Notify_Spec
begin

text \<open>
  Wakers that panic: \<open>Waker::wake\<close> is user code, and \<open>notify\<close> of \<open>src/src/rcu_core/notify.rs\<close> calls it between two
  rounds of its loop. A panic leaves the loop with the list as it is then, and releases the mutex.
\<close>

text \<open>\<open>True\<close>: a waker has panicked.\<close>

partial_function (option) notify_unwind :: "(nat \<Rightarrow> bool) \<Rightarrow> 'w::len word notify \<Rightarrow> (bool \<times> 'w word notify) option" where
  "notify_unwind wake_panics st =
     (case waiters_list_head st of
        None \<Rightarrow> Some (False, st)
      | Some a \<Rightarrow> Option.bind (notify_one a st)
          (\<lambda>st'. if (case waker_of st a of None \<Rightarrow> False | Some w \<Rightarrow> wake_panics w) then Some (True, st')
                 else notify_unwind wake_panics st'))"

text \<open>What an unwound loop has done: the futures \<open>ys\<close>, from the head of the list, have been taken off.\<close>

definition unwound :: "(nat \<Rightarrow> bool) \<Rightarrow> nat list \<Rightarrow> nat list \<Rightarrow> 'w::len word notify \<Rightarrow> bool \<Rightarrow> 'w word notify \<Rightarrow> bool" where
  "unwound wake_panics ys zs st b st' \<longleftrightarrow>
     linked (futs st') (waiters_list_head st') None zs \<and>
     cores (futs st') = (\<lambda>a. if a \<in> set ys then map_option take_off (cores (futs st) a) else cores (futs st) a) \<and>
     num_active_waiters st' = num_active_waiters st - of_nat (length ys) \<and> num_wakeups st' = num_wakeups st \<and>
     woken_by st' = (\<lambda>a. if a \<in> set ys \<and> waker_of st a \<noteq> None then waker_of st a else woken_by st a) \<and>
     (if b then ys \<noteq> [] \<and> (\<exists>w. waker_of st (last ys) = Some w \<and> wake_panics w) else zs = [])"

lemma waker_of_cores: "waker_of st a = (case cores (futs st) a of None \<Rightarrow> None | Some f \<Rightarrow> waker f)"
  by (cases "futs st a") (simp_all add: waker_of_def cores_def)

lemma core_removed: "is_in_list f \<Longrightarrow> core (removed f) = take_off (core f)"
  by (simp add: removed_def take_off_def core_def)

lemma unwound_Cons:
  assumes "unwound wake_panics ys zs st1 b st'" and "a \<notin> set ys"
    and "cores (futs st1) = (cores (futs st))(a \<mapsto> f')" and "map_option take_off (cores (futs st) a) = Some f'"
    and "num_active_waiters st1 = num_active_waiters st - 1" and "num_wakeups st1 = num_wakeups st"
    and "woken_by st1 = (case waker_of st a of None \<Rightarrow> woken_by st | Some w \<Rightarrow> (woken_by st)(a \<mapsto> w))"
  shows "unwound wake_panics (a # ys) zs st b st'"
proof -
  have w: "waker_of st1 x = waker_of st x" if "x \<noteq> a" for x
    using that by (simp add: waker_of_cores assms(3))
  have "waker_of st1 (last ys) = waker_of st (last ys)" if "ys \<noteq> []"
    by (rule w) (use last_in_set [OF that] assms(2) in metis)
  moreover have "woken_by st' = (\<lambda>x. if x \<in> set (a # ys) \<and> waker_of st x \<noteq> None then waker_of st x else woken_by st x)"
  proof
    fix x
    show "woken_by st' x = (if x \<in> set (a # ys) \<and> waker_of st x \<noteq> None then waker_of st x else woken_by st x)"
      using assms(1,2,7) w [of x] by (cases "x = a") (auto simp: unwound_def split: option.splits)
  qed
  moreover have "cores (futs st') = (\<lambda>x. if x \<in> set (a # ys) then map_option take_off (cores (futs st) x) else cores (futs st) x)"
    using assms(1-4) by (auto simp: unwound_def fun_eq_iff)
  ultimately show ?thesis
    using assms(1,5,6) by (auto simp: unwound_def)
qed

lemma notify_unwind_effect:
  assumes "linked (futs st) (waiters_list_head st) None xs" and "distinct xs"
    and "length xs \<le> unat (num_active_waiters st)"
  shows "\<exists>ys zs b st'. xs = ys @ zs \<and> notify_unwind wake_panics st = Some (b, st') \<and> unwound wake_panics ys zs st b st'"
  using assms
proof (induction xs arbitrary: st)
  case Nil
  then have "notify_unwind wake_panics st = Some (False, st)" "unwound wake_panics [] [] st False st"
    by (subst notify_unwind.simps, simp, simp add: unwound_def fun_eq_iff)
  then show ?case
    by blast
next
  case (Cons a xs)
  have nz: "num_active_waiters st \<noteq> 0"
    using Cons.prems(3) by auto
  obtain f where f: "futs st a = Some f" "is_in_list f" and eq:
      "notify_one a st = Some (st\<lparr>waiters_list_head := next_slot f, num_active_waiters := num_active_waiters st - 1,
           futs := (set_pprev (next_slot f) None (futs st))(a \<mapsto> removed f),
           woken_by := (case waker f of None \<Rightarrow> woken_by st | Some w \<Rightarrow> (woken_by st)(a \<mapsto> w))\<rparr>)"
      "linked ((set_pprev (next_slot f) None (futs st))(a \<mapsto> removed f)) (next_slot f) None xs"
    using notify_one_eq [OF Cons.prems(1,2) nz] by blast
  let ?st = "st\<lparr>waiters_list_head := next_slot f, num_active_waiters := num_active_waiters st - 1,
           futs := (set_pprev (next_slot f) None (futs st))(a \<mapsto> removed f),
           woken_by := (case waker f of None \<Rightarrow> woken_by st | Some w \<Rightarrow> (woken_by st)(a \<mapsto> w))\<rparr>"
  have one: "notify_one a st = Some ?st" "linked (futs ?st) (waiters_list_head ?st) None xs"
    using eq by simp_all
  have c: "cores (futs ?st) = (cores (futs st))(a \<mapsto> take_off (core f))"
    by (simp add: core_removed [OF f(2)])
  have w: "waker_of st a = waker f"
    by (simp add: waker_of_def f)
  have head: "waiters_list_head st = Some a"
    using Cons.prems(1) by (simp add: linked_Cons)
  show ?case
  proof (cases "\<exists>w. waker f = Some w \<and> wake_panics w")
    case True
    then have "notify_unwind wake_panics st = Some (True, ?st)"
      using w by (subst notify_unwind.simps) (auto simp add: head one(1) simp del: fun_upd_apply)
    moreover have "cores (futs st) a = Some (core f)"
      by (simp add: cores_def f)
    then have "unwound wake_panics [a] xs st True ?st"
      unfolding unwound_def c using one(2) w True by (intro conjI) (auto simp: fun_eq_iff)
    moreover have "a # xs = [a] @ xs"
      by simp
    ultimately show ?thesis
      by blast
  next
    case False
    have "length xs \<le> unat (num_active_waiters ?st)"
      using Cons.prems(3) nz by (simp add: unat_minus_one)
    from Cons.IH [OF one(2) _ this] Cons.prems(2) obtain ys zs b st' where
      IH: "xs = ys @ zs" "notify_unwind wake_panics ?st = Some (b, st')" "unwound wake_panics ys zs ?st b st'"
      by auto
    have "notify_unwind wake_panics st = Some (b, st')"
      using False IH(2) by (subst notify_unwind.simps) (auto simp: head one(1) w split: option.splits)
    moreover have "unwound wake_panics (a # ys) zs st b st'"
      by (rule unwound_Cons [OF IH(3) _ c]) (use w f IH(1) Cons.prems(2) in \<open>auto simp: cores_def\<close>)
    moreover have "a # xs = (a # ys) @ zs"
      using IH(1) by simp
    ultimately show ?thesis
      by blast
  qed
qed

text \<open>
  After an unwound call the list is in order: another call of \<open>notify\<close> wakes the futures that are left, and any
  future can be dropped.
\<close>

lemma unwound_list:
  assumes l: "linked (futs st) (waiters_list_head st) None (ys @ zs)" and d: "distinct (ys @ zs)"
    and i: "\<And>a. in_list st a \<longleftrightarrow> a \<in> set (ys @ zs)" and u: "unwound wake_panics ys zs st b st'"
  shows "list_inv st'" and "in_list st' a \<longleftrightarrow> a \<in> set zs" and "a \<in> set zs \<Longrightarrow> waker_of st' a = waker_of st a"
proof -
  have c: "cores (futs st') a = (if a \<in> set ys then map_option take_off (cores (futs st) a) else cores (futs st) a)" for a
    using u by (simp add: unwound_def)
  show il: "in_list st' a \<longleftrightarrow> a \<in> set zs" for a
    using i [of a] d unfolding in_list_cores c by (auto simp: take_off_def)
  show "list_inv st'"
    using u d il by (intro list_invI [of _ zs]) (auto simp: unwound_def)
  show "waker_of st' a = waker_of st a" if "a \<in> set zs"
    using that d by (auto simp: waker_of_cores c)
qed

lemma notify_survives_panics:
  fixes s :: "'w::len word notify_sys"
  assumes inv: "notify_inv s"
  shows "\<exists>b st' st''. notify_unwind wake_panics (nst s) = Some (b, st') \<and> notify_loop st' = Some st'' \<and>
    (\<forall>a. in_list (nst s) a \<longrightarrow> \<not> in_list st'' a \<and> woken_by st'' a = waker_of (nst s) a) \<and>
    (\<forall>a. futs (nst s) a \<noteq> None \<longrightarrow> drop_notified a st' \<noteq> None)"
proof -
  let ?st = "nst s"
  obtain xs where xs: "linked (futs ?st) (waiters_list_head ?st) None xs" "distinct xs"
      "\<And>a. in_list ?st a \<longleftrightarrow> a \<in> set xs" using notify_invD(1) [OF inv] by (auto simp: list_inv_def)
  have "{a. in_list ?st a} = set xs" using xs(3) by auto
  then have len: "length xs \<le> unat (num_active_waiters ?st)"
    using in_list_count [OF inv] distinct_card [OF xs(2)] by simp
  obtain ys zs b st' where u: "xs = ys @ zs" "notify_unwind wake_panics ?st = Some (b, st')"
      "unwound wake_panics ys zs ?st b st'" using notify_unwind_effect [OF xs(1,2) len] by blast
  note L = unwound_list [OF xs(1-3) [unfolded u(1)] u(3)]
  have n: "unat (num_active_waiters st') = unat (num_active_waiters ?st) - length ys"
    using u(1,3) len by (simp add: unwound_def unat_minus_of_nat)
  have "{a. in_list st' a} = set zs" using L(2) by auto
  then have "card {a. in_list st' a} = length zs"
    using xs(2) distinct_card [of zs] by (simp add: u(1))
  then have "card {a. in_list st' a} \<le> unat (num_active_waiters st')"
    using n len by (simp add: u(1))
  from notify_loop_effect [OF L(1) this] obtain st'' where
    loop: "notify_loop st' = Some st''" "cores (futs st'') = (\<lambda>a. map_option take_off (cores (futs st') a))"
      "woken_by st'' = (\<lambda>a. if in_list st' a \<and> waker_of st' a \<noteq> None then waker_of st' a else woken_by st' a)"
    by metis
  have "\<not> in_list st'' a \<and> woken_by st'' a = waker_of ?st a" if a: "in_list ?st a" for a
  proof
    show "\<not> in_list st'' a"
      by (auto simp: in_list_cores loop(2) take_off_def)
    obtain f where f: "fut s a = Some f" "is_in_list f"
      using a by (auto simp: in_list_cores)
    then have "waker_of ?st a \<noteq> None"
      using notify_invD(4) [OF inv f(1)] by (auto simp: waker_of_cores fut_inv_def)
    then show "woken_by st'' a = waker_of ?st a"
      using a xs(3) [of a] L(2,3) [of a] u(1,3) by (auto simp: loop(3) unwound_def)
  qed
  moreover have "drop_notified a st' \<noteq> None" if a: "futs ?st a \<noteq> None" for a
  proof -
    obtain f where f: "fut s a = Some f"
      using a by (auto simp: cores_def)
    then have reg: "is_in_list f \<Longrightarrow> was_registered_into_list f"
      using notify_invD(4) [OF inv f] by (simp add: fut_inv_def)
    have "cores (futs st') a = (if a \<in> set ys then Some (take_off f) else Some f)"
      using u(3) f by (simp add: unwound_def)
    then obtain f' where f': "futs st' a = Some f'" "core f' = (if a \<in> set ys then take_off f else f)"
      by (auto simp: cores_def split: if_splits)
    have reg': "is_in_list f' \<Longrightarrow> was_registered_into_list f'"
      using f'(2) reg core_sel(2,4) [of f'] by (auto simp: take_off_def split: if_splits)
    have "num_active_waiters st' \<noteq> 0" if "active f'"
    proof -
      have "a \<notin> set ys"
      proof
        assume "a \<in> set ys"
        then have "is_in_list f" using xs(3) [of a] f by (auto simp: u(1) in_list_cores)
        then show False
          using \<open>active f'\<close> f'(2) reg \<open>a \<in> set ys\<close> active_core [of f'] by (simp add: active_def take_off_def)
      qed
      moreover have "active f"
        using \<open>active f'\<close> f'(2) \<open>a \<notin> set ys\<close> active_core [of f'] by simp
      moreover have "set ys \<subseteq> waiting_futs s"
        using in_list_waiting [OF inv] xs(3) by (auto simp: u(1))
      ultimately have "insert a (set ys) \<subseteq> waiting_futs s" "card (insert a (set ys)) = Suc (length ys)"
        using f xs(2) distinct_card [of ys] by (auto simp: waiting_futs_iff u(1))
      then have "Suc (length ys) \<le> unat (num_active_waiters ?st)"
        using notify_invD(2) [OF inv] card_mono by (metis count_inv_def)
      then show ?thesis
        using n by auto
    qed
    then show ?thesis
      using drop_notified_effect [OF L(1) f'(1) reg'] by blast
  qed
  ultimately show ?thesis
    using u(2) loop(1) by blast
qed

end
