(* ===== verification/Wake_Inv.thy ===== *)
theory Wake_Inv
  imports Progress
begin

text \<open>
  No notification about an epoch id is lost: a call that sleeps in \<open>wait_for_running_threads_to_see_epoch_id\<close> and has
  not been woken waits for a thread that has not published the epoch id yet, or that is about to notify it.
\<close>

subsection \<open>The steps of hooks, seen from a subscriber\<close>

definition words_same :: "('e, 'g) sys \<Rightarrow> ('e, 'g) sys \<Rightarrow> bool" where
  "words_same s s' \<longleftrightarrow> (\<forall>sl. hist (mem s') (LSlot sl) = hist (mem s) (LSlot sl))"

definition appended :: "('e, 'g) sys \<Rightarrow> ('e, 'g) sys \<Rightarrow> nat \<Rightarrow> 'e \<Rightarrow> bool" where
  "appended s s' sl v \<longleftrightarrow> (\<exists>W. hist (mem s') (LSlot sl) = hist (mem s) (LSlot sl) @ [(VEpoch v, W)]) \<and>
     (\<forall>x. x \<noteq> sl \<longrightarrow> hist (mem s') (LSlot x) = hist (mem s) (LSlot x))"

definition info_same :: "('e, 'g) sys \<Rightarrow> ('e, 'g) sys \<Rightarrow> bool" where
  "info_same s s' \<longleftrightarrow> (\<forall>x \<in> {LHasSub, LNum, LEpoch}. hist (mem s') x = hist (mem s) x) \<and>
     subscriber_info s' = subscriber_info s \<and> info_writer s' = info_writer s"

definition silent_move :: "('w::len, 'g::len) rcu \<Rightarrow> tid \<Rightarrow> 'w word tpc \<Rightarrow> 'w word tpc \<Rightarrow> bool" where
  "silent_move s t p p' \<longleftrightarrow>
     p = Idle \<and> p' = Polling \<or>
     tslot (thr s t) = None \<and> p \<in> {Idle, Parked} \<and> p' \<in> {Idle, Parked, Stopped} \<or>
     (\<exists>i. readable t LEpoch i (mem s) \<and>
        ((\<exists>h. p = StartLoad h \<and> p' = StartStore h (epoch_at s i)) \<or> p = Polling \<and> p' = AfterLoad (epoch_at s i))) \<or>
     (\<exists>e sl i. p = AfterLoad e \<and> tslot (thr s t) = Some sl \<and> readable t (LSlot sl) i (mem s) \<and> p' = AfterStore e (word_at s sl i))"

definition write_move :: "('w::len, 'g::len) rcu \<Rightarrow> ('w, 'g) rcu \<Rightarrow> tid \<Rightarrow> nat \<Rightarrow> 'w word \<Rightarrow> bool" where
  "write_move s s' t sl v \<longleftrightarrow> (let p = tpc (thr s t); p' = tpc (thr s' t) in
     tslot (thr s t) = Some sl \<and> tslot (thr s' t) = Some sl \<and>
       ((\<exists>h e. p = StartStore h e \<and> p' = NotifyFence h \<and> v = encode (busy_state e)) \<or>
        (\<exists>e w st. p = AfterStore e w \<and> decode w = Some st \<and> v = encode (busy_state e) \<and>
           (p' = NotifyFence AfterPoll \<or> p' = Idle \<and> last_seen_epoch_id st = e)) \<or>
        p = Idle \<and> p' = NotifyFence Park \<and> v = clear_busy (word_at s sl (last_ix (mem s) (LSlot sl)))) \<or>
     p = Idle \<and> p' = NotifyFence Stop \<and> tslot (thr s t) = Some sl \<and> tslot (thr s' t) = None \<or>
     (\<exists>h. p \<in> {Idle, Parked} \<and> p' = StartFence h \<and> v = encode (busy_state 0) \<and> tslot (thr s' t) = Some sl))"

inductive hook_kind :: "tid \<Rightarrow> ('w::len, 'g::len) rcu \<Rightarrow> ('w, 'g) rcu \<Rightarrow> bool" for t s s' where
  silent: "words_same s s' \<Longrightarrow> info_same s s' \<Longrightarrow> scv (mem s') = scv (mem s) \<Longrightarrow> tslot (thr s' t) = tslot (thr s t) \<Longrightarrow>
    silent_move s t (tpc (thr s t)) (tpc (thr s' t)) \<Longrightarrow> hook_kind t s s'"
| fence: "words_same s s' \<Longrightarrow> info_same s s' \<Longrightarrow> scv (mem s') = cur (mem s') t \<Longrightarrow> tslot (thr s' t) = tslot (thr s t) \<Longrightarrow>
    tpc (thr s t) = StartFence h \<and> tpc (thr s' t) = StartLoad h \<or>
    tpc (thr s t) = NotifyFence h \<and> tpc (thr s' t) = Notifying h NLoad \<Longrightarrow> hook_kind t s s'"
| writes: "appended s s' sl v \<Longrightarrow> info_same s s' \<Longrightarrow> scv (mem s') = scv (mem s) \<Longrightarrow> nwords s sl \<le> cur (mem s') t (LSlot sl) \<Longrightarrow>
    write_move s s' t sl v \<Longrightarrow> hook_kind t s s'"
| notify: "tpc (thr s t) = Notifying h n \<Longrightarrow> thread_epoch_updated_notify_inner (h = Park) h n t i s = Some s' \<Longrightarrow> hook_kind t s s'"

lemma silent_step:
  "tpc (thr s t) = Idle \<Longrightarrow> hook_kind t s (set_tpc t Polling s)"
  "tslot (thr s t) = None \<Longrightarrow> tpc (thr s t) \<in> {Idle, Parked} \<Longrightarrow> p \<in> {Idle, Parked, Stopped} \<Longrightarrow> hook_kind t s (set_tpc t p s)"
  by (rule hook_kind.silent; auto simp: words_same_def info_same_def silent_move_def upd_defs)+

lemma see_epoch_step:
  "this_thread_see_new_epoch_id (StartStore h) t i s = Some s' \<Longrightarrow> tpc (thr s t) = StartLoad h \<Longrightarrow> hook_kind t s s'"
  "this_thread_see_new_epoch_id AfterLoad t i s = Some s' \<Longrightarrow> tpc (thr s t) = Polling \<Longrightarrow> hook_kind t s s'"
  by (rule hook_kind.silent; auto simp: this_thread_see_new_epoch_id_def words_same_def info_same_def silent_move_def
      upd_defs view_simps split: if_splits)+

lemma load_own_step: "load_own_state e t i s = Some s' \<Longrightarrow> tpc (thr s t) = AfterLoad e \<Longrightarrow> hook_kind t s s'"
  by (rule hook_kind.silent) (auto simp: load_own_state_def words_same_def info_same_def silent_move_def
      upd_defs view_simps split: if_splits option.splits)

lemma fence_step:
  "tpc (thr s t) = StartFence h \<Longrightarrow> hook_kind t s (start_fence h t s)"
  "tpc (thr s t) = NotifyFence h \<Longrightarrow> hook_kind t s (notify_fence h t s)"
  by (rule hook_kind.fence [where h = h]; auto simp: start_fence_def notify_fence_def words_same_def info_same_def
      upd_defs view_simps fence_sc_def Let_def)+

lemma appended_store:
  "hist (mem s') = (hist (mem s))(LSlot sl := hist (mem s) (LSlot sl) @ [(VEpoch v, W)]) \<Longrightarrow> appended s s' sl v"
  by (auto simp: appended_def)

lemma set_state_step:
  assumes st: "set_state t i st p s = Some s'"
    and w: "\<And>sl. tslot (thr s t) = Some sl \<Longrightarrow> tslot (thr s' t) = Some sl \<Longrightarrow> tpc (thr s' t) = p \<Longrightarrow> write_move s s' t sl (encode st)"
  shows "hook_kind t s s'"
proof -
  obtain sl where sl: "tslot (thr s t) = Some sl"
    using st by (auto simp: set_state_def split: option.splits if_splits)
  have "appended s s' sl (encode st)" "info_same s s'" "scv (mem s') = scv (mem s)" "nwords s sl \<le> cur (mem s') t (LSlot sl)"
      "tslot (thr s' t) = Some sl" "tpc (thr s' t) = p"
    using st sl by (auto simp: set_state_def with_slot_def appended_def info_same_def upd_defs view_simps Let_def split: if_splits)
  then show ?thesis
    using w [OF sl] by (intro hook_kind.writes)
qed

lemma park_step:
  assumes st: "clear_own_busy t i s = Some s'" and p: "tpc (thr s t) = Idle"
  shows "hook_kind t s s'"
proof -
  obtain sl where sl: "tslot (thr s t) = Some sl"
    using st by (auto simp: clear_own_busy_def split: option.splits)
  have "appended s s' sl (clear_busy (word_at s sl (last_ix (mem s) (LSlot sl))))" "info_same s s'" "scv (mem s') = scv (mem s)"
      "nwords s sl \<le> cur (mem s') t (LSlot sl)" "tslot (thr s' t) = Some sl" "tpc (thr s' t) = NotifyFence Park"
    using st sl by (auto simp: clear_own_busy_def with_slot_def appended_def info_same_def upd_defs view_simps mval_def last_ix_def Let_def
        split: if_splits)
  then show ?thesis
    using sl p by (intro hook_kind.writes) (simp_all add: write_move_def)
qed

lemma stop_step:
  assumes "tpc (thr s t) = Idle" and "tslot (thr s t) = Some sl"
  shows "hook_kind t s (set_tpc t (NotifyFence Stop) (dealloc_slot t sl s))"
proof (rule hook_kind.writes)
  let ?s' = "set_tpc t (NotifyFence Stop) (dealloc_slot t sl s)"
  show "appended s ?s' sl NONE_ENCODED_VALUE" "info_same s ?s'" "scv (mem ?s') = scv (mem s)" "nwords s sl \<le> cur (mem ?s') t (LSlot sl)"
    by (auto simp: dealloc_slot_def appended_def info_same_def upd_defs view_simps)
  show "write_move s ?s' t sl NONE_ENCODED_VALUE"
    using assms by (simp add: write_move_def dealloc_slot_def upd_defs)
qed

lemma alloc_step:
  assumes inv: "thread_inv s" and al: "alloc_slot t g (encode (busy_state 0)) s = Some s1" and p: "tpc (thr s t) = Idle"
  shows "hook_kind t s (set_tpc t (StartFence h) s1)"
proof -
  let ?s' = "set_tpc t (StartFence h) s1" and ?sl = "if free_slots s = [] then slots_len s else last (free_slots s)"
  have "hist (mem s) (LSlot (slots_len s)) = []"
    using thread_invD(2) [OF inv] slots_len_eq [OF inv] unfolding inv_len_def by (metis length_0_conv less_irrefl)
  moreover have "slots_len (s\<lparr>mem := lk_acq t LkSlots (mem s)\<rparr>) = slots_len s"
    by (rule slots_len_mem) (simp add: view_simps)
  ultimately have "appended s ?s' ?sl (encode (busy_state 0))" "info_same s ?s'" "scv (mem ?s') = scv (mem s)"
      "nwords s ?sl \<le> cur (mem ?s') t (LSlot ?sl)" "tslot (thr ?s' t) = Some ?sl" "tpc (thr ?s' t) = StartFence h"
    using al by (cases "free_slots s = []"; cases g; auto simp: alloc_slot_def alloc_from_free_slot_def alloc_no_free_slots_def init_slot_def
        appended_def info_same_def upd_defs view_simps Let_def split: if_splits)+
  then show ?thesis
    using p by (intro hook_kind.writes) (simp_all add: write_move_def)
qed

lemma start_store_step:
  "set_state t i (busy_state e) (NotifyFence h) s = Some s' \<Longrightarrow> tpc (thr s t) = StartStore h e \<Longrightarrow> hook_kind t s s'"
  by (erule set_state_step) (simp add: write_move_def)

lemma after_store_step:
  "set_state t i (busy_state e) (if last_seen_epoch_id st \<noteq> e then NotifyFence AfterPoll else Idle) s = Some s' \<Longrightarrow>
   decode w = Some st \<Longrightarrow> tpc (thr s t) = AfterStore e w \<Longrightarrow> hook_kind t s s'"
  by (erule set_state_step) (auto simp: write_move_def)

lemma unpark_store_step:
  "set_state t i (busy_state 0) (StartFence h) s = Some s' \<Longrightarrow> tpc (thr s t) = Parked \<Longrightarrow> hook_kind t s s'"
  by (erule set_state_step) (auto simp: write_move_def)

lemmas hook_kinds = silent_step see_epoch_step load_own_step fence_step park_step stop_step alloc_step
  start_store_step after_store_step unpark_store_step hook_kind.notify

lemma hook_kind_run_hook:
  assumes inv: "thread_inv s" and st: "run_hook h t i s = Some s'"
  shows "hook_kind t s s'"
proof (cases h)
  case BeforePoll
  then have "on_before_task_poll (tpc (thr s t)) t i s = Some s'"
    using st by simp
  then show ?thesis
    by (rule before_pollE) (auto simp: is_rcu_tracked_thread_def intro: hook_kinds inv hook_kind.notify [where h = BeforePoll]
        dest!: sym [of "Some s'"] split: if_splits option.splits)
next
  case Unpark
  then have "on_thread_unpark (tpc (thr s t)) t i s = Some s'"
    using st by simp
  then show ?thesis
    by (rule unparkE) (auto simp: is_rcu_tracked_thread_def intro: hook_kinds inv hook_kind.notify [where h = Unpark]
        dest!: sym [of "Some s'"] split: if_splits option.splits)
next
  case AfterPoll
  then have "on_after_task_poll (tpc (thr s t)) t i s = Some s'"
    using st by simp
  then show ?thesis
    by (rule after_pollE) (auto intro: hook_kinds inv hook_kind.notify [where h = AfterPoll]
        dest!: sym [of "Some s'"] split: if_splits option.splits)
next
  case Park
  then have "on_thread_park (tpc (thr s t)) t i s = Some s'"
    using st by simp
  then show ?thesis
    by (rule parkE) (auto simp: is_rcu_tracked_thread_def intro: hook_kinds inv hook_kind.notify [where h = Park]
        dest!: sym [of "Some s'"] split: if_splits option.splits)
next
  case Stop
  then have "on_thread_stop (tpc (thr s t)) t i s = Some s'"
    using st by simp
  then show ?thesis
    by (rule stopE) (auto intro: hook_kinds inv hook_kind.notify [where h = Stop]
        dest!: sym [of "Some s'"] split: if_splits option.splits)
qed

subsection \<open>What a sleeping call may wait for\<close>

abbreviation last_word :: "('w::len, 'g::len) rcu \<Rightarrow> nat \<Rightarrow> 'w word" where
  "last_word s sl \<equiv> word_at s sl (last_ix (mem s) (LSlot sl))"

text \<open>A thread that has not published the epoch id; and a thread that is about to notify. \<open>sn\<close> is the index of the
  message with the number of notifications that the subscriber knows.\<close>

definition late :: "('w::len, 'g::len) rcu \<Rightarrow> 'w word wait \<Rightarrow> bool" where
  "late s w \<longleftrightarrow> (\<exists>sl. nwords s sl \<noteq> 0 \<and> \<not> slot_ok w (last_word s sl))"

definition skips :: "('e, 'g) sys \<Rightarrow> tid \<Rightarrow> hook \<Rightarrow> bool" where
  "skips s t h \<longleftrightarrow> h = Park \<and> (\<exists>w. subscriber_info s = Some (w, t))"

definition notifying :: "('e, 'g) sys \<Rightarrow> nat \<Rightarrow> tid \<Rightarrow> bool" where
  "notifying s sn t \<longleftrightarrow>
     (case tpc (thr s t) of
        NotifyFence h \<Rightarrow> \<not> skips s t h
      | Notifying h n \<Rightarrow> \<not> skips s t h \<and>
          (case n of NLoad \<Rightarrow> last_ix (mem s) LHasSub \<le> cur (mem s) t LHasSub | NAdd \<Rightarrow> True
           | NRead \<Rightarrow> sn < cur (mem s) t LNum | NWrite \<Rightarrow> sn < cur (mem s) t LNum | NClear \<Rightarrow> False)
      | _ \<Rightarrow> False)"

definition owed :: "('w::len, 'g::len) rcu \<Rightarrow> 'w word wait \<Rightarrow> nat \<Rightarrow> bool" where
  "owed s w sn \<longleftrightarrow> late s w \<or> (\<exists>t. notifying s sn t)"

text \<open>A notification the subscriber finds when it registers.\<close>

definition heard :: "('e, 'g) sys \<Rightarrow> nat \<Rightarrow> loc view \<Rightarrow> bool" where
  "heard s sn X \<longleftrightarrow> sn < X LNum \<or> sn < lv (mem s) LkInfoR LNum \<or> sn < lv (mem s) LkInfoW LNum"

subsection \<open>The invariant\<close>

text \<open>A change of a state word that the SC order does not know yet has an author before its fence.\<close>

definition edges_inv :: "('w::len, 'g::len) rcu \<Rightarrow> bool" where
  "edges_inv s \<longleftrightarrow> (\<forall>sl j. scv (mem s) (LSlot sl) \<le> j \<and> Suc j < nwords s sl \<and> word_at s sl j \<noteq> word_at s sl (Suc j) \<longrightarrow>
     (\<exists>t. Suc j \<le> cur (mem s) t (LSlot sl) \<and>
        ((\<exists>h. tpc (thr s t) = NotifyFence h) \<or> (\<exists>h. tpc (thr s t) = StartFence h) \<and> word_at s sl (Suc j) = encode (busy_state 0))))"

definition info_inv :: "('w::len, 'g::len) rcu \<Rightarrow> bool" where
  "info_inv s \<longleftrightarrow>
     (\<forall>i < length (hist (mem s) LNum). val_num (mval (mem s) LNum i) = of_nat i) \<and>
     (\<forall>t sl e w. tpc (thr s t) = AfterStore e w \<and> tslot (thr s t) = Some sl \<longrightarrow> w = last_word s sl) \<and>
     (\<forall>t h. tpc (thr s t) = Notifying h NClear \<longrightarrow> info_writer s = Some t) \<and>
     (subscriber_info s \<noteq> None \<longrightarrow> info_writer s = None)"

abbreviation in_round :: "'e opc \<Rightarrow> bool" where
  "in_round p \<equiv> waiting p \<and> p \<noteq> OSub"

definition registered :: "('e, 'g) oper \<Rightarrow> bool" where
  "registered r \<longleftrightarrow> opc r \<noteq> OSnap \<and> had_already_registered (subscr r)"

definition consumed :: "('e, 'g) sys \<Rightarrow> ('e, 'g) oper \<Rightarrow> bool" where
  "consumed s r \<longleftrightarrow> registered r \<and> subscriber_info s = None"

fun listening :: "'e opc \<Rightarrow> bool" where
  "listening OReady = False"
| "listening (OScanEnd b) = (\<not> b)"
| "listening (ODrop _) = False"
| "listening (ODropInfo _) = False"
| "listening p = in_round p"

definition listen_clause :: "('e, 'g) sys \<Rightarrow> ('e, 'g) oper \<Rightarrow> loc view \<Rightarrow> bool" where
  "listen_clause s r X \<longleftrightarrow> listening (opc r) \<and> \<not> consumed s r \<longrightarrow>
     val_bool (mval (mem s) LHasSub (last_ix (mem s) LHasSub)) \<and>
     last_ix (mem s) LHasSub \<le> (if opc r = OSnap \<or> opc r = OFence then X LHasSub else scv (mem s) LHasSub)"

text \<open>The scan fails on a word only where someone has to notify.\<close>

definition misses_told :: "('w::len, 'g::len) rcu \<Rightarrow> 'w word wait \<Rightarrow> nat \<Rightarrow> loc view \<Rightarrow> bool" where
  "misses_told s w sn X \<longleftrightarrow> (\<forall>sl k. X (LSlot sl) \<le> k \<and> k < nwords s sl \<and> \<not> slot_ok w (word_at s sl k) \<longrightarrow>
     owed s w sn \<or> heard s sn X)"

definition promise :: "('w::len, 'g::len) rcu \<Rightarrow> ('w word, 'g word) oper \<Rightarrow> loc view \<Rightarrow> nat \<Rightarrow> bool" where
  "promise s r X sn \<longleftrightarrow>
     (case opc r of
        OTid \<Rightarrow> misses_told s (wait_for r) sn X
      | OScanBegin \<Rightarrow> misses_told s (wait_for r) sn X
      | OScan \<Rightarrow> misses_told s (wait_for r) sn X
      | OScanEnd b \<Rightarrow> b \<or> owed s (wait_for r) sn \<or> heard s sn X
      | OPoll1 \<Rightarrow> owed s (wait_for r) sn \<or> \<not> registered r \<and> heard s sn X
      | OReg \<Rightarrow> owed s (wait_for r) sn \<or> \<not> registered r \<and> heard s sn X
      | ORegW _ _ \<Rightarrow> owed s (wait_for r) sn
      | OPoll2 \<Rightarrow> owed s (wait_for r) sn \<or> sn < X LNum
      | OPend \<Rightarrow> owed s (wait_for r) sn
      | _ \<Rightarrow> True)"

definition snapshot_clause :: "('w::len, 'g::len) rcu \<Rightarrow> ('w word, 'g word) oper \<Rightarrow> loc view \<Rightarrow> bool" where
  "snapshot_clause s r X \<longleftrightarrow> opc r \<noteq> OSnap \<longrightarrow> (\<exists>sn. num_notifications_snapshot (subscr r) = of_nat sn \<and>
     sn < length (hist (mem s) LNum) \<and> sn \<le> X LNum \<and> (\<not> consumed s r \<longrightarrow> promise s r X sn))"

text \<open>The thread that polled the subscriber last has seen the epoch id, and publishes it when the poll ends.\<close>

definition has_seen :: "('w::len, 'g::len) rcu \<Rightarrow> 'w word wait \<Rightarrow> tid \<Rightarrow> bool" where
  "has_seen s w u \<longleftrightarrow> epoch_ix s \<le> cur (mem s) u LEpoch \<and>
     (case tpc (thr s u) of
        Polling \<Rightarrow> True | StartFence _ \<Rightarrow> True | StartLoad _ \<Rightarrow> True
      | StartStore _ e \<Rightarrow> e = epoch_at s (epoch_ix s) | AfterLoad e \<Rightarrow> e = epoch_at s (epoch_ix s)
      | AfterStore e _ \<Rightarrow> e = epoch_at s (epoch_ix s)
      | _ \<Rightarrow> \<forall>sl. tslot (thr s u) = Some sl \<longrightarrow> slot_ok w (last_word s sl))"

fun reg_pos :: "'e opc \<Rightarrow> bool \<Rightarrow> bool" where
  "reg_pos OFence b = (\<not> b)"
| "reg_pos OTid b = (\<not> b)"
| "reg_pos OScanBegin b = (\<not> b)"
| "reg_pos OScan b = (\<not> b)"
| "reg_pos (OScanEnd _) b = (\<not> b)"
| "reg_pos (ORegW _ _) b = b"
| "reg_pos OPoll2 b = b"
| "reg_pos OPend b = b"
| "reg_pos _ b = True"

definition reg_clause :: "('w::len, 'g::len) rcu \<Rightarrow> ('w word, 'g word) oper \<Rightarrow> bool" where
  "reg_clause s r \<longleftrightarrow>
     (\<not> registered r \<longrightarrow> subscriber_info s = None \<and> info_writer s = None) \<and> reg_pos (opc r) (registered r) \<and>
     (\<forall>w u. subscriber_info s = Some (w, u) \<longrightarrow> has_seen s (wait_for r) u)"

definition round_inv :: "('w::len, 'g::len) rcu \<Rightarrow> ('w word, 'g word) oper \<Rightarrow> loc view \<Rightarrow> bool" where
  "round_inv s r X \<longleftrightarrow> reg_clause s r \<and> listen_clause s r X \<and> snapshot_clause s r X"

text \<open>The counter of the notifications may go round once.\<close>

definition wake_inv :: "('w::len, 'g::len) rcu \<Rightarrow> bool" where
  "wake_inv s \<longleftrightarrow> edges_inv s \<and> info_inv s \<and>
     (length (hist (mem s) LNum) \<le> 2 ^ 64 \<longrightarrow>
       ((\<forall>q. \<not> in_round (opc (ops s q))) \<longrightarrow> subscriber_info s = None \<and> info_writer s = None) \<and>
       (\<forall>q. in_round (opc (ops s q)) \<longrightarrow> round_inv s (ops s q) (opview s q)))"

subsection \<open>Words\<close>

lemma words_sameD:
  assumes "words_same s s'"
  shows "nwords s' x = nwords s x" and "word_at s' x k = word_at s x k" and "last_ix (mem s') (LSlot x) = last_ix (mem s) (LSlot x)"
  using assms by (auto simp: words_same_def mval_def last_ix_def)

lemma appendedD:
  assumes "appended s s' sl v"
  shows "nwords s' x = (if x = sl then Suc (nwords s sl) else nwords s x)"
    and "k < nwords s x \<Longrightarrow> word_at s' x k = word_at s x k"
    and "word_at s' sl (nwords s sl) = v"
    and "last_word s' x = (if x = sl then v else last_word s x)"
  using assms by (cases "x = sl"; auto simp: appended_def mval_def last_ix_def nth_append)+

lemma busy_zero_not_ok:
  assumes "thread_inv s" and "2 < LENGTH('w)" and "wait_epochs s w"
  shows "\<not> slot_ok w (encode (busy_state (0 :: 'w::len word)))"
proof (cases "real_wait w")
  case True
  then show ?thesis
    using wait_predicate_zero [OF assms(1,2,3) True] by (simp add: slot_ok_cases)
next
  case False
  have "(EPOCH_ID_MIN :: 'w word) \<noteq> 0"
    using valid_epoch_min(1) [OF assms(2)] by (auto simp: valid_epoch_def)
  with False show ?thesis
    by (cases w) (auto simp: slot_ok_cases)
qed

lemma latest_ok:
  assumes "wait_epochs s w"
  shows "last_seen_epoch_id_predicate w (epoch_at s (epoch_ix s))"
  using assms by (cases w) (auto simp: after_max_def last_ix_def)

lemma latest_word_ok:
  assumes "thread_inv s" and "wait_epochs s w"
  shows "slot_ok w (encode (busy_state (epoch_at s (epoch_ix s))))"
proof -
  have "epoch_ix s < nepochs s"
    using nonempty(1) [OF assms(1)] by (simp add: last_ix_def)
  then have "even (epoch_at s (epoch_ix s))"
    using thread_invD(4) [OF assms(1)] by (auto simp: inv_epochs_def valid_epoch_def bit_0)
  then show ?thesis
    using latest_ok [OF assms(2)] by (simp add: slot_ok_cases)
qed

end
