(* ===== verification/Wake_Hooks.thy ===== *)
theory Wake_Hooks
  imports Wake_Inv
begin

text \<open>
  The hooks keep what \<open>wake_inv\<close> says of a waiting call.
\<close>

subsection \<open>The notifier\<close>

lemma notify_keeps:
  assumes "thread_epoch_updated_notify_inner skip h n t i s = Some s'"
  shows "words_same s s'" and "scv (mem s') = scv (mem s)" and "tslot (thr s' t) = tslot (thr s t)"
    and "subscriber_info s' = subscriber_info s \<or> subscriber_info s' = None \<and> info_writer s = None"
    and "subscriber_info s = None \<Longrightarrow> info_writer s = None \<Longrightarrow> subscriber_info s' = None \<and> info_writer s' = None"
    and "tpc (thr s' t) = after_hook h \<or> (\<exists>n'. tpc (thr s' t) = Notifying h n')"
    and "n \<noteq> NClear \<Longrightarrow> hist (mem s') LHasSub = hist (mem s) LHasSub"
    and "n \<noteq> NAdd \<Longrightarrow> hist (mem s') LNum = hist (mem s) LNum"
  using assms by (cases n; auto simp: words_same_def upd_defs view_simps Let_def split: if_splits option.splits)+

subsection \<open>One step of a hook\<close>

definition hook_step :: "tid \<Rightarrow> ('w::len, 'g::len) rcu \<Rightarrow> ('w, 'g) rcu \<Rightarrow> bool" where
  "hook_step t s s' \<longleftrightarrow> 2 < LENGTH('w) \<and> thread_inv s \<and> thread_inv s' \<and> hooks_inv s \<and> hook_kind t s s' \<and>
     (\<forall>u. u \<noteq> t \<longrightarrow> thr s' u = thr s u) \<and> grows (mem s) (mem s') \<and> hist (mem s') LEpoch = hist (mem s) LEpoch \<and>
     edges_inv s \<and> info_inv s"

lemma hstep_len: "hook_step t (s :: ('w::len, 'g::len) rcu) s' \<Longrightarrow> 2 < LENGTH('w)"
  and hstep_inv: "hook_step t s s' \<Longrightarrow> thread_inv s"
  and hstep_inv': "hook_step t s s' \<Longrightarrow> thread_inv s'"
  and hstep_hooks: "hook_step t s s' \<Longrightarrow> hooks_inv s"
  and hstep_kind: "hook_step t s s' \<Longrightarrow> hook_kind t s s'"
  and hstep_oth: "hook_step t s s' \<Longrightarrow> u \<noteq> t \<Longrightarrow> thr s' u = thr s u"
  and hstep_grows: "hook_step t s s' \<Longrightarrow> grows (mem s) (mem s')"
  and hstep_epoch: "hook_step t s s' \<Longrightarrow> hist (mem s') LEpoch = hist (mem s) LEpoch"
  and hstep_edges: "hook_step t s s' \<Longrightarrow> edges_inv s"
  and hstep_info: "hook_step t s s' \<Longrightarrow> info_inv s"
  by (simp_all add: hook_step_def)

lemmas hstep_G = growsD [OF hstep_grows]

lemma info_step:
  assumes H: "hook_step t s s'"
  shows "subscriber_info s' = subscriber_info s \<or> subscriber_info s' = None"
    and "subscriber_info s = None \<Longrightarrow> info_writer s = None \<Longrightarrow> subscriber_info s' = None \<and> info_writer s' = None"
  using hstep_kind [OF H] notify_keeps(4, 5) by (cases rule: hook_kind.cases; fastforce simp: info_same_def)+

lemma notifying_mono:
  assumes H: "hook_step t s s'" and n: "notifying s sn u" and "tpc (thr s' u) = tpc (thr s u)" and "hist (mem s') LHasSub = hist (mem s) LHasSub"
  shows "notifying s' sn u"
proof -
  have "\<not> skips s' u h" if "\<not> skips s u h" for h
    using that info_step(1) [OF H] by (auto simp: skips_def)
  moreover have "cur (mem s) u LHasSub \<le> cur (mem s') u LHasSub" "cur (mem s) u LNum \<le> cur (mem s') u LNum"
    using hstep_G(1) [OF H, of u] by (auto dest: le_funD)
  ultimately show ?thesis
    using n assms(3, 4) by (auto simp: notifying_def last_ix_def split: tpc.splits notify_pc.splits)
qed

lemma owner_unique:
  assumes H: "hook_step t s s'"
  shows "tslot (thr s u) = Some sl \<Longrightarrow> tslot (thr s x) = Some sl \<Longrightarrow> u = x"
    and "tslot (thr s' u) = Some sl \<Longrightarrow> tslot (thr s' x) = Some sl \<Longrightarrow> u = x"
  using thread_invD(5) [OF hstep_inv [OF H]] thread_invD(5) [OF hstep_inv' [OF H]] unfolding inv_owner_def by blast+

lemma heard_mono:
  assumes H: "hook_step t s s'"
  shows "heard s sn X \<Longrightarrow> X \<le> X' \<Longrightarrow> heard s' sn X'"
  using hstep_G(3) [OF H, of LkInfoR] hstep_G(3) [OF H, of LkInfoW] unfolding heard_def by (meson le_funD order_less_le_trans)

lemma late_words: "words_same s s' \<Longrightarrow> late s w \<Longrightarrow> late s' w"
  by (auto simp: late_def words_sameD)

text \<open>The hook of the thread itself, when it has notified nobody yet.\<close>

lemma notify_owed:
  assumes n: "notifying s sn t" and p: "tpc (thr s t) = Notifying h n"
    and st: "thread_epoch_updated_notify_inner (h = Park) h n t i s = Some s'"
    and sub: "val_bool (mval (mem s) LHasSub (last_ix (mem s) LHasSub))"
    and sn: "sn < length (hist (mem s) LNum)"
  shows "notifying s' sn t \<or> subscriber_info s' = None \<and> (subscriber_info s = None \<longrightarrow> heard s' sn X)"
proof (cases n)
  case NLoad
  then have "i = last_ix (mem s) LHasSub"
    using n st p by (auto simp: notifying_def readable_def last_ix_def split: if_splits)
  then have "tpc (thr s' t) = Notifying h NAdd" "subscriber_info s' = subscriber_info s"
    using st sub NLoad by (auto simp: upd_defs split: if_splits)
  then show ?thesis
    using n p by (auto simp: notifying_def skips_def)
next
  case NAdd
  then have "tpc (thr s' t) = Notifying h NRead" "subscriber_info s' = subscriber_info s" "sn < cur (mem s') t LNum"
    using st sn by (auto simp: upd_defs view_simps)
  then show ?thesis
    using n p by (auto simp: notifying_def skips_def)
next
  case NRead
  then show ?thesis
    using n p st by (auto simp: notifying_def skips_def heard_def upd_defs view_simps split: if_splits option.splits)
next
  case NWrite
  then show ?thesis
    using n p st by (auto simp: notifying_def skips_def heard_def upd_defs view_simps Let_def split: if_splits option.splits)
qed (use n p in \<open>simp add: notifying_def\<close>)

text \<open>A state that does not change is written as the same word.\<close>

lemma rewritten:
  assumes H: "hook_step t s s'" and p: "tpc (thr s t) = AfterStore e x" and sl: "tslot (thr s t) = Some sl" and d: "decode x = Some st"
    and e: "last_seen_epoch_id st = e"
  shows "encode (busy_state e) = last_word s sl"
proof -
  have "x = last_word s sl"
    using hstep_info [OF H] p sl unfolding info_inv_def by blast
  moreover have "is_busy st"
    using hooks_invD(3) [OF hstep_hooks [OF H] p] d by (simp add: word_busy_def)
  then have "st = busy_state e"
    using e by (cases st) simp
  ultimately show ?thesis
    using encode_decode [OF d] by simp
qed

text \<open>A thread that publishes the epoch id has to notify, unless it has published it before.\<close>

lemma published:
  assumes H: "hook_step t s s'" and w: "write_move s s' t sl v" and late: "\<not> slot_ok w (last_word s sl)" and ok: "slot_ok w v"
    and we: "wait_epochs s w" and seen: "\<And>w0 u. subscriber_info s = Some (w0, u) \<Longrightarrow> has_seen s w u"
    and same: "subscriber_info s' = subscriber_info s"
  shows "notifying s' sn t"
proof -
  have bz: "v \<noteq> encode (busy_state 0)"
    using ok busy_zero_not_ok [OF hstep_inv [OF H] hstep_len [OF H] we] by blast
  have pr: "proper (tpc (thr s t))"
    using thread_invD(6) [OF hstep_inv [OF H]] by (simp add: inv_pos_def)
  consider h e where "tpc (thr s t) = StartStore h e" "tpc (thr s' t) = NotifyFence h"
    | e x st where "tslot (thr s t) = Some sl" "tpc (thr s t) = AfterStore e x" "decode x = Some st" "v = encode (busy_state e)"
        "tpc (thr s' t) = NotifyFence AfterPoll \<or> last_seen_epoch_id st = e"
    | "tslot (thr s t) = Some sl" "tpc (thr s t) = Idle" "tpc (thr s' t) = NotifyFence Park"
    | "tpc (thr s' t) = NotifyFence Stop"
    using w bz unfolding write_move_def Let_def by blast
  then show ?thesis
  proof cases
    case 1
    then have "h \<noteq> Park"
      using pr by auto
    then show ?thesis
      using 1 by (simp add: notifying_def skips_def)
  next
    case 2
    have "last_seen_epoch_id st \<noteq> e"
      using rewritten [OF H 2(2, 1, 3)] 2(4) late ok by auto
    then show ?thesis
      using 2(5) by (simp add: notifying_def skips_def)
  next
    case 3
    have "\<not> skips s' t Park"
    proof
      assume "skips s' t Park"
      then obtain w0 where "subscriber_info s = Some (w0, t)"
        using same by (auto simp: skips_def)
      from seen [OF this] 3 late show False
        by (simp add: has_seen_def)
    qed
    then show ?thesis
      using 3 by (simp add: notifying_def)
  qed (simp add: notifying_def skips_def)
qed

lemma owed_step:
  assumes H: "hook_step t s s'" and o: "owed s w sn" and we: "wait_epochs s w"
    and seen: "\<And>w0 u. subscriber_info s = Some (w0, u) \<Longrightarrow> has_seen s w u"
    and wr: "info_writer s = None" and sub: "val_bool (mval (mem s) LHasSub (last_ix (mem s) LHasSub))"
    and sc: "last_ix (mem s) LHasSub \<le> scv (mem s) LHasSub" and sn: "sn < length (hist (mem s) LNum)"
  shows "owed s' w sn \<or> subscriber_info s' = None \<and> (subscriber_info s = None \<longrightarrow> heard s' sn X)"
  using hstep_kind [OF H]
proof (cases rule: hook_kind.cases)
  case silent
  have "notifying s' sn u" if n: "notifying s sn u" for u
  proof (cases "u = t")
    case True
    with n silent(5) show ?thesis
      by (auto simp: notifying_def silent_move_def split: tpc.splits)
  next
    case False
    then show ?thesis
      using silent(2) hstep_oth [OF H False] by (intro notifying_mono [OF H n]) (auto simp: info_same_def)
  qed
  then show ?thesis
    using o late_words [OF silent(1)] by (auto simp: owed_def)
next
  case (fence h)
  have "notifying s' sn u" if n: "notifying s sn u" for u
  proof (cases "u = t")
    case True
    with n fence(5) have p: "tpc (thr s t) = NotifyFence h" "tpc (thr s' t) = Notifying h NLoad"
      by (auto simp: notifying_def)
    have "last_ix (mem s') LHasSub \<le> cur (mem s') t LHasSub"
      using fence(2, 3) sc hstep_G(2) [OF H] by (auto simp: info_same_def last_ix_def dest: le_funD [of _ _ LHasSub])
    then show ?thesis
      using n p True fence(2) by (auto simp: notifying_def skips_def info_same_def)
  next
    case False
    then show ?thesis
      using fence(2) hstep_oth [OF H False] by (intro notifying_mono [OF H n]) (auto simp: info_same_def)
  qed
  then show ?thesis
    using o late_words [OF fence(1)] by (auto simp: owed_def)
next
  case (writes sl v)
  note A = appendedD [OF writes(1)]
  have i: "subscriber_info s' = subscriber_info s" "hist (mem s') LHasSub = hist (mem s) LHasSub"
    using writes(2) by (simp_all add: info_same_def)
  have "notifying s' sn u" if n: "notifying s sn u" for u
  proof (cases "u = t")
    case True
    with n writes(5) show ?thesis
      by (auto simp: notifying_def write_move_def Let_def split: tpc.splits)
  next
    case False
    then show ?thesis
      using i hstep_oth [OF H False] by (intro notifying_mono [OF H n]) auto
  qed
  moreover have "late s' w \<or> notifying s' sn t" if l: "late s w"
  proof -
    obtain x where x: "nwords s x \<noteq> 0" "\<not> slot_ok w (last_word s x)"
      using l unfolding late_def by blast
    show ?thesis
    proof (cases "x = sl \<and> slot_ok w v")
      case True
      then have "notifying s' sn t"
        by (intro published [OF H writes(5) _ _ we _ i(1)]) (use x seen in simp_all)
      then show ?thesis ..
    next
      case False
      then have "nwords s' x \<noteq> 0 \<and> \<not> slot_ok w (last_word s' x)"
        using x A(1) [of x] A(4) [of x] by auto
      then show ?thesis
        unfolding late_def by blast
    qed
  qed
  ultimately show ?thesis
    using o by (auto simp: owed_def)
next
  case (notify h n i)
  note K = notify_keeps [OF notify(2)]
  have "n \<noteq> NClear"
    using hstep_info [OF H] wr notify(1) by (auto simp: info_inv_def)
  then have "notifying s' sn u" if "notifying s sn u" "u \<noteq> t" for u
    using K(7) hstep_oth [OF H that(2)] by (intro notifying_mono [OF H that(1)]) auto
  moreover have "notifying s' sn t \<or> subscriber_info s' = None \<and> (subscriber_info s = None \<longrightarrow> heard s' sn X)"
    if "notifying s sn t"
    by (rule notify_owed [OF that notify sub sn])
  ultimately show ?thesis
    using o late_words [OF K(1)] unfolding owed_def by metis
qed

subsection \<open>The invariant after the step\<close>

lemma write_owner: "write_move s s' t sl v \<Longrightarrow> tslot (thr s t) = Some sl \<or> tslot (thr s' t) = Some sl"
  by (auto simp: write_move_def Let_def)

lemma own_word_same:
  assumes H: "hook_step t s s'" and "u \<noteq> t" and "tslot (thr s u) = Some x"
  shows "last_word s' x = last_word s x"
  using hstep_kind [OF H]
proof (cases rule: hook_kind.cases)
  case (writes sl v)
  have "x \<noteq> sl"
    using write_owner [OF writes(5)] owner_unique [OF H, of u x t] assms(2, 3) hstep_oth [OF H assms(2)] by auto
  then show ?thesis
    using appendedD(4) [OF writes(1)] by simp
qed (auto simp: words_sameD dest: notify_keeps(1))

lemma same_epochs:
  assumes H: "hook_step t s s'"
  shows "epoch_ix s' = epoch_ix s"
    and "epoch_at s' j = epoch_at s j"
    and "nepochs s' = nepochs s"
    and "wait_epochs s' w = wait_epochs s w"
proof -
  show E: "epoch_ix s' = epoch_ix s" "epoch_at s' j = epoch_at s j" "nepochs s' = nepochs s" for j
    by (simp_all add: last_ix_def mval_def hstep_epoch [OF H])
  show "wait_epochs s' w = wait_epochs s w"
    by (cases w) (simp_all add: E after_max_def)
qed

lemma has_seen_step:
  assumes H: "hook_step t s s'" and se: "has_seen s w u" and we: "wait_epochs s w"
  shows "has_seen s' w u"
proof -
  have c: "epoch_ix s' \<le> cur (mem s') u LEpoch"
    using se hstep_G(1) [OF H, of u] by (auto simp: has_seen_def same_epochs [OF H] dest: le_funD [of _ _ LEpoch])
  show ?thesis
  proof (cases "u = t")
    case False
    then show ?thesis
      using se c hstep_oth [OF H False] own_word_same [OF H False] by (auto simp: has_seen_def same_epochs [OF H] split: tpc.splits)
  next
    case True
    have latest: "slot_ok w (encode (busy_state (epoch_at s (epoch_ix s))))"
      by (rule latest_word_ok [OF hstep_inv [OF H] we])
    have rd: "i = epoch_ix s" if "readable t LEpoch i (mem s)" for i
      using se that True by (auto simp: has_seen_def readable_def last_ix_def)
    from hstep_kind [OF H] show ?thesis
    proof (cases rule: hook_kind.cases)
      case silent
      then show ?thesis
        using se c rd True by (auto simp: has_seen_def silent_move_def same_epochs [OF H])
    next
      case (fence h)
      then show ?thesis
        using se c True by (auto simp: has_seen_def words_sameD)
    next
      case (writes sl v)
      then show ?thesis
        using se c True latest appendedD(4) [OF writes(1)]
        by (auto simp: has_seen_def write_move_def Let_def slot_ok_cases)
    next
      case (notify h n i)
      note K = notify_keeps [OF notify(2)]
      show ?thesis
        using se c True notify(1) K(3, 6) words_sameD [OF K(1)] by (cases h) (auto simp: has_seen_def)
    qed
  qed
qed

lemma edges_step:
  assumes H: "hook_step t s s'"
  shows "edges_inv s'"
  unfolding edges_inv_def
proof (intro allI impI, elim conjE)
  fix x j
  assume sc: "scv (mem s') (LSlot x) \<le> j" and j: "Suc j < nwords s' x" and d: "word_at s' x j \<noteq> word_at s' x (Suc j)"
  let ?author = "\<lambda>s u. Suc j \<le> cur (mem s) u (LSlot x) \<and> ((\<exists>h. tpc (thr s u) = NotifyFence h) \<or>
      (\<exists>h. tpc (thr s u) = StartFence h) \<and> word_at s x (Suc j) = encode (busy_state 0))"
  have sc0: "scv (mem s) (LSlot x) \<le> j"
    using sc hstep_G(2) [OF H] by (meson le_funD order_trans)
  have old: "\<exists>u. ?author s u" if "Suc j < nwords s x" "word_at s x j \<noteq> word_at s x (Suc j)"
    using hstep_edges [OF H] that sc0 unfolding edges_inv_def by blast
  have keep: "?author s' u" if "?author s u" "u \<noteq> t" "word_at s' x (Suc j) = word_at s x (Suc j)" for u
    using that hstep_oth [OF H that(2)] hstep_G(1) [OF H, of u] by (auto dest: le_funD [of _ _ "LSlot x"])
  from hstep_kind [OF H] show "\<exists>u. ?author s' u"
  proof (cases rule: hook_kind.cases)
    case silent
    note W = words_sameD [OF silent(1)]
    obtain u where u: "?author s u"
      using old j d by (auto simp: W)
    with silent(5) have "u \<noteq> t"
      by (auto simp: silent_move_def)
    then show ?thesis
      using keep [OF u] W(2) by blast
  next
    case (fence h)
    note W = words_sameD [OF fence(1)]
    obtain u where u: "?author s u"
      using old j d by (auto simp: W)
    have "u \<noteq> t"
    proof
      assume "u = t"
      with u have "Suc j \<le> cur (mem s) t (LSlot x)"
        by simp
      then have "Suc j \<le> cur (mem s') t (LSlot x)"
        using hstep_G(1) [OF H, of t] by (meson le_funD order_trans)
      with sc fence(3) show False
        by simp
    qed
    then show ?thesis
      using keep [OF u] W(2) by blast
  next
    case (writes sl v)
    note A = appendedD [OF writes(1)]
    show ?thesis
    proof (cases "Suc j < nwords s x")
      case True
      then obtain u where u: "?author s u"
        using old d A(2) by fastforce
      with writes(5) have "u \<noteq> t"
        by (auto simp: write_move_def Let_def)
      then show ?thesis
        using keep [OF u] A(2) [OF True] by blast
    next
      case False
      then have x: "x = sl" "Suc j = nwords s sl"
        using j A(1) [of x] by (auto split: if_splits)
      then have "word_at s' sl j = last_word s sl"
        using A(2) [of j sl] x(2) [symmetric] by (simp add: last_ix_def)
      then have v: "v \<noteq> last_word s sl"
        using d A(3) x by simp
      have "?author s' t"
        using writes(4, 5) x v A(3) by (auto simp: write_move_def Let_def dest: rewritten [OF H])
      then show ?thesis ..
    qed
  next
    case (notify h n i)
    note W = words_sameD [OF notify_keeps(1) [OF notify(2)]]
    obtain u where u: "?author s u"
      using old j d by (auto simp: W)
    with notify(1) have "u \<noteq> t"
      by auto
    then show ?thesis
      using keep [OF u] W(2) by blast
  qed
qed

lemma num_step:
  assumes H: "hook_step t s s'" and i: "i < length (hist (mem s') LNum)"
  shows "val_num (mval (mem s') LNum i) = of_nat i"
proof -
  have old: "val_num (mval (mem s) LNum i) = of_nat i" if "i < length (hist (mem s) LNum)" for i
    using hstep_info [OF H] that unfolding info_inv_def by blast
  consider "hist (mem s') LNum = hist (mem s) LNum"
    | W where "hist (mem s') LNum = hist (mem s) LNum @
        [(VNum (val_num (mval (mem s) LNum (last_ix (mem s) LNum)) + 1), W)]"
    using hstep_kind [OF H]
  proof (cases rule: hook_kind.cases)
    case (notify h n i)
    then show ?thesis
      using that notify_keeps(8) [OF notify(2)] by (cases n) (auto simp: upd_defs view_simps)
  qed (auto simp: info_same_def intro: that)
  then show ?thesis
  proof cases
    case 1
    then show ?thesis
      using old i by (simp add: mval_def)
  next
    case (2 W)
    then obtain n where "length (hist (mem s) LNum) = Suc n"
      using nonempty(3) [OF hstep_inv [OF H]] by (cases "hist (mem s) LNum") auto
    with 2 show ?thesis
      using old [of i] old [of "last_ix (mem s) LNum"] i nonempty(3) [OF hstep_inv [OF H]]
      by (cases "i = length (hist (mem s) LNum)") (auto simp: mval_def last_ix_def nth_append)
  qed
qed

lemma own_state_step:
  assumes H: "hook_step t s s'" and p: "tpc (thr s' u) = AfterStore e w" and sl: "tslot (thr s' u) = Some x"
  shows "w = last_word s' x"
proof (cases "u = t")
  case True
  from hstep_kind [OF H] show ?thesis
  proof (cases rule: hook_kind.cases)
    case silent
    with True p obtain y i where "tslot (thr s t) = Some y" "readable t (LSlot y) i (mem s)" "w = word_at s y i"
      by (auto simp: silent_move_def)
    moreover have "x = y"
      using calculation(1) silent(4) sl True by simp
    ultimately show ?thesis
      using own_word [OF hstep_inv [OF H]] words_sameD(2, 3) [OF silent(1)] by simp
  next
    case (notify h n i)
    then show ?thesis
      using notify_keeps(6) [OF notify(2)] p True by (cases h) auto
  qed (use p True in \<open>auto simp: write_move_def Let_def\<close>)
next
  case False
  then show ?thesis
    using p sl hstep_oth [OF H False] own_word_same [OF H False] hstep_info [OF H] unfolding info_inv_def by metis
qed

lemma clear_step:
  assumes H: "hook_step t s s'" and p: "tpc (thr s' u) = Notifying h NClear"
  shows "info_writer s' = Some u"
proof (cases "u = t")
  case True
  from hstep_kind [OF H] show ?thesis
  proof (cases rule: hook_kind.cases)
    case (notify h' n i)
    then show ?thesis
      using p True by (cases n; cases h') (auto simp: upd_defs Let_def split: if_splits option.splits)
  qed (use p True in \<open>auto simp: silent_move_def write_move_def Let_def\<close>)
next
  case False
  then have w: "info_writer s = Some u"
    using p hstep_oth [OF H False] hstep_info [OF H] unfolding info_inv_def by metis
  from hstep_kind [OF H] show ?thesis
  proof (cases rule: hook_kind.cases)
    case (notify h' n i)
    have "n \<noteq> NClear"
      using hstep_info [OF H] notify(1) w False unfolding info_inv_def by auto
    then show ?thesis
      using notify(2) w by (cases n) (auto simp: upd_defs Let_def split: if_splits option.splits)
  qed (use w in \<open>auto simp: info_same_def\<close>)
qed

lemma writer_step:
  assumes H: "hook_step t s s'"
  shows "subscriber_info s' \<noteq> None \<Longrightarrow> info_writer s' = None"
proof -
  assume a: "subscriber_info s' \<noteq> None"
  then have w: "info_writer s = None"
    using info_step(1) [OF H] hstep_info [OF H] by (auto simp: info_inv_def)
  from hstep_kind [OF H] show ?thesis
  proof (cases rule: hook_kind.cases)
    case (notify h' n i)
    then show ?thesis
      using w a by (cases n) (auto simp: upd_defs Let_def split: if_splits option.splits)
  qed (use w in \<open>auto simp: info_same_def\<close>)
qed

lemma info_inv_step:
  assumes H: "hook_step t s s'"
  shows "info_inv s'"
  unfolding info_inv_def using num_step [OF H] own_state_step [OF H] clear_step [OF H] writer_step [OF H] by blast

subsection \<open>The clauses of a waiting call\<close>

lemma consumed_step:
  assumes H: "hook_step t s s'"
  shows "\<not> consumed s' r \<Longrightarrow> \<not> consumed s r"
  using info_step(1) [OF H] by (auto simp: consumed_def)

lemma reg_step:
  assumes H: "hook_step t s s'" and rg: "reg_clause s r" and we: "wait_epochs s (wait_for r)"
  shows "reg_clause s' r"
proof -
  have "has_seen s' (wait_for r) u" if "subscriber_info s' = Some (w, u)" for w u
  proof (rule has_seen_step [OF H _ we])
    have "subscriber_info s = Some (w, u)"
      using that info_step(1) [OF H] by auto
    then show "has_seen s (wait_for r) u"
      using rg unfolding reg_clause_def by blast
  qed
  moreover have "subscriber_info s' = None \<and> info_writer s' = None" if "\<not> registered r"
    using rg that info_step(2) [OF H] unfolding reg_clause_def by blast
  ultimately show ?thesis
    using rg unfolding reg_clause_def by blast
qed

text \<open>Nobody holds the subscriber information as long as the subscriber has not been woken.\<close>

lemma no_writer:
  assumes H: "hook_step t s s'" and "reg_clause s r" and "\<not> consumed s r"
  shows "info_writer s = None"
  using assms(2, 3) hstep_info [OF H] by (auto simp: reg_clause_def consumed_def info_inv_def)

lemma flag_same:
  assumes H: "hook_step t s s'" and "info_writer s = None"
  shows "hist (mem s') LHasSub = hist (mem s) LHasSub"
  using hstep_kind [OF H]
proof (cases rule: hook_kind.cases)
  case (notify h n i)
  then have "n \<noteq> NClear"
    using assms(2) hstep_info [OF H] by (auto simp: info_inv_def)
  then show ?thesis
    by (rule notify_keeps(7) [OF notify(2)])
qed (simp_all add: info_same_def)

lemma listen_step:
  assumes H: "hook_step t s s'" and "listen_clause s r X" and "reg_clause s r" and "X \<le> X'"
  shows "listen_clause s' r X'"
  unfolding listen_clause_def
proof (intro impI, elim conjE)
  assume l: "listening (opc r)" and c: "\<not> consumed s' r"
  have h: "hist (mem s') LHasSub = hist (mem s) LHasSub"
    by (rule flag_same [OF H no_writer [OF H assms(3) consumed_step [OF H c]]])
  have "X LHasSub \<le> X' LHasSub" "scv (mem s) LHasSub \<le> scv (mem s') LHasSub"
    using assms(4) hstep_G(2) [OF H] by (auto dest: le_funD)
  then show "val_bool (mval (mem s') LHasSub (last_ix (mem s') LHasSub)) \<and>
      last_ix (mem s') LHasSub \<le> (if opc r = OSnap \<or> opc r = OFence then X' LHasSub else scv (mem s') LHasSub)"
    using assms(2) l consumed_step [OF H c] unfolding listen_clause_def by (auto simp: last_ix_def mval_def h)
qed

lemma owed_after:
  assumes H: "hook_step t s s'" and o: "owed s (wait_for r) sn" and we: "wait_epochs s (wait_for r)" and rg: "reg_clause s r" and li: "listen_clause s r X"
    and p: "listening (opc r)" "opc r \<noteq> OSnap" "opc r \<noteq> OFence" and c: "\<not> consumed s' r"
    and sn: "sn < length (hist (mem s) LNum)"
  shows "owed s' (wait_for r) sn \<or> \<not> registered r \<and> heard s' sn X'"
proof -
  note c' = consumed_step [OF H c]
  have "owed s' (wait_for r) sn \<or> subscriber_info s' = None \<and> (subscriber_info s = None \<longrightarrow> heard s' sn X')"
    by (rule owed_step [OF H o we _ no_writer [OF H rg c'] _ _ sn])
      (use li p c' rg in \<open>auto simp: listen_clause_def reg_clause_def\<close>)
  then show ?thesis
    using c rg by (auto simp: consumed_def reg_clause_def)
qed

lemma misses_step:
  assumes H: "hook_step t s s'" and sc: "misses_told s w sn X" and o: "owed s w sn \<Longrightarrow> owed s' w sn \<or> heard s' sn X'" and X: "X \<le> X'"
  shows "misses_told s' w sn X'"
  unfolding misses_told_def
proof (intro allI impI, elim conjE)
  fix sl k
  assume k: "X' (LSlot sl) \<le> k" "k < nwords s' sl" "\<not> slot_ok w (word_at s' sl k)"
  show "owed s' w sn \<or> heard s' sn X'"
  proof (cases "k < nwords s sl")
    case True
    have "X (LSlot sl) \<le> k"
      using k(1) X by (meson le_funD order_trans)
    moreover have "word_at s' sl k = word_at s sl k"
      using hstep_G(7) [OF H True] by simp
    ultimately have "owed s w sn \<or> heard s sn X"
      using sc True k(3) unfolding misses_told_def by auto
    then show ?thesis
      using o heard_mono [OF H _ X] by blast
  next
    case False
    from hstep_kind [OF H] have "nwords s' sl = Suc k"
    proof (cases rule: hook_kind.cases)
      case (writes x v)
      then show ?thesis
        using False k(2) appendedD(1) [OF writes(1), of sl] by (auto split: if_splits)
    qed (use False k(2) in \<open>auto simp: words_sameD dest: notify_keeps(1)\<close>)
    then have "late s' w"
      using k(3) unfolding late_def last_ix_def by (metis diff_Suc_1 nat.distinct(1))
    then show ?thesis
      by (simp add: owed_def)
  qed
qed

lemma promise_step:
  assumes H: "hook_step t s s'" and pr: "promise s r X sn" and we: "wait_epochs s (wait_for r)" and rg: "reg_clause s r" and li: "listen_clause s r X"
    and c: "\<not> consumed s' r" and sn: "sn < length (hist (mem s) LNum)" and X: "X \<le> X'"
  shows "promise s' r X' sn"
proof -
  have O: "owed s' (wait_for r) sn \<or> \<not> registered r \<and> heard s' sn X'"
    if "owed s (wait_for r) sn" "listening (opc r)" "opc r \<noteq> OSnap" "opc r \<noteq> OFence"
    by (rule owed_after [OF H that(1) we rg li that(2-4) c sn])
  have h: "heard s sn X \<Longrightarrow> heard s' sn X'"
    by (rule heard_mono [OF H _ X])
  have x: "sn < X LNum \<Longrightarrow> sn < X' LNum"
    using X by (meson le_funD order_less_le_trans)
  note M = misses_step [OF H _ _ X]
  show ?thesis
  proof (cases "opc r")
    case OTid
    then show ?thesis
      using pr O M by (auto simp: promise_def)
  next
    case OScanBegin
    then show ?thesis
      using pr O M by (auto simp: promise_def)
  next
    case OScan
    then show ?thesis
      using pr O M by (auto simp: promise_def)
  next
    case (OScanEnd b)
    then show ?thesis
      using pr O h by (auto simp: promise_def)
  next
    case (ORegW a b)
    then show ?thesis
      using pr O rg by (auto simp: promise_def reg_clause_def)
  qed (use pr O h x rg in \<open>auto simp: promise_def reg_clause_def\<close>)
qed

lemma round_step:
  assumes H: "hook_step t s s'" and ri: "round_inv s r X" and we: "wait_epochs s (wait_for r)" and X: "X \<le> X'"
  shows "round_inv s' r X'"
proof -
  have C: "reg_clause s r" "listen_clause s r X" "snapshot_clause s r X"
    using ri by (simp_all add: round_inv_def)
  have "snapshot_clause s' r X'"
    unfolding snapshot_clause_def
  proof
    assume "opc r \<noteq> OSnap"
    then obtain sn where sn: "num_notifications_snapshot (subscr r) = of_nat sn" "sn < length (hist (mem s) LNum)" "sn \<le> X LNum"
        "\<not> consumed s r \<longrightarrow> promise s r X sn"
      using C(3) unfolding snapshot_clause_def by blast
    have "sn < length (hist (mem s') LNum)" "sn \<le> X' LNum"
      using sn(2, 3) hstep_G(4) [OF H, of LNum] X by (auto intro: order_trans dest: le_funD [of _ _ LNum])
    moreover have "promise s' r X' sn" if "\<not> consumed s' r"
      using promise_step [OF H _ we C(1, 2) that sn(2) X] sn(4) consumed_step [OF H that] by blast
    ultimately show "\<exists>sn. num_notifications_snapshot (subscr r) = of_nat sn \<and> sn < length (hist (mem s') LNum) \<and> sn \<le> X' LNum \<and>
        (\<not> consumed s' r \<longrightarrow> promise s' r X' sn)"
      using sn(1) by blast
  qed
  then show ?thesis
    using reg_step [OF H C(1) we] listen_step [OF H C(2, 1) X] by (simp add: round_inv_def)
qed

end
