(* ===== verification/Wake_Polls.thy ===== *)
theory Wake_Polls
  imports Wake_Hooks
begin

text \<open>
  The polls of futures and user code keep what \<open>wake_inv\<close> says of a waiting call.
\<close>

subsection \<open>Steps that change no thread and no state word\<close>

definition still :: "('e, 'g) sys \<Rightarrow> ('e, 'g) sys \<Rightarrow> bool" where
  "still s s' \<longleftrightarrow> words_same s s' \<and> grows (mem s) (mem s') \<and> hist (mem s') LNum = hist (mem s) LNum \<and>
     info_writer s' = info_writer s \<and> (\<forall>u. tpc (thr s' u) = tpc (thr s u) \<and> tslot (thr s' u) = tslot (thr s u))"

lemma stillD:
  assumes "still s s'"
  shows "words_same s s'" and "grows (mem s) (mem s')" and "hist (mem s') LNum = hist (mem s) LNum"
    and "info_writer s' = info_writer s" and "tpc (thr s' u) = tpc (thr s u)" and "tslot (thr s' u) = tslot (thr s u)"
    and "cur (mem s) u x \<le> cur (mem s') u x" and "scv (mem s) x \<le> scv (mem s') x" and "lv (mem s) k x \<le> lv (mem s') k x"
  using assms growsD(1-3) [of "mem s" "mem s'"] by (auto simp: still_def le_fun_def)

lemma edges_still:
  assumes st: "still s s'" and e: "edges_inv s"
  shows "edges_inv s'"
  unfolding edges_inv_def
proof (intro allI impI, elim conjE)
  fix sl j
  note W = words_sameD [OF stillD(1) [OF st]]
  assume "scv (mem s') (LSlot sl) \<le> j" and "Suc j < nwords s' sl" and "word_at s' sl j \<noteq> word_at s' sl (Suc j)"
  then have "scv (mem s) (LSlot sl) \<le> j" "Suc j < nwords s sl" "word_at s sl j \<noteq> word_at s sl (Suc j)"
    using stillD(8) [OF st, of "LSlot sl"] by (simp_all add: W)
  then obtain t where t: "Suc j \<le> cur (mem s) t (LSlot sl)"
      "(\<exists>h. tpc (thr s t) = NotifyFence h) \<or> (\<exists>h. tpc (thr s t) = StartFence h) \<and> word_at s sl (Suc j) = encode (busy_state 0)"
    using e unfolding edges_inv_def by blast
  then show "\<exists>t. Suc j \<le> cur (mem s') t (LSlot sl) \<and> ((\<exists>h. tpc (thr s' t) = NotifyFence h) \<or>
      (\<exists>h. tpc (thr s' t) = StartFence h) \<and> word_at s' sl (Suc j) = encode (busy_state 0))"
    using stillD(7) [OF st, of t "LSlot sl"] by (intro exI [of _ t]) (auto simp: W stillD(5) [OF st])
qed

lemma info_still:
  assumes st: "still s s'" and i: "info_inv s" and w: "subscriber_info s' \<noteq> None \<Longrightarrow> info_writer s = None"
  shows "info_inv s'"
  using i w stillD(3-6) [OF st] words_sameD [OF stillD(1) [OF st]] unfolding info_inv_def by (auto simp: mval_def)

text \<open>The facts a subscriber relies on. The registration may change, for a thread that is inside a poll.\<close>

definition flags_same :: "('e, 'g) sys \<Rightarrow> ('e, 'g) sys \<Rightarrow> bool" where
  "flags_same s s' \<longleftrightarrow> still s s' \<and> hist (mem s') LHasSub = hist (mem s) LHasSub \<and> hist (mem s') LEpoch = hist (mem s) LEpoch \<and>
     (\<forall>u h. skips s' u h \<longrightarrow> skips s u h \<or> tpc (thr s u) = Polling)"

lemma flags_sameD:
  assumes "flags_same s s'"
  shows "still s s'" and "hist (mem s') LHasSub = hist (mem s) LHasSub" and "hist (mem s') LEpoch = hist (mem s) LEpoch"
    and "skips s' u h \<Longrightarrow> skips s u h \<or> tpc (thr s u) = Polling"
  using assms by (auto simp: flags_same_def)

lemma notifying_flags:
  assumes f: "flags_same s s'" and n: "notifying s sn u"
  shows "notifying s' sn u"
proof -
  note S = stillD [OF flags_sameD(1) [OF f]]
  have "\<not> skips s' u h" if "\<not> skips s u h" for h
    using that flags_sameD(4) [OF f, of u h] n by (auto simp: notifying_def)
  then show ?thesis
    using n S(7) [of u LHasSub] S(7) [of u LNum] flags_sameD(2) [OF f]
    by (auto simp: notifying_def last_ix_def S(5) split: tpc.splits notify_pc.splits)
qed

lemma late_still: "still s s' \<Longrightarrow> late s w \<Longrightarrow> late s' w"
  by (rule late_words [OF stillD(1)])

lemma owed_flags: "flags_same s s' \<Longrightarrow> owed s w sn \<Longrightarrow> owed s' w sn"
  unfolding owed_def using late_still [OF flags_sameD(1)] notifying_flags by blast

lemma heard_still:
  assumes st: "still s s'" and h: "heard s sn X" and X: "X LNum \<le> X' LNum"
  shows "heard s' sn X'"
  using h X stillD(9) [OF st, of LkInfoR LNum] stillD(9) [OF st, of LkInfoW LNum] by (auto simp: heard_def)

lemma has_seen_still:
  assumes st: "still s s'" and e: "hist (mem s') LEpoch = hist (mem s) LEpoch" and se: "has_seen s w u"
  shows "has_seen s' w u"
proof -
  note S = stillD [OF st]
  have "epoch_ix s' = epoch_ix s" "epoch_at s' j = epoch_at s j" for j
    by (simp_all add: last_ix_def mval_def e)
  then show ?thesis
    using se S(7) [of u LEpoch] words_sameD [OF S(1)] by (auto simp: has_seen_def S(5, 6) split: tpc.splits)
qed

lemma misses_flags:
  assumes f: "flags_same s s'" and m: "misses_told s w sn X" and X: "X \<le> X'"
  shows "misses_told s' w sn X'"
  unfolding misses_told_def
proof (intro allI impI, elim conjE)
  fix sl k
  note W = words_sameD [OF stillD(1) [OF flags_sameD(1) [OF f]]]
  assume "X' (LSlot sl) \<le> k" and k: "k < nwords s' sl" "\<not> slot_ok w (word_at s' sl k)"
  then have "X (LSlot sl) \<le> k"
    using X by (meson le_funD order_trans)
  then have "owed s w sn \<or> heard s sn X"
    using m k unfolding misses_told_def W by blast
  then show "owed s' w sn \<or> heard s' sn X'"
    using owed_flags [OF f] heard_still [OF flags_sameD(1) [OF f]] le_funD [OF X, of LNum] by blast
qed

text \<open>The round of a call goes on, with the same snapshot and the same registration.\<close>

definition same_flag_pos :: "'e opc \<Rightarrow> 'e opc \<Rightarrow> bool" where
  "same_flag_pos p p' \<longleftrightarrow> (p = OSnap \<longleftrightarrow> p' = OSnap) \<and> (p = OFence \<longleftrightarrow> p' = OFence)"

lemma round_move:
  assumes f: "flags_same s s'" and ri: "round_inv s r X" and X: "X \<le> X'"
    and info: "subscriber_info s' = None \<longleftrightarrow> subscriber_info s = None"
    and seen: "\<And>w u. subscriber_info s' = Some (w, u) \<Longrightarrow> subscriber_info s = Some (w, u) \<or> has_seen s (wait_for r) u"
    and w: "wait_for r' = wait_for r" "num_notifications_snapshot (subscr r') = num_notifications_snapshot (subscr r)"
      "had_already_registered (subscr r') = had_already_registered (subscr r)" and p: "same_flag_pos (opc r) (opc r')"
    and l: "listening (opc r') \<Longrightarrow> listening (opc r)" and rp: "reg_pos (opc r) (registered r) \<Longrightarrow> reg_pos (opc r') (registered r)"
    and pr: "\<And>sn. num_notifications_snapshot (subscr r) = of_nat sn \<Longrightarrow> sn < length (hist (mem s) LNum) \<Longrightarrow> opc r \<noteq> OSnap \<Longrightarrow>
      sn \<le> X LNum \<Longrightarrow> reg_clause s r \<Longrightarrow> promise s r X sn \<Longrightarrow> promise s' r' X' sn"
  shows "round_inv s' r' X'"
proof -
  note S = stillD [OF flags_sameD(1) [OF f]]
  have reg: "registered r' = registered r" and con: "consumed s' r' = consumed s r"
    using w(3) p info by (auto simp: registered_def consumed_def same_flag_pos_def)
  have C: "reg_clause s r" "listen_clause s r X" "snapshot_clause s r X"
    using ri by (simp_all add: round_inv_def)
  have "has_seen s' (wait_for r) u" if u: "subscriber_info s' = Some (y, u)" for y u
  proof (rule has_seen_still [OF flags_sameD(1, 3) [OF f]])
    show "has_seen s (wait_for r) u"
      using seen [OF u] C(1) unfolding reg_clause_def by blast
  qed
  then have "reg_clause s' r'"
    using C(1) rp by (simp add: reg_clause_def info S(4) w(1) reg)
  moreover have "listen_clause s' r' X'"
    using C(2) l p S(8) [of LHasSub] le_funD [OF X, of LHasSub] flags_sameD(2) [OF f]
    by (auto simp: listen_clause_def con last_ix_def mval_def same_flag_pos_def)
  moreover have "snapshot_clause s' r' X'"
    unfolding snapshot_clause_def
  proof
    assume "opc r' \<noteq> OSnap"
    then have "opc r \<noteq> OSnap"
      using p by (simp add: same_flag_pos_def)
    then obtain sn where sn: "num_notifications_snapshot (subscr r) = of_nat sn" "sn < length (hist (mem s) LNum)" "sn \<le> X LNum"
        "\<not> consumed s r \<longrightarrow> promise s r X sn"
      using C(3) unfolding snapshot_clause_def by blast
    then show "\<exists>sn. num_notifications_snapshot (subscr r') = of_nat sn \<and> sn < length (hist (mem s') LNum) \<and> sn \<le> X' LNum \<and>
        (\<not> consumed s' r' \<longrightarrow> promise s' r' X' sn)"
      using pr [OF sn(1, 2) \<open>opc r \<noteq> OSnap\<close> sn(3) C(1)] le_funD [OF X, of LNum]
      by (intro exI [of _ sn]) (auto simp: w(2) S(3) con)
  qed
  ultimately show ?thesis
    by (simp add: round_inv_def)
qed

lemma promise_flags:
  assumes f: "flags_same s s'" and X: "X \<le> X'" and o: "opc r' = opc r" "wait_for r' = wait_for r"
    and reg: "registered r' = registered r" and pr: "promise s r X sn"
  shows "promise s' r' X' sn"
proof -
  have x: "X LNum \<le> X' LNum"
    by (rule le_funD [OF X])
  note M = owed_flags [OF f] heard_still [OF flags_sameD(1) [OF f], of _ X X'] misses_flags [OF f _ X]
  show ?thesis
    using pr x by (cases "opc r") (auto simp: promise_def o reg intro: M)
qed

text \<open>Steps that leave the round where it is.\<close>

lemma round_same:
  assumes f: "flags_same s s'" and info: "subscriber_info s' = subscriber_info s" and ri: "round_inv s r X" and X: "X \<le> X'"
    and o: "opc r' = opc r" "wait_for r' = wait_for r" "subscr r' = subscr r"
  shows "round_inv s' r' X'"
  by (rule round_move [OF f ri X _ _ o(2)])
    (use o info in \<open>auto simp: same_flag_pos_def registered_def intro: promise_flags [OF f X o(1, 2)]\<close>)

end
