(* ===== verification/Wakeups.thy ===== *)
theory Wakeups
  imports Wake_Polls
begin

text \<open>
  No notification about an epoch id is lost: the invariant \<open>wake_inv\<close> holds in every reachable state.
\<close>

subsection \<open>The waiting call\<close>

lemma waiting_facts:
  assumes gp: "gp_inv D s" and w: "waiting (opc (ops s q))"
  shows "wait_epochs s (wait_for (ops s q))" and "epoch_ix s \<le> opview s q LEpoch"
    and "waiting (opc (ops s r)) \<Longrightarrow> r = q"
  using gp_invD(3) [OF gp, of q] locksD(1) [OF gp_invD(2) [OF gp]] waiting_pos(2) w
  unfolding op_inv_waiting [OF w] by (blast, blast, metis option.inject)

lemma wake_invD:
  assumes "wake_inv s"
  shows "edges_inv s" and "info_inv s"
    and "length (hist (mem s) LNum) \<le> 2 ^ 64 \<Longrightarrow> \<forall>q. \<not> in_round (opc (ops s q)) \<Longrightarrow> subscriber_info s = None \<and> info_writer s = None"
    and "length (hist (mem s) LNum) \<le> 2 ^ 64 \<Longrightarrow> in_round (opc (ops s q)) \<Longrightarrow> round_inv s (ops s q) (opview s q)"
  using assms by (auto simp: wake_inv_def)

lemma hook_stepI:
  assumes r: "reachable s" and wi: "wake_inv s" and st: "run_hook h t i s = Some s'"
  shows "hook_step t s s'" and "grows (mem s) (mem s')" and "ops s' = ops s"
proof -
  note inv = reachable_thread_inv [OF r] and gp = reachable_gp_inv [OF r]
  have hs: "hook_steps s s'"
    by (rule hook_steps_run_hook [OF inv st])
  then show g: "grows (mem s) (mem s')" "ops s' = ops s"
    by (simp_all add: hook_steps_def gp_frame_def)
  from hs have "hist (mem s') LEpoch = hist (mem s) LEpoch"
    by (simp add: hook_steps_def gp_frame_def)
  then show "hook_step t s s'"
    using gp_invD(1) [OF gp] inv hook_steps_inv [OF hs inv] hooks.holds [OF r] hook_kind_run_hook [OF inv st]
      hook_frame_run_hook [OF st] g wake_invD(1, 2) [OF wi] by (auto simp: hook_step_def hook_frame_def)
qed

lemma wake_inv_hook:
  assumes r: "reachable s" and wi: "wake_inv s" and st: "run_hook h t i s = Some s'"
  shows "wake_inv s'"
proof -
  note gp = reachable_gp_inv [OF r] and H = hook_stepI(1) [OF r wi st] and g = hook_stepI(2, 3) [OF r wi st]
  have v: "opview s q \<le> opview s' q" for q
    by (rule opview_grows [OF g(1)]) (simp add: g(2))
  have n: "length (hist (mem s) LNum) \<le> 2 ^ 64" if "length (hist (mem s') LNum) \<le> 2 ^ 64"
    using growsD(4) [OF g(1), of LNum] that by linarith
  have "round_inv s' (ops s' q) (opview s' q)"
    if "length (hist (mem s') LNum) \<le> 2 ^ 64" "in_round (opc (ops s' q))" for q
  proof -
    show ?thesis
      using n [OF that(1)] round_step [OF H wake_invD(4) [OF wi, of q] waiting_facts(1) [OF gp, of q] v] that(2) by (simp add: g(2))
  qed
  moreover have "subscriber_info s' = None \<and> info_writer s' = None" 
    if "length (hist (mem s') LNum) \<le> 2 ^ 64" "\<forall>q. \<not> in_round (opc (ops s q))"
    using info_step(2) [OF H] wake_invD(3) [OF wi n [OF that(1)] that(2)] by simp
  ultimately show ?thesis
    using edges_step [OF H] info_inv_step [OF H] by (simp add: wake_inv_def g(2))
qed

subsection \<open>Steps that leave the rounds alone\<close>

lemma wake_inv_frame:
  assumes wi: "wake_inv s" and f: "flags_same s s'" and info: "subscriber_info s' = subscriber_info s"
    and o: "\<And>q. in_round (opc (ops s q)) \<or> in_round (opc (ops s' q)) \<Longrightarrow> opc (ops s' q) = opc (ops s q) \<and>
      wait_for (ops s' q) = wait_for (ops s q) \<and> subscr (ops s' q) = subscr (ops s q) \<and> opview s q \<le> opview s' q"
  shows "wake_inv s'"
proof -
  note S = flags_sameD(1) [OF f]
  have p: "in_round (opc (ops s' q)) = in_round (opc (ops s q))" for q
    using o [of q] by auto
  have "round_inv s' (ops s' q) (opview s' q)"
    if n: "length (hist (mem s') LNum) \<le> 2 ^ 64" and q: "in_round (opc (ops s' q))" for q
  proof -
    have "round_inv s (ops s q) (opview s q)"
      using n q wake_invD(4) [OF wi, of q] by (simp add: stillD(3) [OF S] p)
    then show ?thesis
      using o [of q] q by (intro round_same [OF f info]) auto
  qed
  moreover have "info_inv s'"
    using wake_invD(2) [OF wi] info by (intro info_still [OF S]) (auto simp: info_inv_def)
  ultimately show ?thesis
    using edges_still [OF S wake_invD(1) [OF wi]] wake_invD(3) [OF wi] stillD(3, 4) [OF S]
    unfolding wake_inv_def info p by auto
qed

lemma flags_same_user:
  assumes inv: "thread_inv s" and st: "step ev s = Some s'" and ev: "\<And>h t i. ev \<noteq> Hook h t i" "\<And>q t i wk. ev \<noteq> Poll q t i wk"
  shows "flags_same s s'" and "subscriber_info s' = subscriber_info s"
proof -
  have "grows (mem s) (mem s')"
    using st ev hook_steps_read [OF inv] hook_steps_use [OF inv] hook_steps_drop_guards [OF inv] hook_steps_swap [OF inv]
      task_frame_wait_call [OF inv] task_frame_wait_return [OF inv] task_frame_suspend [OF inv] task_frame_resume [OF inv]
    by (cases ev) (fastforce simp: hook_steps_def gp_frame_def task_frame_def quiet_def)+
  moreover have "words_same s s' \<and> hist (mem s') LNum = hist (mem s) LNum \<and> info_writer s' = info_writer s \<and>
      subscriber_info s' = subscriber_info s \<and>
      (\<forall>u. tpc (thr s' u) = tpc (thr s u) \<and> tslot (thr s' u) = tslot (thr s u)) \<and>
      hist (mem s') LHasSub = hist (mem s) LHasSub \<and> hist (mem s') LEpoch = hist (mem s) LEpoch"
    using st ev by (cases ev) (auto simp: words_same_def wait_call_def wait_return_def suspend_def resume_def
      rcu_box_read_def use_reference_def drop_guards_def rcu_box_swap_def record_access_def upd_defs view_simps Let_def
      split: if_splits option.splits)
  ultimately show "flags_same s s'" "subscriber_info s' = subscriber_info s"
    by (simp_all add: flags_same_def still_def skips_def)
qed

lemma user_keeps_wait:
  assumes inv: "thread_inv s" and st: "step ev s = Some s'"
    and ev: "\<And>h t i. ev \<noteq> Hook h t i" "\<And>q t i wk. ev \<noteq> Poll q t i wk"
    and q: "waiting (opc (ops s q)) \<or> waiting (opc (ops s' q))"
  shows "opc (ops s' q) = opc (ops s q) \<and> wait_for (ops s' q) = wait_for (ops s q) \<and>
      subscr (ops s' q) = subscr (ops s q) \<and> opview s q \<le> opview s' q"
proof -
  note v = opview_grows [OF stillD(2) [OF flags_sameD(1) [OF flags_same_user(1) [OF inv st ev]]]]
  show ?thesis
  proof (cases ev)
    case (WaitCall x t vs)
    then show ?thesis
      using st q by (cases "q = x") (auto simp: wait_call_def opview_def upd_defs split: if_splits option.splits)
  next
    case (WaitReturn x t)
    then show ?thesis
      using st q by (cases "q = x") (auto simp: wait_return_def opview_def upd_defs split: if_splits option.splits)
  next
    case (Suspend x t)
    then show ?thesis
      using st v by (cases "q = x") (auto simp: suspend_def opview_def view_simps upd_defs split: if_splits)
  next
    case (Resume x t)
    then show ?thesis
      using st v by (cases "q = x") (auto simp: resume_def opview_def view_simps upd_defs split: if_splits)
  qed (use st ev v in \<open>auto simp: rcu_box_read_def use_reference_def drop_guards_def
      rcu_box_swap_def record_access_def upd_defs Let_def split: if_splits option.splits\<close>)
qed

lemma wake_inv_user:
  assumes inv: "thread_inv s" and wi: "wake_inv s" and st: "step ev s = Some s'"
    and ev: "\<And>h t i. ev \<noteq> Hook h t i" "\<And>q t i wk. ev \<noteq> Poll q t i wk"
  shows "wake_inv s'"
  by (rule wake_inv_frame [OF wi flags_same_user [OF inv st ev]]) (use user_keeps_wait [OF inv st ev] in blast)

subsection \<open>Polls outside a wait\<close>

lemma poll_num: "poll_op q t i wk s = Some s' \<Longrightarrow> hist (mem s') LNum = hist (mem s) LNum"
  by (erule poll_op_cases; cases "opc (ops s q)"; auto simp: op_defs view_simps Let_def split: if_splits option.splits)

lemma still_poll:
  assumes inv: "thread_inv s" and st: "poll_op q t i wk s = Some s'"
  shows "still s s'"
proof -
  have "info_writer s' = info_writer s"
    using st by (cases rule: poll_op_cases) (auto dest: synchronize_rcu_info wait_info)
  then show ?thesis
    using poll_op_frame [OF inv st] poll_num [OF st] by (auto simp: still_def op_frame_def calm_def words_same_def)
qed

lemma sync_poll_same:
  assumes "synchronize_rcu (opc (ops s q)) q t i s = Some s'"
  shows "hist (mem s') LHasSub = hist (mem s) LHasSub" and "hist (mem s') LEpoch = hist (mem s) LEpoch"
    and "subscriber_info s' = subscriber_info s" and "\<not> waiting (opc (ops s q))" and "\<not> waiting (opc (ops s' q))"
  using assms by (cases "opc (ops s q)"; auto simp: op_defs upd_defs view_simps Let_def split: if_splits option.splits)+

lemma serialized_poll_same:
  assumes "synchronize_rcu_serialized (opc (ops s q)) q t i s = Some s'"
  shows "subscriber_info s' = subscriber_info s" and "holder (opc (ops s q))" and "\<not> waiting (opc (ops s q))"
    and "\<not> in_round (opc (ops s' q))"
  using assms by (cases "opc (ops s q)"; auto simp: op_defs upd_defs view_simps Let_def split: if_splits)+

lemma wake_inv_sync:
  assumes inv: "thread_inv s" and wi: "wake_inv s" and st: "poll_op q t i wk s = Some s'"
    and sy: "synchronize_rcu (opc (ops s q)) q t i s = Some s'"
  shows "wake_inv s'"
proof (rule wake_inv_frame [OF wi _ sync_poll_same(3) [OF sy]])
  note S = sync_poll_same [OF sy]
  show "flags_same s s'"
    using S still_poll [OF inv st] by (simp add: flags_same_def skips_def)
  fix r
  assume "in_round (opc (ops s r)) \<or> in_round (opc (ops s' r))"
  with S have "r \<noteq> q"
    by auto
  then have "ops s' r = ops s r"
    by (rule poll_oth [OF inv st])
  then show "opc (ops s' r) = opc (ops s r) \<and> wait_for (ops s' r) = wait_for (ops s r) \<and>
      subscr (ops s' r) = subscr (ops s r) \<and> opview s r \<le> opview s' r"
    using opview_grows [OF stillD(2) [OF still_poll [OF inv st]]] by simp
qed

lemma wake_inv_quiet_round:
  assumes st: "still s s'" and wi: "wake_inv s" and info: "subscriber_info s' = subscriber_info s"
    and w: "length (hist (mem s) LNum) \<le> 2 ^ 64 \<Longrightarrow> subscriber_info s = None \<and> info_writer s = None"
    and p: "\<And>q. \<not> in_round (opc (ops s' q))"
  shows "wake_inv s'"
proof -
  have "info_inv s'"
    using wake_invD(2) [OF wi] info by (intro info_still [OF st]) (auto simp: info_inv_def)
  then show ?thesis
    using edges_still [OF st wake_invD(1) [OF wi]] info w p stillD(3, 4) [OF st] unfolding wake_inv_def by auto
qed

lemma wake_inv_serialized:
  assumes inv: "thread_inv s" and gp: "gp_inv D s" and wi: "wake_inv s" and st: "poll_op q t i wk s = Some s'"
    and sy: "synchronize_rcu_serialized (opc (ops s q)) q t i s = Some s'"
  shows "wake_inv s'"
proof -
  note S = serialized_poll_same [OF sy]
  have n: "\<not> waiting (opc (ops s r))" for r
    using S(2, 3) locksD(1) [OF gp_invD(2) [OF gp]] waiting_pos(2) by (metis option.inject)
  have n': "\<not> in_round (opc (ops s' r))" for r
    using n [of r] S(4) poll_oth [OF inv st, of r] by (cases "r = q") auto
  show ?thesis
    using wake_invD(3) [OF wi] n by (intro wake_inv_quiet_round [OF still_poll [OF inv st] wi S(1) _ n']) simp_all
qed

subsection \<open>Polls of the waiting call\<close>

lemma wake_inv_wait:
  assumes inv: "thread_inv s" and gp: "gp_inv D s" and wi: "wake_inv s" and st: "poll_op q t i wk s = Some s'"
    and w: "waiting (opc (ops s q))" and iw: "subscriber_info s' \<noteq> None \<Longrightarrow> info_writer s = None"
    and on: "in_round (opc (ops s' q)) \<Longrightarrow> length (hist (mem s) LNum) \<le> 2 ^ 64 \<Longrightarrow> round_inv s' (ops s' q) (cur (mem s') t)"
    and off: "\<not> in_round (opc (ops s' q)) \<Longrightarrow> length (hist (mem s) LNum) \<le> 2 ^ 64 \<Longrightarrow> subscriber_info s' = None \<and> info_writer s = None"
  shows "wake_inv s'"
proof -
  note S = still_poll [OF inv st]
  have n: "\<not> in_round (opc (ops s' r))" if "r \<noteq> q" for r
    using waiting_facts(3) [OF gp w, of r] poll_oth [OF inv st that] that by auto
  have v: "opview s' q = cur (mem s') t"
    using poll_op_frame [OF inv st] poll_op_guard(1) [OF st] by (simp add: opview_def op_frame_def)
  have "round_inv s' (ops s' r) (opview s' r)"
    if "length (hist (mem s') LNum) \<le> 2 ^ 64" "in_round (opc (ops s' r))" for r
  proof -
    have "r = q"
      using n [of r] that(2) by blast
    then show ?thesis
      using on that v stillD(3) [OF S] by simp
  qed
  moreover have "subscriber_info s' = None \<and> info_writer s' = None" 
    if "length (hist (mem s') LNum) \<le> 2 ^ 64" "\<forall>r. \<not> in_round (opc (ops s' r))"
    using off that stillD(3, 4) [OF S] by simp
  ultimately show ?thesis
    using edges_still [OF S wake_invD(1) [OF wi]] info_still [OF S wake_invD(2) [OF wi] iw] by (simp add: wake_inv_def)
qed

text \<open>The steps after the fence that keep the registration or renew it.\<close>

lemma wake_inv_move:
  assumes inv: "thread_inv s" and gp: "gp_inv D s" and wi: "wake_inv s" and st: "poll_op q t i wk s = Some s'"
    and w: "in_round (opc (ops s q))" "in_round (opc (ops s' q))"
    and fl: "hist (mem s') LHasSub = hist (mem s) LHasSub" "hist (mem s') LEpoch = hist (mem s) LEpoch"
    and info: "subscriber_info s' = None \<longleftrightarrow> subscriber_info s = None"
    and seen: "\<And>w u. subscriber_info s' = Some (w, u) \<Longrightarrow> u = t \<or> (\<exists>w. subscriber_info s = Some (w, u))"
    and v: "wait_for (ops s' q) = wait_for (ops s q)"
      "num_notifications_snapshot (subscr (ops s' q)) = num_notifications_snapshot (subscr (ops s q))"
      "had_already_registered (subscr (ops s' q)) = had_already_registered (subscr (ops s q))"
    and p: "opc (ops s q) \<notin> {OSnap, OFence}" "opc (ops s' q) \<notin> {OSnap, OFence}"
    and l: "listening (opc (ops s' q)) \<Longrightarrow> listening (opc (ops s q))"
    and rp: "reg_pos (opc (ops s q)) (registered (ops s q)) \<Longrightarrow> reg_pos (opc (ops s' q)) (registered (ops s q))"
    and pr: "\<And>sn. length (hist (mem s) LNum) \<le> 2 ^ 64 \<Longrightarrow> num_notifications_snapshot (subscr (ops s q)) = of_nat sn \<Longrightarrow>
      sn < length (hist (mem s) LNum) \<Longrightarrow> reg_pos (opc (ops s q)) (registered (ops s q)) \<Longrightarrow> flags_same s s' \<Longrightarrow>
      cur (mem s) t \<le> cur (mem s') t \<Longrightarrow>
      promise s (ops s q) (cur (mem s) t) sn \<Longrightarrow> promise s' (ops s' q) (cur (mem s') t) sn"
  shows "wake_inv s'"
proof (rule wake_inv_wait [OF inv gp wi st])
  have S: "still s s'"
    by (rule still_poll [OF inv st])
  have pol: "tpc (thr s t) = Polling" and X: "cur (mem s) t \<le> cur (mem s') t"
    using poll_op_guard(2) [OF st] growsD(1) [OF stillD(2) [OF S]] by auto
  have t: "has_seen s (wait_for (ops s q)) t"
    using waiting_facts(2) [OF gp, of q] w(1) by (simp add: has_seen_def pol poll_view [OF st])
  have f: "flags_same s s'"
    using S fl seen pol unfolding flags_same_def skips_def by blast
  show "waiting (opc (ops s q))"
    using w(1) by simp
  show "info_writer s = None" if "subscriber_info s' \<noteq> None"
    using that info wake_invD(2) [OF wi] by (auto simp: info_inv_def)
  show "round_inv s' (ops s' q) (cur (mem s') t)" if n: "length (hist (mem s) LNum) \<le> 2 ^ 64"
  proof (rule round_move [OF f _ X info _ v])
    show ri: "round_inv s (ops s q) (cur (mem s) t)"
      using wake_invD(4) [OF wi n w(1)] by (simp add: poll_view [OF st])
    show "subscriber_info s = Some (x, u) \<or> has_seen s (wait_for (ops s q)) u" if u: "subscriber_info s' = Some (x, u)" for x u
      using seen [OF u] t ri unfolding round_inv_def reg_clause_def by blast
    show "promise s' (ops s' q) (cur (mem s') t) sn"
      if "num_notifications_snapshot (subscr (ops s q)) = of_nat sn" "sn < length (hist (mem s) LNum)" "reg_clause s (ops s q)"
        "promise s (ops s q) (cur (mem s) t) sn" for sn
      using pr [OF n that(1, 2) _ f X that(4)] that(3) by (simp add: reg_clause_def)
  qed (use p l rp in \<open>simp_all add: same_flag_pos_def\<close>)
qed (use w in simp)

lemma promise_rules:
  assumes f: "flags_same s s'" and X: "X \<le> X'"
  shows "owed s w sn \<Longrightarrow> owed s' w sn" and "heard s sn X \<Longrightarrow> heard s' sn X'" and "misses_told s w sn X \<Longrightarrow> misses_told s' w sn X'"
  using owed_flags [OF f] heard_still [OF flags_sameD(1) [OF f], of sn X X'] le_funD [OF X, of LNum] misses_flags [OF f _ X] by blast+

lemma wake_inv_easy:
  assumes inv: "thread_inv s" and gp: "gp_inv D s" and wi: "wake_inv s" and st: "poll_op q t i wk s = Some s'"
    and p: "opc (ops s q) \<in> {OTid, OScanBegin, OPoll1, OReady, OPend} \<union> range OScanEnd"
  shows "wake_inv s'"
proof (rule wake_inv_move [OF inv gp wi st])
  have w: "waiting (opc (ops s q))"
    using p by auto
  note W = waiting_poll [OF st w]
  show "promise s' (ops s' q) (cur (mem s') t) sn"
    if "flags_same s s'" "cur (mem s) t \<le> cur (mem s') t" "promise s (ops s q) (cur (mem s) t) sn"
      "reg_pos (opc (ops s q)) (registered (ops s q))" for sn
    using p W that(3, 4) promise_rules [OF that(1, 2)]
    by (auto simp: op_defs Let_def promise_def registered_def split: if_splits option.splits)
qed (use p waiting_poll [OF st] in \<open>auto simp: op_defs upd_defs view_simps registered_def Let_def split: if_splits option.splits\<close>)

text \<open>A slot on which the scan fails is one whose owner owes a notification.\<close>

lemma wake_inv_scan:
  assumes inv: "thread_inv s" and gp: "gp_inv D s" and wi: "wake_inv s" and st: "poll_op q t i wk s = Some s'"
    and p: "opc (ops s q) = OScan"
  shows "wake_inv s'"
proof (rule wake_inv_move [OF inv gp wi st])
  have W: "scan_slot q t i s = Some s'"
    using waiting_poll [OF st] p by simp
  show "promise s' (ops s' q) (cur (mem s') t) sn"
    if f: "flags_same s s'" and X: "cur (mem s) t \<le> cur (mem s') t" and pr: "promise s (ops s q) (cur (mem s) t) sn" for sn
  proof -
    have m: "misses_told s (wait_for (ops s q)) sn (cur (mem s) t)"
      using pr p by (simp add: promise_def)
    have w: "wait_for (ops s' q) = wait_for (ops s q)"
      using W by (auto simp: scan_slot_def Let_def split: if_splits)
    consider "opc (ops s' q) = OScanEnd True" | "opc (ops s' q) = OScan"
      | sl where "opc (ops s' q) = OScanEnd False" "readable t (LSlot sl) i (mem s)" "\<not> slot_ok (wait_for (ops s q)) (word_at s sl i)"
      using W p by (cases "slot_ok (wait_for (ops s q)) (word_at s (scan_pos (ops s q)) i)")
        (auto simp: scan_slot_def Let_def split: if_splits)
    then show ?thesis
    proof cases
      case (3 sl)
      then have "owed s (wait_for (ops s q)) sn \<or> heard s sn (cur (mem s) t)"
        using m unfolding misses_told_def readable_def by blast
      then show ?thesis
        using 3(1) promise_rules [OF f X] by (auto simp: promise_def w)
    qed (use m promise_rules(3) [OF f X] in \<open>simp_all add: promise_def w\<close>)
  qed
qed (use p waiting_poll [OF st] in \<open>auto simp: scan_slot_def Let_def view_simps upd_defs registered_def split: if_splits\<close>)

text \<open>The check after the registration sees the notifications that came before it.\<close>

lemma wake_inv_poll2:
  assumes inv: "thread_inv s" and gp: "gp_inv D s" and wi: "wake_inv s" and st: "poll_op q t i wk s = Some s'"
    and p: "opc (ops s q) = OPoll2"
  shows "wake_inv s'"
proof (rule wake_inv_move [OF inv gp wi st])
  have W: "did_num_notifications_change_since_snapshot OPend q t i s = Some s'"
    using waiting_poll [OF st] p by simp
  show "promise s' (ops s' q) (cur (mem s') t) sn"
    if n: "length (hist (mem s) LNum) \<le> 2 ^ 64" and sn: "num_notifications_snapshot (subscr (ops s q)) = of_nat sn"
      "sn < length (hist (mem s) LNum)" and f: "flags_same s s'" and X: "cur (mem s) t \<le> cur (mem s') t"
      and pr: "promise s (ops s q) (cur (mem s) t) sn" for sn
  proof -
    have i: "cur (mem s) t LNum \<le> i" "i < length (hist (mem s) LNum)"
      using W by (auto simp: did_num_notifications_change_since_snapshot_def readable_def split: if_splits)
    have "val_num (mval (mem s) LNum i) = of_nat i"
      using wake_invD(2) [OF wi] i(2) unfolding info_inv_def by blast
    moreover have "i = sn" if "(of_nat i :: usize) = of_nat sn"
    proof -
      have "i < 2 ^ LENGTH(64)" "sn < 2 ^ LENGTH(64)"
        using i(2) sn(2) n by simp_all
      then show ?thesis
        using that by (metis of_nat_inverse)
    qed
    ultimately show ?thesis
      using W p pr sn(1) i(1) promise_rules(1) [OF f X]
      by (auto simp: did_num_notifications_change_since_snapshot_def promise_def split: if_splits)
  qed
qed (use p waiting_poll [OF st] in \<open>auto simp: did_num_notifications_change_since_snapshot_def view_simps upd_defs registered_def
    split: if_splits\<close>)

lemma wake_inv_register_again:
  assumes inv: "thread_inv s" and gp: "gp_inv D s" and wi: "wake_inv s" and st: "poll_op q t i wk s = Some s'"
    and p: "opc (ops s q) = OReg \<and> had_already_registered (subscr (ops s q)) \<or> opc (ops s q) = ORegW a b"
  shows "wake_inv s'"
proof (rule wake_inv_move [OF inv gp wi st])
  have w: "waiting (opc (ops s q))"
    using p by auto
  note W = waiting_poll [OF st w]
  show "promise s' (ops s' q) (cur (mem s') t) sn"
    if f: "flags_same s s'" and X: "cur (mem s) t \<le> cur (mem s') t" and pr: "promise s (ops s q) (cur (mem s) t) sn" for sn
    using W p pr promise_rules(1) [OF f X]
    by (auto simp: register_subscriber_info_def register_slow_path_def Let_def promise_def registered_def
        split: if_splits option.splits)
qed (use p waiting_poll [OF st] in \<open>auto simp: register_subscriber_info_def register_slow_path_def Let_def view_simps upd_defs registered_def
    split: if_splits option.splits\<close>)

text \<open>The first registration: a notifier that found nobody has told the subscriber through the lock.\<close>

lemma wake_inv_register:
  assumes inv: "thread_inv s" and gp: "gp_inv D s" and wi: "wake_inv s" and st: "poll_op q t i wk s = Some s'"
    and p: "opc (ops s q) = OReg" and new: "\<not> had_already_registered (subscr (ops s q))"
  shows "wake_inv s'"
proof (rule wake_inv_wait [OF inv gp wi st])
  let ?r = "ops s q" and ?r' = "ops s' q" and ?X = "cur (mem s) t" and ?X' = "cur (mem s') t"
  have W: "register_subscriber_info q t wk s = Some s'"
    using waiting_poll [OF st] p by simp
  have pol: "tpc (thr s t) = Polling"
    using poll_op_guard(2) [OF st] .
  have S: "still s s'"
    by (rule still_poll [OF inv st])
  have e: "opc ?r' = OPoll2" "wait_for ?r' = wait_for ?r" "subscriber_info s' = Some (wk, t)" "info_writer s = None"
      "num_notifications_snapshot (subscr ?r') = num_notifications_snapshot (subscr ?r)" "registered ?r'" "\<not> registered ?r"
      "hist (mem s') LHasSub = hist (mem s) LHasSub" "hist (mem s') LEpoch = hist (mem s) LEpoch" "scv (mem s') = scv (mem s)"
    using W p new by (auto simp: register_subscriber_info_def view_simps upd_defs registered_def split: if_splits)
  have f: "flags_same s s'"
    using S e pol by (auto simp: flags_same_def skips_def)
  have X: "?X \<le> ?X'" and told: "heard s sn ?X \<Longrightarrow> sn < ?X' LNum" for sn
    using W new by (auto simp: register_subscriber_info_def view_simps heard_def le_fun_def split: if_splits)
  show "waiting (opc ?r)"
    by (simp add: p)
  show "round_inv s' ?r' ?X'" if n: "length (hist (mem s) LNum) \<le> 2 ^ 64"
  proof -
    have ri: "reg_clause s ?r" "listen_clause s ?r ?X" "snapshot_clause s ?r ?X"
      using wake_invD(4) [OF wi n, of q] p by (simp_all add: poll_view [OF st] round_inv_def)
    have "has_seen s (wait_for ?r) t"
      using waiting_facts(2) [OF gp, of q] p by (simp add: has_seen_def pol poll_view [OF st])
    then have "reg_clause s' ?r'"
      using has_seen_still [OF S e(9)] by (auto simp: reg_clause_def e)
    moreover have "listen_clause s' ?r' ?X'"
      using ri(2) e(7) by (auto simp: listen_clause_def consumed_def e p last_ix_def mval_def)
    moreover have "snapshot_clause s' ?r' ?X'"
    proof -
      obtain sn where sn: "num_notifications_snapshot (subscr ?r) = of_nat sn" "sn < length (hist (mem s) LNum)" "sn \<le> ?X LNum"
          "promise s ?r ?X sn"
        using ri(3) p e(7) by (auto simp: snapshot_clause_def consumed_def)
      then have "promise s' ?r' ?X' sn"
        using told owed_flags [OF f] by (auto simp: promise_def e p)
      then show ?thesis
        using sn le_funD [OF X, of LNum] unfolding snapshot_clause_def
        by (intro impI exI [of _ sn]) (simp add: e stillD(3) [OF S])
    qed
    ultimately show ?thesis
      by (simp add: round_inv_def)
  qed
  show "subscriber_info s' = None \<and> info_writer s = None" if "\<not> in_round (opc ?r')"
    using that e(1) by simp
qed (use p waiting_poll [OF st] in \<open>auto simp: register_subscriber_info_def split: if_splits\<close>)

text \<open>The subscription: the flag, the snapshot, the fence.\<close>

lemma no_other_round:
  assumes gp: "gp_inv D s" and wi: "wake_inv s" and p: "opc (ops s q) = OSub"
    and n: "length (hist (mem s) LNum) \<le> 2 ^ 64"
  shows "subscriber_info s = None" and "info_writer s = None"
proof -
  have "\<not> in_round (opc (ops s r))" for r
    using waiting_facts(3) [OF gp, of q r] p by auto
  then show "subscriber_info s = None" and "info_writer s = None"
    using wake_invD(3) [OF wi n] by blast+
qed

lemma wake_inv_subscribe:
  assumes inv: "thread_inv s" and gp: "gp_inv D s" and wi: "wake_inv s" and st: "poll_op q t i wk s = Some s'"
    and p: "opc (ops s q) = OSub"
  shows "wake_inv s'"
proof (rule wake_inv_wait [OF inv gp wi st])
  have s': "s' = subscribe_flag q t s"
    using waiting_poll [OF st] p by simp
  show "waiting (opc (ops s q))"
    by (simp add: p)
  show "round_inv s' (ops s' q) (cur (mem s') t)" if n: "length (hist (mem s) LNum) \<le> 2 ^ 64"
    using no_other_round [OF gp wi p n]
    by (simp add: s' subscribe_flag_def round_inv_def reg_clause_def listen_clause_def snapshot_clause_def registered_def
        upd_defs view_simps last_ix_def mval_def)
  show "info_writer s = None" if "subscriber_info s' \<noteq> None"
    using that wake_invD(2) [OF wi] by (simp add: info_inv_def s' subscribe_flag_def upd_defs)
qed (use waiting_poll [OF st] p in \<open>auto simp: subscribe_flag_def upd_defs\<close>)

lemma wake_inv_snapshot:
  assumes inv: "thread_inv s" and gp: "gp_inv D s" and wi: "wake_inv s" and st: "poll_op q t i wk s = Some s'"
    and p: "opc (ops s q) = OSnap"
  shows "wake_inv s'"
proof (rule wake_inv_wait [OF inv gp wi st])
  let ?r' = "ops s' q"
  have W: "subscribe_snapshot q t i s = Some s'"
    using waiting_poll [OF st] p by simp
  show "waiting (opc (ops s q))"
    by (simp add: p)
  have e: "opc ?r' = OFence" "\<not> registered ?r'" "num_notifications_snapshot (subscr ?r') = val_num (mval (mem s) LNum i)"
      "subscriber_info s' = subscriber_info s" "hist (mem s') LHasSub = hist (mem s) LHasSub" "hist (mem s') LNum = hist (mem s) LNum"
      "i < length (hist (mem s) LNum)" "i \<le> cur (mem s') t LNum" "cur (mem s) t \<le> cur (mem s') t" "info_writer s' = info_writer s"
    using W by (auto simp: subscribe_snapshot_def upd_defs view_simps registered_def readable_def split: if_splits)
  show "round_inv s' ?r' (cur (mem s') t)" if n: "length (hist (mem s) LNum) \<le> 2 ^ 64"
  proof -
    have ri: "reg_clause s (ops s q)" "listen_clause s (ops s q) (cur (mem s) t)"
      using wake_invD(4) [OF wi n, of q] p by (simp_all add: poll_view [OF st] round_inv_def)
    have N: "subscriber_info s = None" "info_writer s = None"
      using ri(1) by (simp_all add: reg_clause_def registered_def p)
    have "val_num (mval (mem s) LNum i) = of_nat i"
      using wake_invD(2) [OF wi] e(7) unfolding info_inv_def by blast
    then have "snapshot_clause s' ?r' (cur (mem s') t)"
      using e unfolding snapshot_clause_def by (intro impI exI [of _ i]) (simp add: promise_def)
    moreover have "listen_clause s' ?r' (cur (mem s') t)"
      using ri(2) e le_funD [OF e(9), of LHasSub] by (auto simp: listen_clause_def consumed_def registered_def p last_ix_def mval_def)
    ultimately show ?thesis
      using N e by (simp add: round_inv_def reg_clause_def)
  qed
  show "info_writer s = None" if "subscriber_info s' \<noteq> None"
    using that e(4) wake_invD(2) [OF wi] by (simp add: info_inv_def)
  show "subscriber_info s' = None \<and> info_writer s = None" if "\<not> in_round (opc ?r')"
    using that e(1) by simp
qed

lemma turning_point:
  assumes "\<not> P k" and "k < n" and "P (n - 1)"
  shows "\<exists>j \<ge> k. Suc j < n \<and> \<not> P j \<and> P (Suc j)"
  using assms
proof (induction "n - k" arbitrary: k)
  case (Suc d)
  have "k \<noteq> n - 1"
    using Suc.prems(1, 3) by blast
  with Suc.prems(2) have k: "Suc k < n"
    by simp
  show ?case
  proof (cases "P (Suc k)")
    case True
    then show ?thesis
      using Suc.prems(1) k by blast
  next
    case False
    have "d = n - Suc k"
      using Suc.hyps(2) by simp
    from Suc.hyps(1) [OF this False k Suc.prems(3)] show ?thesis
      using Suc_leD by blast
  qed
qed simp

text \<open>
  The fence: a thread that publishes the epoch id after it finds the flag when it notifies, and one that has
  published it before is seen by the scan, or has its own fence still ahead.
\<close>

lemma missed_word_author:
  assumes inv: "thread_inv s" and len: "2 < LENGTH('w)" and e: "edges_inv (s :: ('w::len, 'g::len) rcu)"
    and we: "wait_epochs s w" and k: "k < nwords s sl" "\<not> slot_ok w (word_at s sl k)" "slot_ok w (last_word s sl)"
      "scv (mem s) (LSlot sl) \<le> k"
  shows "\<exists>t h. tpc (thr s t) = NotifyFence h"
proof -
  have "slot_ok w (word_at s sl (nwords s sl - 1))"
    using k(3) by (simp add: last_ix_def)
  then obtain j where j: "k \<le> j" "Suc j < nwords s sl" "\<not> slot_ok w (word_at s sl j)" "slot_ok w (word_at s sl (Suc j))"
    using turning_point [of "\<lambda>j. slot_ok w (word_at s sl j)", OF k(2, 1)] by blast
  have "scv (mem s) (LSlot sl) \<le> j"
    using k(4) j(1) by linarith
  then obtain t where "(\<exists>h. tpc (thr s t) = NotifyFence h) \<or> word_at s sl (Suc j) = encode (busy_state 0)"
    using e j unfolding edges_inv_def by metis
  then show ?thesis
    using j(4) busy_zero_not_ok [OF inv len we] by auto
qed

lemma fence_misses_told:
  assumes inv: "thread_inv s" and len: "2 < LENGTH('w)" and e: "edges_inv (s :: ('w::len, 'g::len) rcu)"
    and we: "wait_epochs s w" and info: "subscriber_info s = None" and X: "\<And>sl. scv (mem s) (LSlot sl) \<le> X (LSlot sl)"
  shows "misses_told s w sn X"
  unfolding misses_told_def
proof (intro allI impI, elim conjE)
  fix sl k
  assume k: "X (LSlot sl) \<le> k" "k < nwords s sl" "\<not> slot_ok w (word_at s sl k)"
  show "owed s w sn \<or> heard s sn X"
  proof (cases "slot_ok w (last_word s sl)")
    case True
    then obtain t h where "tpc (thr s t) = NotifyFence h"
      using missed_word_author [OF inv len e we k(2, 3)] k(1) X [of sl] by (meson order_trans)
    then have "notifying s sn t"
      by (simp add: notifying_def skips_def info)
    then show ?thesis
      unfolding owed_def by blast
  next
    case False
    then have "late s w"
      using k(2) unfolding late_def by (metis less_nat_zero_code)
    then show ?thesis
      by (simp add: owed_def)
  qed
qed

lemma wake_inv_fence:
  assumes inv: "thread_inv s" and inv': "thread_inv s'" and gp: "gp_inv D s" and gp': "gp_inv D s'" and wi: "wake_inv s"
    and st: "poll_op q t i wk s = Some s'" and p: "opc (ops s q) = OFence"
  shows "wake_inv s'"
proof (rule wake_inv_wait [OF inv gp wi st])
  let ?r = "ops s q" and ?r' = "ops s' q" and ?X' = "cur (mem s') t"
  have s': "s' = set_opc q OTid (on_mem (fence_sc t) s)"
    using waiting_poll [OF st] p by simp
  have S: "still s s'"
    by (rule still_poll [OF inv st])
  show "waiting (opc ?r)"
    by (simp add: p)
  have e: "opc ?r' = OTid" "wait_for ?r' = wait_for ?r" "subscr ?r' = subscr ?r" "subscriber_info s' = subscriber_info s"
      "hist (mem s') = hist (mem s)" "info_writer s' = info_writer s" "scv (mem s') = ?X'"
    by (simp_all add: s' upd_defs view_simps)
  have "registered ?r' = registered ?r"
    using e by (simp add: registered_def p)
  show "round_inv s' ?r' ?X'" if n: "length (hist (mem s) LNum) \<le> 2 ^ 64"
  proof -
    have ri: "reg_clause s ?r" "listen_clause s ?r (cur (mem s) t)" "snapshot_clause s ?r (cur (mem s) t)"
      using wake_invD(4) [OF wi n, of q] p by (simp_all add: poll_view [OF st] round_inv_def)
    then have N: "\<not> registered ?r'" "subscriber_info s = None" "info_writer s = None"
      using \<open>registered ?r' = registered ?r\<close> by (simp_all add: reg_clause_def p)
    have "misses_told s' (wait_for ?r') sn ?X'" for sn
      by (rule fence_misses_told [OF inv' gp_invD(1) [OF gp] edges_still [OF S wake_invD(1) [OF wi]]
            waiting_facts(1) [OF gp', of q]]) (use N e in simp_all)
    moreover obtain sn where "num_notifications_snapshot (subscr ?r) = of_nat sn" "sn < length (hist (mem s) LNum)"
        "sn \<le> cur (mem s) t LNum"
      using ri(3) p by (auto simp: snapshot_clause_def)
    ultimately have "snapshot_clause s' ?r' ?X'"
      using stillD(7) [OF S, of t LNum] unfolding snapshot_clause_def by (intro impI exI [of _ sn]) (simp add: e promise_def)
    moreover have "listen_clause s' ?r' ?X'"
      using ri(2) N stillD(7) [OF S, of t LHasSub] \<open>registered ?r' = registered ?r\<close>
      by (auto simp: listen_clause_def consumed_def p e last_ix_def mval_def)
    ultimately show ?thesis
      using N e by (simp add: round_inv_def reg_clause_def)
  qed
  show "info_writer s = None" if "subscriber_info s' \<noteq> None"
    using that e(4) wake_invD(2) [OF wi] by (simp add: info_inv_def)
  show "subscriber_info s' = None \<and> info_writer s = None" if "\<not> in_round (opc ?r')"
    using that e(1) by simp
qed

text \<open>The subscriber goes away: nobody is registered, and nobody holds the information.\<close>

lemma wake_inv_drop:
  assumes inv: "thread_inv s" and gp: "gp_inv D s" and wi: "wake_inv s" and st: "poll_op q t i wk s = Some s'"
    and p: "opc (ops s q) = ODrop b"
  shows "wake_inv s'"
proof (rule wake_inv_wait [OF inv gp wi st])
  let ?r = "ops s q" and ?r' = "ops s' q"
  have s': "s' = drop_subscriber_flag b q t s"
    using waiting_poll [OF st] p by simp
  have S: "still s s'"
    by (rule still_poll [OF inv st])
  have e: "opc ?r' = ODropInfo b" "wait_for ?r' = wait_for ?r" "subscr ?r' = subscr ?r" "subscriber_info s' = subscriber_info s"
      "hist (mem s') LEpoch = hist (mem s) LEpoch" "info_writer s' = info_writer s"
    by (simp_all add: s' drop_subscriber_flag_def upd_defs view_simps)
  show "waiting (opc ?r)"
    by (simp add: p)
  show "round_inv s' ?r' (cur (mem s') t)" if n: "length (hist (mem s) LNum) \<le> 2 ^ 64"
  proof -
    have ri: "reg_clause s ?r" "snapshot_clause s ?r (cur (mem s) t)"
      using wake_invD(4) [OF wi n, of q] p by (simp_all add: poll_view [OF st] round_inv_def)
    have "reg_clause s' ?r'"
      using ri(1) has_seen_still [OF S e(5)] by (auto simp: reg_clause_def registered_def e p)
    moreover have "snapshot_clause s' ?r' (cur (mem s') t)"
      using ri(2) stillD(3) [OF S] stillD(7) [OF S, of t LNum]
      by (auto simp: snapshot_clause_def e p promise_def intro: order_trans)
    ultimately show ?thesis
      by (simp add: round_inv_def listen_clause_def e)
  qed
  show "info_writer s = None" if "subscriber_info s' \<noteq> None"
    using that e(4) wake_invD(2) [OF wi] by (simp add: info_inv_def)
  show "subscriber_info s' = None \<and> info_writer s = None" if "\<not> in_round (opc ?r')"
    using that e(1) by simp
qed

lemma wake_inv_unsubscribe:
  assumes inv: "thread_inv s" and gp: "gp_inv D s" and wi: "wake_inv s" and st: "poll_op q t i wk s = Some s'"
    and p: "opc (ops s q) = ODropInfo b"
  shows "wake_inv s'"
proof (rule wake_inv_wait [OF inv gp wi st])
  let ?r = "ops s q" and ?r' = "ops s' q"
  have W: "drop_subscriber_info b q t s = Some s'"
    using waiting_poll [OF st] p by simp
  show "waiting (opc ?r)"
    by (simp add: p)
  have reg: "registered ?r = had_already_registered (subscr ?r)"
    by (simp add: registered_def p)
  show "info_writer s = None" if "subscriber_info s' \<noteq> None"
    using W that wake_invD(2) [OF wi] by (auto simp: drop_subscriber_info_def info_inv_def upd_defs Let_def split: if_splits)
  have off: "\<not> in_round (opc ?r')"
    using W by (cases "wait_for ?r"; cases b) (auto simp: drop_subscriber_info_def Let_def split: if_splits)
  then show "round_inv s' ?r' (cur (mem s') t)" if "in_round (opc ?r')"
    using that by blast
  show "subscriber_info s' = None \<and> info_writer s = None" if n: "length (hist (mem s) LNum) \<le> 2 ^ 64"
  proof -
    have "reg_clause s ?r"
      using wake_invD(4) [OF wi n, of q] p by (simp add: poll_view [OF st] round_inv_def)
    then show ?thesis
      using W reg by (auto simp: drop_subscriber_info_def reg_clause_def upd_defs Let_def split: if_splits)
  qed
qed

subsection \<open>Every step\<close>

lemma wake_inv_poll:
  assumes inv: "thread_inv s" and inv': "thread_inv s'" and gp: "gp_inv D s" and gp': "gp_inv D s'" and wi: "wake_inv s"
    and st: "poll_op q t i wk s = Some s'"
  shows "wake_inv s'"
proof (cases "waiting (opc (ops s q))")
  case False
  then show ?thesis
    using sync_poll [OF st] wake_inv_sync [OF inv wi st] wake_inv_serialized [OF inv gp wi st] by blast
next
  case True
  note R = wake_inv_easy wake_inv_scan wake_inv_poll2 wake_inv_register_again wake_inv_register wake_inv_subscribe
    wake_inv_snapshot wake_inv_drop wake_inv_unsubscribe
  note R = R [OF inv gp wi st] wake_inv_fence [OF inv inv' gp gp' wi st]
  show ?thesis
    by (cases "opc (ops s q)"; cases "had_already_registered (subscr (ops s q))") (use True in \<open>auto intro: R\<close>)
qed

lemma wake_inv_step:
  assumes r: "reachable s" and wi: "wake_inv s" and st: "step ev s = Some s'"
  shows "wake_inv s'"
proof -
  note I = reachable_thread_inv [OF r] reachable_gp_inv [OF r]
  have I': "thread_inv s'" "gp_inv 0 s'"
    using step_invs [OF I st] by simp_all
  show ?thesis
  proof (cases ev)
    case (Hook h t i)
    then show ?thesis
      using wake_inv_hook [OF r wi] st by simp
  next
    case (Poll q t i wk)
    then show ?thesis
      using wake_inv_poll [OF I(1) I'(1) I(2) I'(2) wi] st by simp
  qed (rule wake_inv_user [OF I(1) wi st]; simp)+
qed

lemma wake_inv_init: "wake_inv (init_sys e0 addr)"
  by (simp add: wake_inv_def edges_inv_def info_inv_def mval_def) (simp add: init_sys_def)

interpretation wakeups: machine_invariant wake_inv
  by unfold_locales (auto intro: wake_inv_init wake_inv_step)

subsection \<open>What a sleeping call waits for\<close>

text \<open>
  A thread owes the notification if its slot says that it is busy and has not seen the epoch id. It delivers the
  notification to the waker \<open>w\<close> if it is inside a hook whose remaining operations, without help from any other
  thread, can come to an end, and whatever they load they come to an end only after they have taken the
  registration of the subscriber and have woken \<open>w\<close>.
\<close>

definition owes_notification :: "('w::len, 'g::len) rcu \<Rightarrow> 'w word wait \<Rightarrow> tid \<Rightarrow> bool" where
  "owes_notification s w t \<longleftrightarrow> (\<exists>sl. tslot (thr s t) = Some sl \<and> \<not> slot_ok w (last_word s sl))"

definition woke :: "('e, 'g) sys \<Rightarrow> nat \<Rightarrow> bool" where
  "woke s w \<longleftrightarrow> subscriber_info s = None \<and> w \<in> woken s"

definition delivers_notification :: "('w::len, 'g::len) rcu \<Rightarrow> nat \<Rightarrow> tid \<Rightarrow> bool" where
  "delivers_notification s w t \<longleftrightarrow> (\<exists>h. in_hook (tpc (thr s t)) = Some h \<and>
     (\<exists>evs s'. set evs \<subseteq> range (Hook h t) \<and> run evs s = Some s' \<and> in_hook (tpc (thr s' t)) = None \<and> woke s' w) \<and>
     (\<forall>evs s'. set evs \<subseteq> range (Hook h t) \<and> run evs s = Some s' \<and> in_hook (tpc (thr s' t)) = None \<longrightarrow> woke s' w))"

lemma late_owner:
  assumes inv: "thread_inv s" and l: "late s w"
  shows "\<exists>t. owes_notification s w t"
proof -
  obtain sl where sl: "nwords s sl \<noteq> 0" "\<not> slot_ok w (last_word s sl)"
    using l unfolding late_def by blast
  then have "word_busy (last_word s sl)"
    by (simp add: slot_ok_cases)
  then have "sl \<notin> set (free_slots s)"
    using thread_invD(7) [OF inv] unfolding inv_last_def by blast
  moreover have "sl < last_ix (mem s) LLen"
    using thread_invD(2) [OF inv] sl(1) by (simp add: inv_len_def)
  ultimately obtain t where "tslot (thr s t) = Some sl"
    using thread_invD(5) [OF inv] unfolding inv_owner_def by blast
  then show ?thesis
    using sl(2) by (auto simp: owes_notification_def)
qed

lemma run_hook_notify:
  "tpc (thr s t) = Notifying h n \<Longrightarrow> run_hook h t i s = thread_epoch_updated_notify_inner (h = Park) h n t i s"
  "tpc (thr s t) = NotifyFence h \<Longrightarrow> run_hook h t i s = Some (notify_fence h t s)"
  "tpc (thr s t) = after_hook h \<Longrightarrow> run_hook h t i s = None"
  by (cases h; simp)+

text \<open>The notifier before and after it has taken the registration, and how many operations it has left.\<close>

definition will_find :: "('w::len, 'g::len) rcu \<Rightarrow> nat \<Rightarrow> nat \<Rightarrow> tid \<Rightarrow> hook \<Rightarrow> bool" where
  "will_find s sn w t h \<longleftrightarrow> thread_inv s \<and> (\<exists>u. subscriber_info s = Some (w, u)) \<and> info_writer s = None \<and> notifying s sn t \<and>
     (tpc (thr s t) = NotifyFence h \<or> (\<exists>n. tpc (thr s t) = Notifying h n)) \<and> sn < length (hist (mem s) LNum) \<and>
     val_bool (mval (mem s) LHasSub (last_ix (mem s) LHasSub)) \<and> last_ix (mem s) LHasSub \<le> scv (mem s) LHasSub"

definition has_found :: "('e, 'g) sys \<Rightarrow> nat \<Rightarrow> tid \<Rightarrow> hook \<Rightarrow> bool" where
  "has_found s w t h \<longleftrightarrow> woke s w \<and> (tpc (thr s t) = Notifying h NClear \<or> tpc (thr s t) = after_hook h)"

fun remaining :: "'e tpc \<Rightarrow> nat" where
  "remaining (NotifyFence _) = 6"
| "remaining (Notifying _ n) = (case n of NLoad \<Rightarrow> 5 | NAdd \<Rightarrow> 4 | NRead \<Rightarrow> 3 | NWrite \<Rightarrow> 2 | NClear \<Rightarrow> 1)"
| "remaining _ = 0"

definition on_the_way :: "('w::len, 'g::len) rcu \<Rightarrow> nat \<Rightarrow> nat \<Rightarrow> tid \<Rightarrow> hook \<Rightarrow> bool" where
  "on_the_way s sn w t h \<longleftrightarrow> will_find s sn w t h \<or> has_found s w t h"

lemma remaining_after [simp]: "remaining (after_hook h) = 0" and in_hook_after [simp]: "in_hook (after_hook h) = None"
  by (cases h; simp)+

lemma will_find_step:
  assumes f: "will_find s sn w t h" and st: "run_hook h t i s = Some s1"
  shows "on_the_way s1 sn w t h" and "remaining (tpc (thr s1 t)) < remaining (tpc (thr s t))"
proof -
  note F = f [unfolded will_find_def]
  have inv1: "thread_inv s1"
    using F hook_steps_inv [OF hook_steps_run_hook [OF _ st]] by blast
  consider "tpc (thr s t) = NotifyFence h" | n where "tpc (thr s t) = Notifying h n"
    using F by blast
  then have "on_the_way s1 sn w t h \<and> remaining (tpc (thr s1 t)) < remaining (tpc (thr s t))"
  proof cases
    case 1
    then have "s1 = notify_fence h t s"
      using st run_hook_notify(2) by fastforce
    then show ?thesis
      using F inv1 1 by (auto simp: on_the_way_def will_find_def notifying_def skips_def notify_fence_def upd_defs view_simps
          mval_def last_ix_def)
  next
    case (2 n)
    then have N: "thread_epoch_updated_notify_inner (h = Park) h n t i s = Some s1"
      using st run_hook_notify(1) by fastforce
    have l: "i = last_ix (mem s) LHasSub" if "n = NLoad"
      using N F 2 that by (auto simp: notifying_def readable_def last_ix_def split: if_splits)
    show ?thesis
      using F inv1 N 2 l by (cases n) (auto simp: on_the_way_def will_find_def has_found_def woke_def notifying_def skips_def upd_defs
          view_simps mval_def last_ix_def Let_def split: if_splits)
  qed
  then show "on_the_way s1 sn w t h" and "remaining (tpc (thr s1 t)) < remaining (tpc (thr s t))"
    by auto
qed

lemma has_found_step:
  assumes f: "has_found s w t h" and st: "run_hook h t i s = Some s1"
  shows "on_the_way s1 sn w t h" and "remaining (tpc (thr s1 t)) < remaining (tpc (thr s t))"
proof -
  have p: "tpc (thr s t) = Notifying h NClear"
    using f st run_hook_notify(3) [of s t h i] by (auto simp: has_found_def)
  then show "on_the_way s1 sn w t h" and "remaining (tpc (thr s1 t)) < remaining (tpc (thr s t))"
    using f st run_hook_notify(1) [OF p, of i] by (auto simp: on_the_way_def has_found_def woke_def upd_defs)
qed

lemma way_step:
  assumes w: "on_the_way s sn w t h" and st: "run_hook h t i s = Some s1"
  shows "on_the_way s1 sn w t h" and "remaining (tpc (thr s1 t)) < remaining (tpc (thr s t))"
  using w [unfolded on_the_way_def] will_find_step [OF _ st] has_found_step [OF _ st] by blast+

lemma way_end: "on_the_way s sn w t h \<Longrightarrow> in_hook (tpc (thr s t)) = None \<Longrightarrow> woke s w"
  by (auto simp: on_the_way_def will_find_def has_found_def)

lemma way_enabled:
  assumes w: "on_the_way s sn w t h" and p: "in_hook (tpc (thr s t)) \<noteq> None"
  shows "\<exists>i s1. run_hook h t i s = Some s1"
  using w [unfolded on_the_way_def]
proof
  assume "will_find s sn w t h"
  note F = this [unfolded will_find_def]
  consider "tpc (thr s t) = NotifyFence h" | n where "tpc (thr s t) = Notifying h n"
    using F by blast
  then show ?thesis
  proof cases
    case (2 n)
    have "thread_epoch_updated_notify_inner (h = Park) h n t (last_ix (mem s) LHasSub) s \<noteq> None"
      using F by (intro notify_enabled) simp_all
    then show ?thesis
      using run_hook_notify(1) [OF 2] by auto
  qed (use run_hook_notify(2) in blast)
next
  assume f: "has_found s w t h"
  then have n: "tpc (thr s t) = Notifying h NClear"
    using p by (auto simp: has_found_def)
  show ?thesis
    using run_hook_notify(1) [OF n] by auto
qed

lemma way_run:
  assumes "on_the_way s sn w t h" and "set evs \<subseteq> range (Hook h t)" and "run evs s = Some s'"
  shows "on_the_way s' sn w t h"
  using assms
proof (induction evs arbitrary: s)
  case (Cons ev evs)
  then obtain i s1 where "ev = Hook h t i" "run_hook h t i s = Some s1" "run evs s1 = Some s'"
    by (auto split: option.splits)
  then show ?case
    using Cons.IH [OF way_step(1) [OF Cons.prems(1)]] Cons.prems(2) by auto
qed simp

lemma way_finishes:
  assumes "on_the_way s sn w t h"
  shows "\<exists>evs s'. set evs \<subseteq> range (Hook h t) \<and> run evs s = Some s' \<and> in_hook (tpc (thr s' t)) = None"
  using assms
proof (induction "remaining (tpc (thr s t))" arbitrary: s rule: less_induct)
  case less
  show ?case
  proof (cases "in_hook (tpc (thr s t)) = None")
    case True
    then show ?thesis
      by (intro exI [of _ "[]"]) simp
  next
    case False
    then obtain i s1 where s1: "run_hook h t i s = Some s1"
      using way_enabled [OF less.prems] by blast
    obtain evs s' where e: "set evs \<subseteq> range (Hook h t)" "run evs s1 = Some s'" "in_hook (tpc (thr s' t)) = None"
      using less.hyps [OF way_step(2, 1) [OF less.prems s1]] by blast
    have "set (Hook h t i # evs) \<subseteq> range (Hook h t)" "run (Hook h t i # evs) s = Some s'"
      using e(1, 2) s1 by auto
    then show ?thesis
      using e(3) by blast
  qed
qed

lemma notifying_delivers:
  assumes inv: "thread_inv s" and n: "notifying s sn t" and i: "subscriber_info s = Some (w, u)" "info_writer s = None"
    and flag: "val_bool (mval (mem s) LHasSub (last_ix (mem s) LHasSub))" "last_ix (mem s) LHasSub \<le> scv (mem s) LHasSub"
    and sn: "sn < length (hist (mem s) LNum)"
  shows "delivers_notification s w t"
proof -
  obtain h where h: "in_hook (tpc (thr s t)) = Some h" "tpc (thr s t) = NotifyFence h \<or> (\<exists>n. tpc (thr s t) = Notifying h n)"
    using n by (cases "tpc (thr s t)") (auto simp: notifying_def)
  then have w: "on_the_way s sn w t h"
    using assms by (simp add: on_the_way_def will_find_def)
  show ?thesis
    unfolding delivers_notification_def
    using h(1) way_finishes [OF w] way_end [OF way_run [OF w]] by blast
qed

lemma sleeper_has_notifier:
  assumes r: "reachable s" and len: "length (hist (mem s) LNum) \<le> 2 ^ 64"
    and p: "opc (ops s q) = OPend" and i: "subscriber_info s = Some (w, u)"
  shows "\<exists>t. owes_notification s (wait_for (ops s q)) t \<or> delivers_notification s w t"
proof -
  note inv = reachable_thread_inv [OF r] and wi = wakeups.holds [OF r]
  have ri: "reg_clause s (ops s q)" "listen_clause s (ops s q) (opview s q)" "snapshot_clause s (ops s q) (opview s q)"
    using wake_invD(4) [OF wi len, of q] p by (simp_all add: round_inv_def)
  have c: "\<not> consumed s (ops s q)"
    by (simp add: consumed_def i)
  obtain sn where o: "owed s (wait_for (ops s q)) sn" "sn < length (hist (mem s) LNum)"
    using ri(3) c p by (auto simp: snapshot_clause_def promise_def)
  have "info_writer s = None"
    using wake_invD(2) [OF wi] i by (simp add: info_inv_def)
  moreover have "val_bool (mval (mem s) LHasSub (last_ix (mem s) LHasSub))" "last_ix (mem s) LHasSub \<le> scv (mem s) LHasSub"
    using ri(2) c p by (simp_all add: listen_clause_def)
  ultimately show ?thesis
    using o late_owner [OF inv] notifying_delivers [OF inv _ i] unfolding owed_def by blast
qed

end
