(* ===== verification/Wait_Round.thy ===== *)
theory Wait_Round
  imports Wakeups
begin

text \<open>
  Rounds of \<open>wait_for_running_threads_to_see_epoch_id\<close>, with any steps of other threads in between: a round has a bounded
  number of steps, and a round in which all busy threads have published the epoch id succeeds.
\<close>

subsection \<open>The futures that are polled on a thread\<close>

definition tops_inv :: "('w::len, 'g::len) rcu \<Rightarrow> bool" where
  "tops_inv s \<longleftrightarrow> (\<forall>q t. attached (ops s q) = Some t \<longrightarrow> q \<in> tops (thr s t))"

lemma tops_inv_step:
  assumes inv: "thread_inv s" and ti: "tops_inv s" and st: "step ev s = Some s'"
  shows "tops_inv s'"
proof (cases ev)
  case (Hook h t i)
  then have f: "hook_frame t s s'"
    using st hook_frame_run_hook by simp
  then have "tops (thr s' u) = tops (thr s u)" for u
    by (cases "u = t") (simp_all add: hook_frame_def)
  then show ?thesis
    using ti f by (simp add: tops_inv_def hook_frame_def)
next
  case (Poll q t i wk)
  then have f: "op_frame q s s'"
    using st poll_op_frame [OF inv] by simp
  then have "attached (ops s' r) = attached (ops s r)" for r
    by (cases "r = q") (simp_all add: op_frame_def)
  then show ?thesis
    using ti f by (simp add: tops_inv_def op_frame_def)
qed (use ti st in \<open>auto simp: tops_inv_def wait_call_def wait_return_def suspend_def resume_def
    rcu_box_read_def use_reference_def drop_guards_def rcu_box_swap_def record_access_def upd_defs Let_def
    split: if_splits option.splits\<close>)

lemma tops_inv_init: "tops_inv (init_sys e0 addr)"
  by (simp add: tops_inv_def) (simp add: init_oper_def)

interpretation tops: machine_invariant tops_inv
  by unfold_locales (auto intro: tops_inv_init tops_inv_step reachable_thread_inv)

lemma polling_thread_stays:
  assumes ti: "tops_inv s" and a: "attached (ops s q) = Some t" and p: "tpc (thr s t) = Polling"
  shows "run_hook h t i s = None"
proof -
  have "tops (thr s t) \<noteq> {}"
    using ti a unfolding tops_inv_def by blast
  then show ?thesis
    using p by (cases h) simp_all
qed

subsection \<open>Steps of others\<close>

lemma user_keeps_call:
  assumes st: "step ev s = Some s'" and ev: "\<And>h t i. ev \<noteq> Hook h t i" "\<And>q t i wk. ev \<noteq> Poll q t i wk"
    and a: "attached (ops s q) = Some t" "attached (ops s' q) = Some t" and o: "opc (ops s q) \<noteq> ONone"
  shows "ops s' q = ops s q"
  using assms by (cases ev) (auto simp: wait_call_def wait_return_def suspend_def resume_def rcu_box_read_def
      use_reference_def drop_guards_def rcu_box_swap_def record_access_def upd_defs Let_def split: if_splits option.splits)

lemma other_keeps_call:
  assumes r: "reachable s" and st: "step ev s = Some s'" and ev: "\<And>u i wk. ev \<noteq> Poll q u i wk"
    and a: "attached (ops s q) = Some t" "attached (ops s' q) = Some t" and o: "opc (ops s q) \<noteq> ONone"
    and p: "tpc (thr s t) = Polling"
  shows "ops s' q = ops s q" and "tpc (thr s' t) = Polling" and "cur (mem s) t \<le> cur (mem s') t"
proof -
  note inv = reachable_thread_inv [OF r]
  have "ops s' q = ops s q \<and> tpc (thr s' t) = Polling \<and> grows (mem s) (mem s')"
  proof (cases "(\<exists>h u i. ev = Hook h u i) \<or> (\<exists>x u i wk. ev = Poll x u i wk)")
    case False
    have "grows (mem s) (mem s') \<and> tpc (thr s' t) = tpc (thr s t)"
      using stillD(2, 5) flags_sameD(1) [OF flags_same_user(1) [OF inv st]] False by blast
    then show ?thesis
      using user_keeps_call [OF st _ _ a o] False p by metis
  next
    case True
    then consider h u i where "ev = Hook h u i" | x u i wk where "ev = Poll x u i wk" "x \<noteq> q"
      using ev by blast
    then show ?thesis
    proof cases
      case 1
      then have h: "run_hook h u i s = Some s'"
        using st by simp
      then have "u \<noteq> t"
        using polling_thread_stays [OF tops.holds [OF r] a(1) p, of h i] by auto
      then show ?thesis
        using hook_frame_run_hook [OF h] hook_steps_run_hook [OF inv h] p
        by (simp add: hook_frame_def hook_steps_def gp_frame_def)
    next
      case 2
      then show ?thesis
        using st p poll_op_frame [OF inv, of x u i wk s'] stillD(2) [OF still_poll [OF inv, of x u i wk s']]
        by (simp add: op_frame_def)
    qed
  qed
  then show "ops s' q = ops s q" and "tpc (thr s' t) = Polling" and "cur (mem s) t \<le> cur (mem s') t"
    using growsD(1) by blast+
qed

subsection \<open>The length of a round\<close>

text \<open>\<open>n\<close> steps of the call in one round, with steps of others in between.\<close>

inductive round_run :: "nat \<Rightarrow> ('w::len, 'g::len) rcu \<Rightarrow> nat \<Rightarrow> ('w, 'g) rcu \<Rightarrow> bool" for q s where
  begins: "round_run q s 0 s"
| mine: "round_run q s n s1 \<Longrightarrow> waiting (opc (ops s1 q)) \<Longrightarrow> \<not> round_end (opc (ops s1 q)) \<Longrightarrow>
    poll_op q t i wk s1 = Some s' \<Longrightarrow> round_run q s (Suc n) s'"
| others: "round_run q s n s1 \<Longrightarrow> step ev s1 = Some s' \<Longrightarrow> (\<And>t i wk. ev \<noteq> Poll q t i wk) \<Longrightarrow> round_run q s n s'"

lemma wait_rank_le:
  assumes r: "reachable s"
  shows "wait_rank (ops s q) \<le> max_slots + 15"
proof -
  have "opc (ops s q) = OScan \<Longrightarrow> scan_len (ops s q) \<le> max_slots"
    using scan.holds [OF r] hooks_invD(2) [OF hooks.holds [OF r]] unfolding scan_inv_def by (meson order_trans)
  then show ?thesis
    by (cases "opc (ops s q)") (auto simp: wait_rank.simps)
qed

lemma wait_rank_task [simp]:
  "wait_rank (r\<lparr>attached := a\<rparr>) = wait_rank r"
  "wait_rank (r\<lparr>opc := OFinished\<rparr>) = 0"
  "wait_rank (r\<lparr>opc := OReadLock, attached := a, olds := X, call_view := V\<rparr>) = 0"
  by (cases "opc r"; simp add: wait_rank.simps)+

lemma wait_rank_others:
  assumes inv: "thread_inv s" and st: "step ev s = Some s'" and ev: "\<And>t i wk. ev \<noteq> Poll q t i wk"
  shows "wait_rank (ops s' q) \<le> wait_rank (ops s q)"
proof (cases ev)
  case (Hook h t i)
  then show ?thesis
    using st hook_frame_run_hook [of h t i s s'] by (simp add: hook_frame_def)
next
  case (Poll x t i wk)
  then have "x \<noteq> q"
    using ev by blast
  then show ?thesis
    using Poll st poll_op_frame [OF inv, of x t i wk s'] by (simp add: op_frame_def)
qed (use st in \<open>auto simp: wait_call_def wait_return_def suspend_def resume_def rcu_box_read_def use_reference_def
    drop_guards_def rcu_box_swap_def record_access_def upd_defs Let_def split: if_splits option.splits\<close>)

lemma round_run_rank:
  assumes "round_run q s n s'" and r: "reachable s"
  shows "reachable s'" and "n + wait_rank (ops s' q) \<le> wait_rank (ops s q)"
proof -
  have "reachable s' \<and> n + wait_rank (ops s' q) \<le> wait_rank (ops s q)"
    using assms(1)
  proof induction
    case (mine n s1 t i wk s')
    then show ?case
      using wait_rank_less [of s1 q t i wk s'] reachable.step [of s1 "Poll q t i wk" s'] by fastforce
  next
    case (others n s1 ev s')
    then show ?case
      using wait_rank_others [OF reachable_thread_inv others.hyps(2, 3)] reachable.step [OF _ others.hyps(2)] by fastforce
  qed (simp add: r)
  then show "reachable s'" and "n + wait_rank (ops s' q) \<le> wait_rank (ops s q)"
    by blast+
qed

lemma round_run_bound: "round_run q s n s' \<Longrightarrow> reachable s \<Longrightarrow> n \<le> max_slots + 15"
  using round_run_rank(2) [of q s n s'] wait_rank_le [of s q] by simp

text \<open>Polls on one thread, as long as the round goes on.\<close>

fun round_polls :: "nat \<Rightarrow> tid \<Rightarrow> nat \<Rightarrow> nat list \<Rightarrow> ('w::len, 'g::len) rcu \<Rightarrow> ('w, 'g) rcu option" where
  "round_polls q t wk [] s = Some s"
| "round_polls q t wk (i # is) s =
     (if waiting (opc (ops s q)) \<and> \<not> round_end (opc (ops s q))
      then Option.bind (poll_op q t i wk s) (round_polls q t wk is) else None)"

lemma round_run_polls:
  "round_run q s n s1 \<Longrightarrow> round_polls q t wk is s1 = Some s' \<Longrightarrow> round_run q s (n + length is) s'"
proof (induction "is" arbitrary: n s1)
  case (Cons i xs)
  then obtain s2 where "waiting (opc (ops s1 q))" "\<not> round_end (opc (ops s1 q))" "poll_op q t i wk s1 = Some s2"
      and s2: "round_polls q t wk xs s2 = Some s'"
    by (auto split: if_splits bind_splits)
  then have "round_run q s (Suc n) s2"
    using round_run.mine [OF Cons.prems(1)] by blast
  from Cons.IH [OF this s2] show ?case
    by simp
qed simp

subsection \<open>Rounds that succeed\<close>

text \<open>
  Every busy thread has published the epoch id, and, until the call has fenced, no thread is before the fence of its
  notifier.
\<close>

definition published :: "('w::len, 'g::len) rcu \<Rightarrow> nat \<Rightarrow> bool" where
  "published s q \<longleftrightarrow> (\<forall>t. \<not> owes_notification s (wait_for (ops s q)) t) \<and>
     (opc (ops s q) \<in> {OSub, OSnap, OFence} \<longrightarrow> (\<forall>t h. tpc (thr s t) \<noteq> NotifyFence h))"

text \<open>Steps of the call in its wait, and steps of others as long as that holds and the call stays on its thread.\<close>

inductive published_run :: "nat \<Rightarrow> tid \<Rightarrow> ('w::len, 'g::len) rcu \<Rightarrow> ('w, 'g) rcu \<Rightarrow> bool" for q t s where
  begins: "published_run q t s s"
| mine: "published_run q t s s1 \<Longrightarrow> waiting (opc (ops s1 q)) \<Longrightarrow> poll_op q t i wk s1 = Some s' \<Longrightarrow> published_run q t s s'"
| others: "published_run q t s s1 \<Longrightarrow> step ev s1 = Some s' \<Longrightarrow> (\<And>u i wk. ev \<noteq> Poll q u i wk) \<Longrightarrow>
    attached (ops s' q) = Some t \<Longrightarrow> published s' q \<Longrightarrow> published_run q t s s'"

text \<open>Steps of the call alone.\<close>

inductive wait_polls :: "nat \<Rightarrow> tid \<Rightarrow> ('w::len, 'g::len) rcu \<Rightarrow> ('w, 'g) rcu \<Rightarrow> bool" for q t s where
  start: "wait_polls q t s s"
| poll: "wait_polls q t s s1 \<Longrightarrow> waiting (opc (ops s1 q)) \<Longrightarrow> poll_op q t i wk s1 = Some s' \<Longrightarrow> wait_polls q t s s'"

definition no_misses :: "('w::len, 'g::len) rcu \<Rightarrow> 'w word wait \<Rightarrow> loc view \<Rightarrow> bool" where
  "no_misses s w X \<longleftrightarrow> (\<forall>sl k. X (LSlot sl) \<le> k \<and> k < nwords s sl \<longrightarrow> slot_ok w (word_at s sl k))"

text \<open>The round has not failed: it will not register, and no load of the scan can miss an epoch id.\<close>

definition succeeding :: "('w::len, 'g::len) rcu \<Rightarrow> nat \<Rightarrow> loc view \<Rightarrow> bool" where
  "succeeding s q X \<longleftrightarrow> (let p = opc (ops s q); w = wait_for (ops s q) in
     p \<in> {OSub, OSnap} \<or> p = after_wait w \<or>
     \<not> had_already_registered (subscr (ops s q)) \<and>
       (p \<in> {OFence, ODrop True, ODropInfo True} \<or> p \<in> {OTid, OScanBegin, OScan, OScanEnd True} \<and> no_misses s w X))"

lemma after_wait_out [simp]: "\<not> waiting (after_wait w)" "\<not> round_end (after_wait w)" "after_wait w \<noteq> ONone"
  "ODropInfo b \<noteq> after_wait w" "OFence \<noteq> after_wait w" "after_wait w \<noteq> OSub" "after_wait w \<noteq> OSnap" "after_wait w \<noteq> OFence"
  by (cases w; simp add: round_end_def)+

lemma succeeding_pos:
  assumes "succeeding s q X"
  shows "opc (ops s q) = after_wait (wait_for (ops s q)) \<or> waiting (opc (ops s q)) \<and> \<not> round_end (opc (ops s q))"
  using assms by (auto simp: succeeding_def round_end_def Let_def)

lemma succeeding_no_misses:
  assumes "succeeding s q X" and "ops s' q = ops s q"
    and "no_misses s (wait_for (ops s q)) X \<Longrightarrow> no_misses s' (wait_for (ops s q)) X'"
  shows "succeeding s' q X'"
  using assms by (auto simp: succeeding_def Let_def)

lemma published_not_late:
  assumes "thread_inv s" and "published s q" and "k < nwords s sl"
  shows "slot_ok (wait_for (ops s q)) (last_word s sl)"
  using late_owner [OF assms(1), of "wait_for (ops s q)"] assms(2, 3) unfolding late_def published_def
  by (metis less_nat_zero_code)

lemma no_misses_still:
  assumes st: "still s s'" and n: "no_misses s w X" and X: "X \<le> X'"
  shows "no_misses s' w X'"
  unfolding no_misses_def
proof (intro allI impI, elim conjE)
  fix sl k
  note W = words_sameD [OF stillD(1) [OF st]]
  assume k: "X' (LSlot sl) \<le> k" "k < nwords s' sl"
  then have "X (LSlot sl) \<le> k"
    using X by (meson le_funD order_trans)
  then show "slot_ok w (word_at s' sl k)"
    using n k(2) unfolding no_misses_def W by blast
qed


lemma fence_no_misses:
  assumes inv: "thread_inv s" and len: "2 < LENGTH('w)" and e: "edges_inv (s :: ('w::len, 'g::len) rcu)"
    and we: "wait_epochs s w" and late: "\<not> late s w" and nf: "\<And>t h. tpc (thr s t) \<noteq> NotifyFence h"
    and X: "\<And>sl. scv (mem s) (LSlot sl) \<le> X (LSlot sl)"
  shows "no_misses s w X"
proof -
  have "slot_ok w (word_at s sl k)" if k: "X (LSlot sl) \<le> k" "k < nwords s sl" for sl k
  proof (rule ccontr)
    assume n: "\<not> slot_ok w (word_at s sl k)"
    have "slot_ok w (last_word s sl)"
      using late k(2) unfolding late_def by (metis less_nat_zero_code)
    then show False
      using missed_word_author [OF inv len e we k(2) n] k(1) X [of sl] nf by (meson order_trans)
  qed
  then show ?thesis
    unfolding no_misses_def by blast
qed

lemma published_still:
  assumes st: "still s s'" and p: "published s q" and w: "wait_for (ops s' q) = wait_for (ops s q)"
    and o: "opc (ops s' q) \<in> {OSub, OSnap, OFence} \<Longrightarrow> opc (ops s q) \<in> {OSub, OSnap, OFence}"
  shows "published s' q"
  using p o stillD(5, 6) [OF st] words_sameD [OF stillD(1) [OF st]] by (auto simp: published_def owes_notification_def w)

lemma succeeding_step:
  assumes r: "reachable s" and st: "poll_op q t i wk s = Some s'" and p: "published s q"
    and w: "waiting (opc (ops s q))" and su: "succeeding s q (cur (mem s) t)"
  shows "succeeding s' q (cur (mem s') t)" and "wait_for (ops s' q) = wait_for (ops s q)" and "published s' q"
proof -
  note I = reachable_thread_inv [OF r] reachable_gp_inv [OF r]
  have I': "thread_inv s'" "gp_inv 0 s'"
    using step_invs [OF I, of "Poll q t i wk" s'] st by simp_all
  note S = still_poll [OF I(1) st] and W = waiting_poll [OF st w]
  have X: "cur (mem s) t \<le> cur (mem s') t"
    by (rule growsD(1) [OF stillD(2) [OF S]])
  show wf: "wait_for (ops s' q) = wait_for (ops s q)"
    using W w su by (cases "opc (ops s q)") (auto simp: succeeding_def op_defs Let_def split: if_splits option.splits)
  have n: "no_misses s' (wait_for (ops s q)) (cur (mem s') t)" if "no_misses s (wait_for (ops s q)) (cur (mem s) t)"
    by (rule no_misses_still [OF S that X])
  have sub: "subscr (ops s' q) = subscr (ops s q)" if "opc (ops s q) \<in> {OFence, OTid, OScanBegin, OScan, OScanEnd True, ODrop True, ODropInfo True}"
    using W that by (auto simp: op_defs begin_scan_def scan_slot_def Let_def split: if_splits option.splits)
  consider "opc (ops s q) = OSub" | "opc (ops s q) = OSnap" | "opc (ops s q) = OFence"
    | "opc (ops s q) \<in> {OTid, OScanBegin, OScanEnd True}" "no_misses s (wait_for (ops s q)) (cur (mem s) t)"
    | "opc (ops s q) = OScan" "no_misses s (wait_for (ops s q)) (cur (mem s) t)"
    | "opc (ops s q) = ODrop True" | "opc (ops s q) = ODropInfo True"
    using su w unfolding succeeding_def Let_def by auto
  note C = this
  have "opc (ops s' q) \<notin> {OSub, OSnap, OFence}"
    if "opc (ops s q) \<in> {OTid, OScanBegin, OScan, OScanEnd True, ODrop True, ODropInfo True}"
    using that by (elim insertE emptyE; use W in \<open>auto simp: op_defs begin_scan_def scan_slot_def Let_def split: if_splits option.splits\<close>)
  then show "published s' q"
    using C by (intro published_still [OF S p wf]) auto
  have "opc (ops s q) \<noteq> after_wait (wait_for (ops s q))"
    using w by (metis after_wait_out(1))
  then have reg: "\<not> had_already_registered (subscr (ops s q))" if "opc (ops s q) \<notin> {OSub, OSnap}"
    using su that by (auto simp: succeeding_def Let_def)
  show "succeeding s' q (cur (mem s') t)"
    using C
  proof cases
    case 3
    then have s': "s' = set_opc q OTid (on_mem (fence_sc t) s)"
      using W by simp
    have late: "\<not> late s (wait_for (ops s q))" and nf: "\<And>t h. tpc (thr s t) \<noteq> NotifyFence h"
      using p 3 late_owner [OF I(1)] by (auto simp: published_def)
    have "no_misses s' (wait_for (ops s q)) (cur (mem s') t)"
    proof (rule fence_no_misses [OF I'(1) gp_invD(1) [OF I(2)] edges_still [OF S wake_invD(1) [OF wakeups.holds [OF r]]]])
      show "wait_epochs s' (wait_for (ops s q))"
        using waiting_facts(1) [OF I'(2), of q] wf by (simp add: s')
    qed (use late nf in \<open>simp_all add: s' late_def view_simps mval_def last_ix_def\<close>)
    then show ?thesis
      using reg 3 sub by (simp add: succeeding_def s' upd_defs)
  next
    case 4
    then have "opc (ops s' q) \<in> {OScanBegin, OScan, ODrop True}"
      using W by (auto simp: begin_scan_def Let_def split: if_splits option.splits)
    then show ?thesis
      using n [OF 4(2)] sub 4(1) reg by (auto simp: succeeding_def Let_def wf)
  next
    case 5
    have ok: "slot_ok (wait_for (ops s q)) (word_at s sl i)" if "readable t (LSlot sl) i (mem s)" for sl
      using 5(2) that unfolding no_misses_def readable_def by blast
    have "opc (ops s' q) \<in> {OScan, OScanEnd True}"
      using W 5(1) ok by (auto simp: scan_slot_def Let_def split: if_splits)
    then show ?thesis
      using n [OF 5(2)] sub 5(1) reg by (auto simp: succeeding_def Let_def wf)
  qed (use W reg in \<open>auto simp: succeeding_def op_defs Let_def split: if_splits\<close>)
qed

text \<open>What holds along the round.\<close>

definition on_track :: "('w::len, 'g::len) rcu \<Rightarrow> nat \<Rightarrow> tid \<Rightarrow> 'w word wait \<Rightarrow> bool" where
  "on_track s q t w \<longleftrightarrow> reachable s \<and> attached (ops s q) = Some t \<and> tpc (thr s t) = Polling \<and>
     wait_for (ops s q) = w \<and> published s q \<and> succeeding s q (cur (mem s) t)"

lemma on_track_poll:
  assumes "on_track s q t w" and w: "waiting (opc (ops s q))" and st: "poll_op q t i wk s = Some s'"
  shows "on_track s' q t w"
proof -
  note T = assms(1) [unfolded on_track_def]
  have "reachable s'"
    using T reachable.step [of s "Poll q t i wk" s'] st by simp
  moreover have "attached (ops s' q) = Some t" "thr s' = thr s"
    using T poll_op_frame [OF reachable_thread_inv st] by (simp_all add: op_frame_def)
  moreover have "succeeding s' q (cur (mem s') t)" "wait_for (ops s' q) = w" "published s' q"
    using T succeeding_step [OF _ st _ w] by simp_all
  ultimately show ?thesis
    using T by (simp add: on_track_def)
qed

text \<open>A hook of another thread may publish a state word, which in the end is one that is not waited for.\<close>

lemma no_misses_hook:
  assumes r: "reachable s" and st: "run_hook h u i s = Some s'" and n: "no_misses s w X" and X: "X \<le> X'"
    and late: "\<not> late s' w"
  shows "no_misses s' w X'"
  unfolding no_misses_def
proof (intro allI impI, elim conjE)
  fix sl k
  assume k: "X' (LSlot sl) \<le> k" "k < nwords s' sl"
  then have x: "X (LSlot sl) \<le> k"
    using X by (meson le_funD order_trans)
  have inv: "thread_inv s"
    by (rule reachable_thread_inv [OF r])
  have same: "slot_ok w (word_at s' sl k)" if "words_same s s'"
    using n x k(2) words_sameD [OF that] by (simp add: no_misses_def)
  have "hook_kind u s s'"
    using hook_stepI(1) [OF r wakeups.holds [OF r] st] by (rule hstep_kind)
  then show "slot_ok w (word_at s' sl k)"
  proof cases
    case (writes x v)
    note A = appendedD [OF writes(1)]
    show ?thesis
    proof (cases "k < nwords s sl")
      case True
      then show ?thesis
        using n x A(2) [OF True] by (simp add: no_misses_def)
    next
      case False
      then have "sl = x" "k = nwords s x"
        using k(2) A(1) [of sl] by (auto split: if_splits)
      moreover have "nwords s' x = Suc (nwords s x)"
        using A(1) [of x] by simp
      then have "slot_ok w (last_word s' x)"
        using late unfolding late_def by (metis Suc_not_Zero)
      ultimately show ?thesis
        using A(3, 4) by simp
    qed
  qed (use same notify_keeps(1) in blast)+
qed

lemma on_track_others:
  assumes T: "on_track s q t w" and st: "step ev s = Some s'" and ev: "\<And>u i wk. ev \<noteq> Poll q u i wk"
    and a: "attached (ops s' q) = Some t" and p: "published s' q"
  shows "on_track s' q t w"
proof -
  note D = T [unfolded on_track_def]
  have r: "reachable s" and inv: "thread_inv s"
    using D reachable_thread_inv by blast+
  have r': "reachable s'"
    by (rule reachable.step [OF r st])
  have "opc (ops s q) \<noteq> ONone"
    using D succeeding_pos [of s q] by fastforce
  note K = other_keeps_call [OF r st ev _ a this]
  have k: "ops s' q = ops s q" "tpc (thr s' t) = Polling" "cur (mem s) t \<le> cur (mem s') t"
    using K D by blast+
  have "no_misses s' w (cur (mem s') t)" if n: "no_misses s w (cur (mem s) t)"
  proof (cases "\<exists>h u i. ev = Hook h u i")
    case True
    then obtain h u i where h: "run_hook h u i s = Some s'"
      using st by auto
    have "\<not> late s' w"
      using late_owner [OF reachable_thread_inv [OF r']] p k(1) D by (auto simp: published_def)
    then show ?thesis
      by (rule no_misses_hook [OF r h n k(3)])
  next
    case False
    have "still s s'"
    proof (cases "\<exists>x u i wk. ev = Poll x u i wk")
      case True
      then show ?thesis
        using st still_poll [OF inv] by auto
    next
      case no: False
      show ?thesis
        by (rule flags_sameD(1) [OF flags_same_user(1) [OF inv st]]) (use False no in blast)+
    qed
    then show ?thesis
      by (rule no_misses_still [OF _ n k(3)])
  qed
  then have "succeeding s' q (cur (mem s') t)"
    by (intro succeeding_no_misses [OF _ k(1)]) (use D in auto)
  then show ?thesis
    using r' a k p D by (simp add: on_track_def)
qed

lemma on_track_run: "published_run q t s s' \<Longrightarrow> on_track s q t w \<Longrightarrow> on_track s' q t w"
proof (induction rule: published_run.induct)
  case (mine s1 i wk s')
  then show ?case
    using on_track_poll by blast
next
  case (others s1 ev s')
  then show ?case
    using on_track_others [OF others.IH [OF others.prems] others.hyps(2, 3)] by blast
qed

lemma wait_polls_from: "wait_polls q t s1 s' \<Longrightarrow> waiting (opc (ops s q)) \<Longrightarrow> poll_op q t i wk s = Some s1 \<Longrightarrow> wait_polls q t s s'"
  by (induction rule: wait_polls.induct) (auto intro: wait_polls.intros)

lemma on_track_enabled:
  assumes T: "on_track s q t w" and p: "waiting (opc (ops s q))" "\<not> round_end (opc (ops s q))"
  shows "\<exists>i s1. poll_op q t i 0 s = Some s1"
proof (cases "opc (ops s q) = ODropInfo True")
  case True
  then have "\<not> had_already_registered (subscr (ops s q))"
    using T by (auto simp: on_track_def succeeding_def Let_def)
  then show ?thesis
    using poll_opI [of s q t 0 0] T True by (simp add: on_track_def drop_subscriber_info_def)
next
  case False
  moreover have "opc (ops s q) \<noteq> after_wait w"
    using p(1) by (metis after_wait_out(1))
  ultimately have "\<not> blocked s q (opc (ops s q))"
    using T p by (cases "opc (ops s q)") (auto simp: round_end_def on_track_def succeeding_def Let_def)
  then show ?thesis
    using T poll_enabled [of s q t 0] waiting_pos(5) [OF p(1)] waiting_pos(12) [OF p(1)] by (auto simp: on_track_def)
qed

lemma on_track_finishes:
  assumes "on_track s q t w"
  shows "\<exists>s'. wait_polls q t s s' \<and> opc (ops s' q) = after_wait w"
  using assms
proof (induction "wait_rank (ops s q)" arbitrary: s rule: less_induct)
  case less
  note T = less.prems [unfolded on_track_def]
  show ?case
  proof (cases "opc (ops s q) = after_wait w")
    case True
    then show ?thesis
      using wait_polls.start by blast
  next
    case False
    then have p: "waiting (opc (ops s q))" "\<not> round_end (opc (ops s q))"
      using T succeeding_pos by blast+
    then obtain i s1 where s1: "poll_op q t i 0 s = Some s1"
      using on_track_enabled [OF less.prems] by blast
    then show ?thesis
      using less.hyps [OF wait_rank_less [OF _ s1 p] on_track_poll [OF less.prems p(1) s1]] T wait_polls_from [OF _ p(1) s1]
      by blast
  qed
qed

text \<open>
  A round that starts when the busy threads have published, and as long as that holds, is never about to sleep or to
  repeat itself, and at every point the call can finish it by itself.
\<close>

lemma published_round_succeeds:
  assumes "reachable s" and "attached (ops s q) = Some t" and "tpc (thr s t) = Polling" and "opc (ops s q) = OSub"
    and "published s q" and "published_run q t s s'"
  shows "opc (ops s' q) = after_wait (wait_for (ops s q)) \<or> waiting (opc (ops s' q)) \<and> \<not> round_end (opc (ops s' q))"
    and "\<exists>s''. wait_polls q t s' s'' \<and> opc (ops s'' q) = after_wait (wait_for (ops s q))"
proof -
  have "on_track s q t (wait_for (ops s q))"
    using assms by (simp add: on_track_def succeeding_def)
  then have T: "on_track s' q t (wait_for (ops s q))"
    by (rule on_track_run [OF assms(6)])
  show "\<exists>s''. wait_polls q t s' s'' \<and> opc (ops s'' q) = after_wait (wait_for (ops s q))"
    by (rule on_track_finishes [OF T])
  show "opc (ops s' q) = after_wait (wait_for (ops s q)) \<or> waiting (opc (ops s' q)) \<and> \<not> round_end (opc (ops s' q))"
    using T succeeding_pos unfolding on_track_def by metis
qed

end
