(* ===== verification/Wait_Yields.thy ===== *)
theory Wait_Yields
  imports Wait_Round
begin

text \<open>
  A wait for a grace period yields at least once: as long as the call is not suspended, the state word of its own
  thread says that the thread has not seen the epoch id.
\<close>

subsection \<open>One poll of a call\<close>

text \<open>Any steps of anybody, as long as the call is not suspended.\<close>

inductive one_poll :: "nat \<Rightarrow> tid \<Rightarrow> ('w::len, 'g::len) rcu \<Rightarrow> ('w, 'g) rcu \<Rightarrow> bool" for q t s where
  begins: "one_poll q t s s"
| goes_on: "one_poll q t s s1 \<Longrightarrow> step ev s1 = Some s' \<Longrightarrow> attached (ops s' q) = Some t \<Longrightarrow> one_poll q t s s'"

text \<open>The own slot of the thread holds the wait up.\<close>

definition held_up :: "('w::len, 'g::len) rcu \<Rightarrow> nat \<Rightarrow> nat \<Rightarrow> bool" where
  "held_up s q sl \<longleftrightarrow> (let r = ops s q in waiting (opc r) \<and> real_wait (wait_for r) \<and> \<not> slot_ok (wait_for r) (last_word s sl) \<and>
     opc r \<notin> {OScanEnd True, ODrop True, ODropInfo True} \<and> (opc r = OScan \<longrightarrow> scan_pos r \<le> sl \<and> sl < scan_len r))"

definition wait_ahead :: "'e opc \<Rightarrow> bool" where
  "wait_ahead p \<longleftrightarrow> p = OSetAfterReset \<or> (\<exists>e. p = OSetEpoch e)"

text \<open>The new epoch id is newer than what the thread has published.\<close>

lemma own_word_late:
  assumes inv: "thread_inv s" and inv': "thread_inv s'" and gp': "gp_inv D s'" and w: "waiting (opc (ops s' q))" "real_wait (wait_for (ops s' q))"
    and t: "attached (ops s' q) = Some t" "tslot (thr s' t) = Some sl" "tpc (thr s' t) = Polling"
    and words: "hist (mem s') (LSlot sl) = hist (mem s) (LSlot sl)" and ep: "nepochs s' = Suc (nepochs s)"
  shows "\<not> slot_ok (wait_for (ops s' q)) (last_word s' sl)"
proof
  let ?w = "wait_for (ops s' q)" and ?k = "last_ix (mem s') (LSlot sl)"
  assume ok: "slot_ok ?w (last_word s' sl)"
  have n: "?k < nwords s' sl"
    using owner_knows(6) [OF inv' t(2)] by (simp add: last_ix_def)
  have lw: "word_busy (last_word s' sl)" "word_seen (last_word s' sl) \<noteq> 0"
    using thread_invD(7) [OF inv'] t(2, 3) unfolding inv_last_def last_word_ok_def by fastforce+
  have "opview s' q = cur (mem s') t"
    by (simp add: opview_def t(1))
  then have o: "wait_epochs s' ?w" "settled D s' (nepochs s' - wait_base ?w) (cur (mem s') t)"
    using gp_invD(3) [OF gp', of q] unfolding op_inv_waiting [OF w(1)] by simp_all
  obtain b where b: "base s' b (cur (mem s') t)"
    and last: "\<And>j. b \<le> j \<Longrightarrow> j < nepochs s' \<Longrightarrow> last_seen_epoch_id_predicate ?w (epoch_at s' j) \<Longrightarrow> j = epoch_ix s'"
    using settled_last [OF inv' gp_invD(7, 1) [OF gp'] o(1) w(2) o(2)] by blast
  obtain c where c: "c \<le> cur (mem s') t (LSlot sl)" "fresh_at s' (\<lambda>_. 0) b c sl"
    using b unfolding base_def by blast
  have "c \<le> ?k"
    using c(1) wf_memD(4) [OF thread_invD(1) [OF inv'], of t] unfolding bounded_def by (meson order_trans)
  then obtain j where j: "b \<le> j" "word_source s' sl ?k j"
    using c(2) n lw unfolding fresh_at_def by blast
  have "last_seen_epoch_id_predicate ?w (epoch_at s' j)"
    using ok lw(1) j(2) by (simp add: slot_ok_cases word_source_def)
  then have "j = epoch_ix s'"
    using last [OF j(1)] j(2) by (simp add: word_source_def)
  then have "nepochs s \<le> wview s' sl ?k LEpoch"
    using j(2) ep by (simp add: word_source_def last_ix_def)
  moreover have "wview s' sl ?k LEpoch \<le> last_ix (mem s) LEpoch"
    using wf_memD(8) [OF thread_invD(1) [OF inv], of ?k "LSlot sl"] n unfolding bounded_def by (simp add: mview_def words)
  ultimately show False
    using last_ix_less [OF nonempty(1) [OF inv]] by simp
qed

lemma held_up_poll:
  assumes inv: "thread_inv s" and st: "poll_op q t i wk s = Some s'" and sl: "tslot (thr s t) = Some sl" and hu: "held_up s q sl"
  shows "held_up s' q sl"
proof -
  have h: "waiting (opc (ops s q))" "real_wait (wait_for (ops s q))" "\<not> slot_ok (wait_for (ops s q)) (last_word s sl)"
      "opc (ops s q) \<notin> {OScanEnd True, ODrop True, ODropInfo True}"
      "opc (ops s q) = OScan \<Longrightarrow> scan_pos (ops s q) \<le> sl \<and> sl < scan_len (ops s q)"
    using hu by (auto simp: held_up_def Let_def)
  note W = waiting_poll [OF st h(1)]
  have same: "last_word s' sl = last_word s sl"
    using words_sameD [OF stillD(1) [OF still_poll [OF inv st]]] by simp
  have inc: "include_calling_thread (wait_for (ops s q))"
    using h(2) by (cases "wait_for (ops s q)") simp_all
  have scan_begins: "sl < scan_len (ops s' q) \<and> scan_pos (ops s' q) = 0" if "begin_scan q t i s = Some s'"
  proof -
    have i: "cur (mem s) t LLen \<le> i" "i < length (hist (mem s) LLen)" "scan_len (ops s' q) = val_len (mval (mem s) LLen i)"
        "scan_pos (ops s' q) = 0"
      using that by (auto simp: begin_scan_def readable_def view_simps mval_def Let_def split: if_splits)
    then show ?thesis
      using owner_knows(2) [OF inv sl] thread_invD(2) [OF inv] by (simp add: inv_len_def)
  qed
  have fails: "\<not> slot_ok (wait_for (ops s q)) (word_at s sl i)" if "readable t (LSlot sl) i (mem s)"
    using own_word [OF inv sl that] h(3) by simp
  show ?thesis
  proof (cases "opc (ops s q) = OScan")
    case True
    then have "opc (ops s' q) = OScan \<and> scan_pos (ops s' q) \<le> sl \<and> sl < scan_len (ops s' q) \<or> opc (ops s' q) = OScanEnd False"
        "wait_for (ops s' q) = wait_for (ops s q)"
      using W h(5) [OF True] inc fails
      by (cases "slot_ok (wait_for (ops s q)) (word_at s (scan_pos (ops s q)) i)"; cases "scan_pos (ops s q) = sl";
        auto simp: scan_slot_def Let_def split: if_splits)+
    then show ?thesis
      using h(2, 3) same by (auto simp: held_up_def Let_def)
  next
    case False
    then show ?thesis
      using W h(1-4) scan_begins unfolding held_up_def Let_def same
      by (cases "opc (ops s q)") (auto simp: op_defs Let_def split: if_splits option.splits)
  qed
qed

lemma held_up_starts:
  assumes r: "reachable s" and st: "poll_op q t i wk s = Some s'" and sl: "tslot (thr s t) = Some sl" and p: "wait_ahead (opc (ops s q))"
  shows "held_up s' q sl"
proof -
  note I = reachable_thread_inv [OF r] reachable_gp_inv [OF r]
  have I': "thread_inv s'" "gp_inv 0 s'"
    using step_invs [OF I, of "Poll q t i wk" s'] st by simp_all
  have e: "opc (ops s' q) = OSub" "real_wait (wait_for (ops s' q))" "nepochs s' = Suc (nepochs s)"
      "hist (mem s') (LSlot sl) = hist (mem s) (LSlot sl)"
    using st p by (auto simp: wait_ahead_def poll_op_def Let_def op_defs view_simps split: if_splits)
  have "attached (ops s' q) = Some t" "tslot (thr s' t) = Some sl" "tpc (thr s' t) = Polling"
    using poll_op_frame [OF I(1) st] poll_op_guard [OF st] sl by (simp_all add: op_frame_def)
  from own_word_late [OF I(1) I' _ e(2) this e(4, 3)] show ?thesis
    using e(1, 2) by (simp add: held_up_def)
qed

text \<open>What holds as long as the call is polled.\<close>

definition yields_next :: "('w::len, 'g::len) rcu \<Rightarrow> nat \<Rightarrow> tid \<Rightarrow> nat \<Rightarrow> bool" where
  "yields_next s q t sl \<longleftrightarrow> reachable s \<and> attached (ops s q) = Some t \<and> tpc (thr s t) = Polling \<and> tslot (thr s t) = Some sl \<and>
     (wait_ahead (opc (ops s q)) \<or> held_up s q sl)"

lemma yields_next_frame:
  assumes "yields_next s q t sl" and "reachable s'" and "ops s' q = ops s q" and "tpc (thr s' t) = tpc (thr s t)"
    and "tslot (thr s' t) = tslot (thr s t)" and "last_word s' sl = last_word s sl"
  shows "yields_next s' q t sl"
  using assms by (auto simp: yields_next_def held_up_def)

lemma yields_next_still:
  assumes "yields_next s q t sl" and "reachable s'" and "ops s' q = ops s q" and st: "still s s'"
  shows "yields_next s' q t sl"
  using yields_next_frame [OF assms(1-3)] stillD(5, 6) [OF st] words_sameD [OF stillD(1) [OF st]] by simp

lemma yields_next_hook:
  assumes y: "yields_next s q t sl" and h: "run_hook h u i s = Some s'"
  shows "yields_next s' q t sl"
proof -
  note Y = y [unfolded yields_next_def]
  then have r: "reachable s"
    by blast
  have "u \<noteq> t"
    using polling_thread_stays [OF tops.holds [OF r], of q t h i] Y h by auto
  note H = hook_stepI [OF r wakeups.holds [OF r] h]
  have "thr s' t = thr s t"
    using hstep_oth [OF H(1)] \<open>u \<noteq> t\<close> by metis
  moreover have "last_word s' sl = last_word s sl"
    using own_word_same [OF H(1), of t sl] \<open>u \<noteq> t\<close> Y by simp
  moreover have "reachable s'"
    using reachable.step [OF r, of "Hook h u i" s'] h by simp
  ultimately show ?thesis
    using H(3) by (intro yields_next_frame [OF y]) simp_all
qed

lemma yields_next_poll:
  assumes y: "yields_next s q t sl" and p: "poll_op x u i wk s = Some s'"
  shows "yields_next s' q t sl"
proof -
  note Y = y [unfolded yields_next_def]
  have r: "reachable s" and inv: "thread_inv s"
    using Y reachable_thread_inv by blast+
  have r': "reachable s'"
    using reachable.step [OF r, of "Poll x u i wk" s'] p by simp
  note f = poll_op_frame [OF inv p, unfolded op_frame_def]
  show ?thesis
  proof (cases "x = q")
    case True
    then have "u = t"
      using poll_op_guard(1) [OF p] Y by simp
    then have "held_up s' q sl"
      using Y p True held_up_starts [OF r] held_up_poll [OF inv] by blast
    then show ?thesis
      using Y r' f True by (simp add: yields_next_def)
  next
    case False
    then show ?thesis
      using f yields_next_still [OF y r' _ still_poll [OF inv p]] by simp
  qed
qed

lemma yields_next_step:
  assumes y: "yields_next s q t sl" and st: "step ev s = Some s'" and a: "attached (ops s' q) = Some t"
  shows "yields_next s' q t sl"
proof (cases "(\<exists>h u i. ev = Hook h u i) \<or> (\<exists>x u i wk. ev = Poll x u i wk)")
  case True
  then show ?thesis
    using st yields_next_hook [OF y] yields_next_poll [OF y] by auto
next
  case False
  note Y = y [unfolded yields_next_def]
  then have r: "reachable s"
    by blast
  have "opc (ops s q) \<noteq> ONone"
    using Y by (auto simp: wait_ahead_def held_up_def Let_def)
  then have "ops s' q = ops s q"
    using user_keeps_call [OF st _ _ _ a] False Y by blast
  then show ?thesis
    using yields_next_still [OF y reachable.step [OF r st]] flags_sameD(1) flags_same_user(1) [OF reachable_thread_inv [OF r] st] False
    by blast
qed

lemma wait_yields:
  assumes r: "reachable s" and a: "attached (ops s q) = Some t" and p: "tpc (thr s t) = Polling" and w: "wait_ahead (opc (ops s q))"
    and o: "one_poll q t s s'"
  shows "wait_ahead (opc (ops s' q)) \<or> waiting (opc (ops s' q))"
proof -
  obtain sl where sl: "tslot (thr s t) = Some sl"
    using thread_invD(6) [OF reachable_thread_inv [OF r]] p by (fastforce simp: inv_pos_def)
  have "yields_next s q t sl"
    using assms sl by (simp add: yields_next_def)
  with o have "yields_next s' q t sl"
    by (induction rule: one_poll.induct) (auto intro: yields_next_step)
  then show ?thesis
    by (auto simp: yields_next_def held_up_def Let_def)
qed

text \<open>The polls of the call alone are steps of that kind.\<close>

lemma one_poll_polls:
  "one_poll q t s s1 \<Longrightarrow> reachable s1 \<Longrightarrow> attached (ops s1 q) = Some t \<Longrightarrow>
     run (map (\<lambda>i. Poll q t i wk) is) s1 = Some s' \<Longrightarrow> one_poll q t s s'"
proof (induction "is" arbitrary: s1)
  case (Cons i xs)
  then obtain s2 where st: "poll_op q t i wk s1 = Some s2" and s': "run (map (\<lambda>i. Poll q t i wk) xs) s2 = Some s'"
    by (auto split: option.splits)
  have "attached (ops s2 q) = Some t"
    using Cons.prems(3) poll_op_frame [OF reachable_thread_inv [OF Cons.prems(2)] st] by (simp add: op_frame_def)
  then show ?case
    using Cons.IH [OF _ _ _ s'] one_poll.goes_on [OF Cons.prems(1), of "Poll q t i wk"]
      reachable.step [OF Cons.prems(2), of "Poll q t i wk"] st by simp
qed simp

end
