(* ===== verification/Epoch_Fence.thy ===== *)
theory Epoch_Fence
  imports Wakeups
begin

text \<open>
  The guarantee of the SC fence after a change of the epoch id, for each of the three waits, also the one after the
  reset of the epoch id: either the fencing future sees a thread as busy, or the thread sees the new epoch id and what
  the future had done before it stored the id.
\<close>

abbreviation scanning :: "'e opc \<Rightarrow> bool" where
  "scanning p \<equiv> p = OTid \<or> p = OScanBegin \<or> p = OScan"

definition epoch_fenced :: "('w::len, 'g::len) rcu \<Rightarrow> bool" where
  "epoch_fenced s \<longleftrightarrow> (\<forall>q. waiting (opc (ops s q)) \<longrightarrow> eview s (epoch_ix s) \<le> opview s q \<and>
     (scanning (opc (ops s q)) \<longrightarrow> fenced s (opview s q)))"

lemma epoch_fencedD:
  assumes "epoch_fenced s" and "waiting (opc (ops s q))"
  shows "eview s (epoch_ix s) \<le> opview s q" and "scanning (opc (ops s q)) \<Longrightarrow> fenced s (opview s q)"
  using assms by (auto simp: epoch_fenced_def)

subsection \<open>What steps do to the epoch id\<close>

lemma step_tsteps:
  assumes r: "reachable s" and st: "step ev s = Some s'"
  shows "tsteps s s'"
proof -
  note inv = reachable_thread_inv [OF r]
  have task: "tsteps s s'" if "task_frame q s s'" for q
    by (rule tstep_quiet) (use that in \<open>simp add: task_frame_def\<close>)
  have hook: "tsteps s s'" if "hook_steps s s'"
    using that by (simp add: hook_steps_def)
  show ?thesis
  proof (cases ev)
    case (Poll q t i wk)
    then show ?thesis
      using st tstep_quiet [OF quiet_poll [OF reachable_gp_inv [OF r] inv]] by simp
  qed (use st in \<open>auto intro: hook hook_steps_run_hook [OF inv] hook_steps_read [OF inv] hook_steps_use [OF inv]
      hook_steps_drop_guards [OF inv] hook_steps_swap [OF inv] task_frame_wait_call [OF inv, THEN task]
      task_frame_wait_return [OF inv, THEN task] task_frame_suspend [OF inv, THEN task] task_frame_resume [OF inv, THEN task]\<close>)
qed

lemma waiting_epoch_same:
  assumes "poll_op q t i wk s = Some s'" and "waiting (opc (ops s q))"
  shows "hist (mem s') LEpoch = hist (mem s) LEpoch"
  using waiting_poll [OF assms] by (cases "opc (ops s q)") (auto simp: op_defs view_simps Let_def split: if_splits option.splits)

lemma other_epoch_same:
  assumes gp: "gp_inv D s" and st: "poll_op q t i wk s = Some s'" and w: "waiting (opc (ops s r))" "r \<noteq> q"
  shows "hist (mem s') LEpoch = hist (mem s) LEpoch"
proof -
  have n: "\<not> holder (opc (ops s q))"
    using locksD(1) [OF gp_invD(2) [OF gp]] waiting_pos(2) [OF w(1)] w(2) by (metis option.inject)
  show ?thesis
    using st
  proof (cases rule: poll_op_cases)
    case 1
    then show ?thesis
      by (rule sync_poll_same(2))
  next
    case 2
    then show ?thesis
      using serialized_poll_same(2) n by blast
  next
    case 3
    then show ?thesis
      using n by (cases "opc (ops s q)") auto
  qed
qed

text \<open>A wait starts with the store of an epoch id, whose message has a view that the future knows.\<close>

lemma store_view_le:
  assumes "wf_mem m"
  shows "mview (store ord t x a m) x (last_ix (store ord t x a m) x) \<le> cur (store ord t x a m) t"
  using wf_memD(1) [OF assms, of t] by (auto simp: mview_def last_ix_def view_simps nth_append le_supI1)

lemma wait_starts:
  assumes inv: "thread_inv s" and st: "poll_op q t i wk s = Some s'" and w: "\<not> waiting (opc (ops s q))" "waiting (opc (ops s' q))"
  shows "opc (ops s' q) = OSub" and "eview s' (epoch_ix s') \<le> cur (mem s') t"
proof -
  have "synchronize_rcu_serialized (opc (ops s q)) q t i s = Some s'"
    using st
  proof (cases rule: poll_op_cases)
    case 1
    then show ?thesis
      using sync_poll_same(5) w(2) by blast
  next
    case 3
    then show ?thesis
      using w(1) by (cases "opc (ops s q)") auto
  qed
  then have "opc (ops s' q) = OSub \<and> (\<exists>ord a. mem s' = store ord t LEpoch a (mem s))"
    using w(2) by (cases "opc (ops s q)") (auto simp: upd_defs Let_def split: if_splits, blast+)
  then show "opc (ops s' q) = OSub" and "eview s' (epoch_ix s') \<le> cur (mem s') t"
    using store_view_le [OF thread_invD(1) [OF inv]] by auto
qed

subsection \<open>The invariant\<close>

lemma fence_fences:
  assumes inv: "thread_inv s" and st: "poll_op q t i wk s = Some s'" and p: "opc (ops s q) = OFence" and inv': "thread_inv s'"
    and e: "eview s (epoch_ix s) \<le> cur (mem s) t" "epoch_ix s \<le> cur (mem s) t LEpoch"
  shows "fenced s' (cur (mem s') t)"
proof -
  have s': "s' = set_opc q OTid (on_mem (fence_sc t) s)"
    using waiting_poll [OF st] p by simp
  have hE: "hist (mem s') LEpoch = hist (mem s) LEpoch"
    by (simp add: s' view_simps)
  have sc: "scv (mem s') = cur (mem s') t" "cur (mem s) t \<le> scv (mem s')"
    using wf_memD(2) [OF thread_invD(1) [OF inv], of t] by (auto simp: s' view_simps intro: le_supI2)
  have "eview s' (epoch_ix s') \<le> scv (mem s')" "epoch_ix s' \<le> scv (mem s') LEpoch"
    using e sc(2) unfolding epoch_same [OF hE] by (auto intro: order_trans dest: le_funD)
  then show ?thesis
    using fence_ok_start [OF inv', of "cur (mem s') t"] sc(1) by (simp add: fenced_def)
qed

lemma epoch_fenced_step:
  assumes r: "reachable s" and ef: "epoch_fenced s" and st: "step ev s = Some s'"
  shows "epoch_fenced s'"
  unfolding epoch_fenced_def
proof (intro allI impI)
  fix q
  assume w': "waiting (opc (ops s' q))"
  note inv = reachable_thread_inv [OF r] and gp = reachable_gp_inv [OF r] and ts = step_tsteps [OF r st]
  have inv': "thread_inv s'"
    by (rule thread_inv_tsteps [OF ts inv])
  have keep: "eview s' (epoch_ix s') \<le> opview s' q \<and> (scanning (opc (ops s' q)) \<longrightarrow> fenced s' (opview s' q))"
    if "hist (mem s') LEpoch = hist (mem s) LEpoch" "waiting (opc (ops s q))" "opview s q \<le> opview s' q"
      "scanning (opc (ops s' q)) \<Longrightarrow> scanning (opc (ops s q)) \<or> fenced s' (opview s' q)"
  proof -
    have "eview s (epoch_ix s) \<le> opview s' q"
      using epoch_fencedD(1) [OF ef that(2)] that(3) by (rule order_trans)
    moreover have "fenced s' (opview s' q)" if "scanning (opc (ops s q))"
      using fenced_frame [OF ts inv \<open>hist (mem s') LEpoch = _\<close> \<open>opview s q \<le> _\<close>] epoch_fencedD(2) [OF ef _ that]
        \<open>waiting (opc (ops s q))\<close> by blast
    ultimately show ?thesis
      using that(4) unfolding epoch_same [OF that(1)] by blast
  qed
  show "eview s' (epoch_ix s') \<le> opview s' q \<and> (scanning (opc (ops s' q)) \<longrightarrow> fenced s' (opview s' q))"
  proof (cases ev)
    case (Hook h t i)
    then have "run_hook h t i s = Some s'"
      using st by simp
    then have "gp_frame s s'"
      using hook_steps_run_hook [OF inv] by (simp add: hook_steps_def)
    then show ?thesis
      using w' by (intro keep opview_grows) (simp_all add: gp_frame_def)
  next
    case (Poll x t i wk)
    then have p: "poll_op x t i wk s = Some s'"
      using st by simp
    note f = poll_op_frame [OF inv p, unfolded op_frame_def] and g = tsteps_grows [OF ts]
    have v: "opview s q \<le> opview s' q"
      using f by (cases "q = x") (auto intro!: opview_grows [OF g])
    show ?thesis
    proof (cases "x = q")
      case True
      have X: "opview s q = cur (mem s) t" "opview s' q = cur (mem s') t"
        using poll_op_guard(1) [OF p] f True by (simp_all add: opview_def)
      show ?thesis
      proof (cases "waiting (opc (ops s q))")
        case w: True
        have "scanning (opc (ops s q)) \<or> fenced s' (opview s' q)" if "scanning (opc (ops s' q))"
        proof (cases "opc (ops s q) = OFence")
          case F: True
          then show ?thesis
            using fence_fences [OF inv p [unfolded True] F inv'] epoch_fencedD(1) [OF ef w] waiting_facts(2) [OF gp w]
            unfolding X by blast
        next
          case False
          then show ?thesis
            using waiting_poll [OF p [unfolded True] w] w that
            by (cases "opc (ops s q)"; cases "wait_for (ops s q)") (auto simp: op_defs Let_def split: if_splits option.splits)
        qed
        then show ?thesis
          using keep [OF waiting_epoch_same [OF p [unfolded True] w] w v] by blast
      next
        case False
        then show ?thesis
          using wait_starts [OF inv p [unfolded True] False w'] unfolding X by simp
      qed
    next
      case False
      then have "ops s' q = ops s q"
        using f by simp
      moreover from this have "hist (mem s') LEpoch = hist (mem s) LEpoch"
        using other_epoch_same [OF gp p, of q] w' False by simp
      ultimately show ?thesis
        using w' v by (intro keep) simp_all
    qed
  next
    case (WaitCall x t vs)
    then show ?thesis
      using w' user_keeps_wait [OF inv st, of q] flags_sameD(3) [OF flags_same_user(1) [OF inv st]] by (intro keep) simp_all
  next
    case (WaitReturn x t)
    then show ?thesis
      using w' user_keeps_wait [OF inv st, of q] flags_sameD(3) [OF flags_same_user(1) [OF inv st]] by (intro keep) simp_all
  next
    case (Suspend x t)
    then show ?thesis
      using w' user_keeps_wait [OF inv st, of q] flags_sameD(3) [OF flags_same_user(1) [OF inv st]] by (intro keep) simp_all
  next
    case (Resume x t)
    then show ?thesis
      using w' user_keeps_wait [OF inv st, of q] flags_sameD(3) [OF flags_same_user(1) [OF inv st]] by (intro keep) simp_all
  qed (use w' user_keeps_wait [OF inv st, of q] flags_sameD(3) [OF flags_same_user(1) [OF inv st]] in
      \<open>(intro keep; simp_all)+\<close>)
qed

lemma epoch_fenced_init: "epoch_fenced (init_sys e0 addr)"
  by (simp add: epoch_fenced_def)

interpretation epoch: machine_invariant epoch_fenced
  by unfold_locales (auto intro: epoch_fenced_init epoch_fenced_step)

lemma after_fence:
  assumes r: "reachable s" and q: "attached (ops s q) = Some w" and p: "scanning (opc (ops s q))"
    and sl: "tslot (thr s t) = Some sl" and pl: "tpc (thr s t) = Polling"
    and k: "readable w (LSlot sl) k (mem s)" and b: "\<not> word_busy (word_at s sl k)"
  shows "eview s (epoch_ix s) \<le> cur (mem s) t" and "epoch_ix s \<le> cur (mem s) t LEpoch"
proof -
  have "opview s q = cur (mem s) w"
    by (simp add: opview_def q)
  then have "fenced s (cur (mem s) w)"
    using epoch_fencedD(2) [OF epoch.holds [OF r], of q] p by auto
  then have "fresh_at s (eview s (epoch_ix s)) (epoch_ix s) k sl"
    using k b by (auto simp: fenced_def fence_ok_def readable_def)
  then have "fresh_owner s (eview s (epoch_ix s)) (epoch_ix s) sl t"
    using sl by (simp add: fresh_at_def)
  then show "eview s (epoch_ix s) \<le> cur (mem s) t" and "epoch_ix s \<le> cur (mem s) t LEpoch"
    using pl by (auto simp: fresh_owner_def)
qed

end
