(* ===== verification/Version_Places.thy ===== *)
theory Version_Places
  imports Box_Frame
begin

text \<open>
  No replaced version of a box is lost: as long as no future is dropped, it is with an old data object, in a \<open>wait\<close>, or
  reclaimed. With \<open>owned_once\<close>, it is in exactly one of these places.
\<close>

definition all_placed :: "('e, 'g) sys \<Rightarrow> bool" where
  "all_placed s \<longleftrightarrow> (\<forall>b ts. ts < last_ix (mem s) (LPtr b) \<longrightarrow> placed s (b, ts))"

lemma placed_same:
  assumes "old_data s' = old_data s" and "freed s' = freed s" and "\<And>q. in_wait s' q = in_wait s q"
  shows "placed s' x \<longleftrightarrow> placed s x"
  by (simp add: placed_def assms)

text \<open>A placed version stays placed.\<close>

lemma placed_stays:
  assumes inv: "thread_inv s" and st: "step ev s = Some s'" and x: "placed s x"
  shows "placed s' x"
proof (cases ev)
  case (Hook h t i)
  then have f: "hook_frame t s s'"
    using st hook_frame_run_hook by simp
  then show ?thesis
    using x by (subst placed_same [of s' s]) (simp_all add: hook_frame_def in_wait_def)
next
  case (Poll q t i wk)
  then have p: "poll_op q t i wk s = Some s'"
    using st by simp
  then show ?thesis
    using x poll_op_frame [OF inv p] in_wait_poll [OF inv p] by (subst placed_same [of s' s]) (simp_all add: op_frame_def calm_def)
next
  case (WaitCall q t vs)
  then have "old_data s' = old_data s - vs" "freed s' = freed s" "in_wait s q = {}"
      "in_wait s' r = (if r = q then vs else in_wait s r)" for r
    using st by (auto simp: wait_call_def in_wait_def split: if_splits)
  then show ?thesis
    using x unfolding placed_def by (metis DiffI empty_iff)
next
  case (WaitReturn q t)
  then have "old_data s' = old_data s" "freed s' = freed s \<union> in_wait s q"
      "in_wait s' r = (if r = q then {} else in_wait s r)" for r
    using st by (auto simp: wait_return_def in_wait_def split: if_splits)
  then show ?thesis
    using x unfolding placed_def by (metis UnCI)
next
  case (Suspend q t)
  then show ?thesis
    using st x move_task(1) [of q t s s'] by (subst placed_same [of s' s]) simp_all
next
  case (Resume q t)
  then show ?thesis
    using st x move_task(2) [of q t s s'] by (subst placed_same [of s' s]) simp_all
qed (use st x in \<open>auto simp: rcu_box_read_def use_reference_def drop_guards_def rcu_box_swap_def record_access_def
    placed_def in_wait_def Let_def split: if_splits option.splits\<close>)

lemma all_placed_step:
  assumes r: "reachable s" and ap: "all_placed s" and st: "step ev s = Some s'"
  shows "all_placed s'"
  unfolding all_placed_def
proof (intro allI impI)
  fix b ts
  assume ts: "ts < last_ix (mem s') (LPtr b)"
  note inv = reachable_thread_inv [OF r]
  show "placed s' (b, ts)"
  proof (cases "ts < last_ix (mem s) (LPtr b)")
    case True
    then show ?thesis
      using ap placed_stays [OF inv st] by (simp add: all_placed_def)
  next
    case False
    obtain t p where ev: "ev = Swap t b p"
    proof (cases "\<exists>t c p. ev = Swap t c p")
      case True
      then obtain t c p where ev: "ev = Swap t c p"
        by blast
      moreover have "c = b"
        using st ts False by (rule_tac ccontr) (auto simp: ev rcu_box_swap_def last_ix_def view_simps split: if_splits)
      ultimately show ?thesis
        using that by blast
    next
      case F: False
      then show ?thesis
        using same_boxes_step [OF r st F] ts False by (simp add: same_boxes_def last_ix_def)
    qed
    then have "ts = last_ix (mem s) (LPtr b)"
      using st ts False by (auto simp: rcu_box_swap_def last_ix_def view_simps split: if_splits)
    then show ?thesis
      using st by (auto simp: ev rcu_box_swap_def placed_def split: if_splits)
  qed
qed

lemma all_placed_init: "all_placed (init_sys e0 addr)"
  by (simp add: all_placed_def last_ix_def)

interpretation places: machine_invariant all_placed
  by unfold_locales (auto intro: all_placed_init all_placed_step)

lemma placed_iff:
  assumes "reachable s"
  shows "placed s (b, ts) \<longleftrightarrow> ts < last_ix (mem s) (LPtr b)"
  using places.holds [OF assms] owned_onceD(5) [OF owned.holds [OF assms], of "(b, ts)"] by (auto simp: all_placed_def)

end
