(* ===== verification/Spec2Isabelle.thy ===== *)
theory Spec2Isabelle
  imports Box_Heap Read_Lock Dropped_Calls Slots_Refine Notify_Panic Wait_Yields Epoch_Fence Version_Places
begin

text \<open>
  A verification library for \<open>tokio_rcu\<close>, read-copy-update for the tokio runtime (\<open>src/src\<close>). Readers load a pointer
  and use what it points to while a task is polled; writers swap the pointer, await \<open>synchronize_rcu\<close>, and own the old
  data after that. The theorems of this theory, C1 to C38, are the properties of the crate; the other theories hold the
  models and the lemmas.

  \<^bold>\<open>The program.\<close> A thread is in a quiescent state when no task is polled on it. The hooks the runtime calls around
  polls, parking and exit (\<open>rcu_core/mod.rs\<close>) publish in a storage slot of the thread (\<open>per_thread_storage\<close>) whether
  it is busy and which epoch id it saw last (\<open>thread_state.rs\<close>). \<open>synchronize_rcu\<close> changes the epoch id, scans the slots
  until every busy thread has seen the change, and sleeps in between until a hook notifies it
  (\<open>epoch_id_update_notifications.rs\<close>). Calls are numbered by two counters, so that one grace period serves
  many; a counter that reaches its maximum is reset by one call, for which the others wait (\<open>notify.rs\<close>). \<open>RcuBox\<close> and
  \<open>RcuWaitable\<close> (\<open>primitives\<close>) are the interface for data, \<open>tokio_ext.rs\<close> registers the hooks.

  \<^bold>\<open>The machine.\<close>
  \<^item> \<open>Prelude\<close>: types, collections, facts on words. \<open>Weak_Memory\<close>: views, messages, loads, stores, read-modify-writes, fences
    and locks, for the part of the C++20 model the crate uses (\<open>utils/atomic_type.rs\<close> passes its calls on to these).
  \<^item> \<open>Thread_State\<close>: \<open>thread_state.rs\<close>, \<open>epoch.rs\<close>; any width of the epoch id, so \<open>u32\<close> and the \<open>u8\<close> of \<open>test_mode\<close>.
  \<^item> \<open>Rcu_State\<close>: the statics of \<open>rcu_core\<close> as memory locations \<open>loc\<close> and lock-protected fields of \<open>sys\<close>; \<open>tpc\<close> and \<open>opc\<close>, where a
    thread is in a hook and a future in its code, one constructor per atomic operation.
  \<^item> \<open>Hooks\<close>: \<open>on_before_task_poll\<close>, \<open>on_thread_unpark\<close>, \<open>on_after_task_poll\<close>, \<open>on_thread_park\<close>, \<open>on_thread_stop\<close>, the notifier, and the
    allocation of slots. \<open>Synchronize\<close>: \<open>synchronize_rcu\<close> and what it awaits, the subscriber included.
  \<^item> \<open>Machine\<close>: any number of threads and calls, user code that reads, uses, swaps and waits; \<open>step\<close>, \<open>run\<close>, \<open>reachable\<close>. An
    event names the thread, and for a load the message it returns, so a run is an interleaving with all outcomes.

  \<^bold>\<open>The components by themselves.\<close>
  \<^item> \<open>Slots_Storage\<close>: \<open>thread_storage_slots.rs\<close> and \<open>per_thread_storage/mod.rs\<close> down to raw parts, growth, poison and panics;
    \<open>Slots_Refine\<close>: its slots are those of the machine.
  \<^item> \<open>Notify_List\<close>, \<open>Notify_Machine\<close>, \<open>Notify_Spec\<close>, \<open>Notify_Panic\<close>: \<open>notify.rs\<close>, with the pointers of its intrusive list, its concurrent
    steps, its contract and the refinement of it, and wakers that panic.
  \<^item> \<open>Root_Future\<close>: \<open>tokio_ext.rs\<close>, as the hooks it calls and the polls of the future inside, in order (\<open>act\<close>), and what it takes to
    do them on the machine (\<open>performs\<close>, in which the future inside and other threads may do anything). \<open>Rcu_Primitives\<close>: \<open>rcu_box.rs\<close>, \<open>rcu_waitable.rs\<close> on a heap of boxes. \<open>Read_Lock\<close>:
    \<open>rcu_read_lock.rs\<close>, nested or not. \<open>Box_Heap\<close>: programs that own boxes, on top of the machine. \<open>Cancellation\<close>: futures that are dropped.
    \<open>Dropped_Calls\<close>: what holds in spite of that.

  \<^bold>\<open>The lemmas.\<close> \<open>Thread_Inv\<close>, \<open>Thread_Steps\<close>, \<open>Hook_Steps\<close>, \<open>Poll_Steps\<close>, \<open>Hook_Frame\<close>: the invariant of the threads and that every step
  keeps it. \<open>Fresh\<close>, \<open>Grace_Period\<close>: what the SC fence and the scan of a slot promise. \<open>Gp_Inv\<close> to \<open>Gp_Counters\<close>: the invariant of the
  futures; \<open>Safety\<close>: both hold. \<open>Ownership\<close>, \<open>Box_Frame\<close>, \<open>Version_Places\<close>: ownership of versions, what moves them, and that none is
  lost. \<open>Rcu_Spec\<close>: the specification. \<open>Gp_Ids\<close>: grace period ids. \<open>Epoch_Fence\<close>: the fence after a change of the epoch id, for all
  three waits. \<open>Progress\<close>: progress of polls. \<open>Hook_Panics\<close>: when a hook panics. \<open>Wake_Inv\<close>, \<open>Wake_Hooks\<close>, \<open>Wake_Polls\<close>, \<open>Wakeups\<close>: the invariant \<open>wake_inv\<close> of a call
  that waits for a notification, and why it gets one. \<open>Wait_Round\<close>: the length of a round of the wait, and rounds that succeed; \<open>Wait_Yields\<close>: a wait that has to
  suspend first. \<open>Execution\<close>: concrete runs for the witnesses. The locales are \<open>grace_periods\<close>, \<open>machine_invariant\<close>,
  \<open>simulates\<close>, \<open>slot_allocator\<close>, \<open>typed_vec\<close>, \<open>notification\<close>, \<open>rcu_waitable\<close> and \<open>two_waitables\<close>; each is interpreted where its model is.

  \<^bold>\<open>How the code is read.\<close>
  \<^item> One step is one atomic operation or one critical section of a short lock. \<open>Machine\<close> keeps the orderings and fences
    of the code. A load may return any message that the view of the thread allows; stores append to the modification
    order, which is exact here since the writers of every location are ordered; load buffering is left out.
  \<^item> The read lock on the storage slots is taken per access in \<open>with_slot\<close>; the load of its length and the store to the slot
    are one step. The code of a hook holds one guard around several accesses; taking it per access allows more runs, not fewer. Whether an allocation has to grow the buffer is left open in the machine, and computed in \<open>Slots_Storage\<close>.
  \<^item> A step of a hook is \<open>None\<close> when the code would panic (an index, an \<open>unwrap\<close>, an assertion of debug builds, too many threads), when
    its load cannot return the message, or when it waits for a lock. C16 tells these apart: with a message that can be
    returned and the lock free it is only the allocation of one slot too many. What a panic leaves of the slots is in \<open>Slots_Storage\<close>.
  \<^item> A poll may end only at an \<open>await\<close>, with the references of its thread gone: that is the contract of \<open>RcuReadLockGuard\<close>.
  \<^item> In \<open>Machine\<close> a future is polled until it returns; drops of suspended futures are in \<open>Cancellation\<close>. C35 extends
    the contract to runs with drops (\<open>dropping\<close>, which counts the waits that were given up; for them \<open>gp_inv\<close> has the parameter \<open>D\<close>, which
    is 0 without drops). The exception it has is needed: \<open>dropped_overflow_call\<close> in \<open>Cancellation\<close> is
    a run that drops a call while the epoch id is reset, after which the next call breaks the contract. C37 shows what is lost when a
    call is dropped while it resets the counters.
  \<^item> \<open>Notify_Machine\<close> is sequentially consistent. What \<open>notify\<close> hands over in the machine is the view of \<open>LkDone\<close>.
  \<^item> Fields such as \<open>accs\<close>, \<open>call_view\<close>, \<open>content\<close>, \<open>total\<close> and \<open>born\<close> are auxiliary: they record, and no step reads them.

  \<^bold>\<open>Bounds.\<close> At most \<open>max_slots\<close> (65535) slots, the range of \<open>ThreadStorageSlotId\<close>, as an upper bound. A round of the wait loop takes at most
  \<open>max_slots + 15\<close> steps (\<open>wait_rank\<close>), a hook at most 9 after its call (\<open>hook_rank\<close>). C19 assumes
  fewer than 2^64 notifications since the start; the documentation of the subscriber names this limit for each subscription. The refinement of \<open>notify\<close> assumes fewer wakeups than \<open>usize\<close> can
  count, as its documentation does. \<open>rcu_block_on\<close> and \<open>wait_block_on\<close> poll at most as often as their first argument says, and
  the theorems ask for more polls than the future needs. The concrete runs use 8-bit epoch ids and counters.

  \<^bold>\<open>Not modelled.\<close> The runtime itself, the mutex and read-write lock of tokio and of \<open>parking_lot\<close> (locks here), the vector of the crate
  \<open>index_type\<close> (its growth and its largest length are parameters), wakers (numbers), \<open>loom/\<close> and \<open>utils/mod.rs\<close> (aliases and wrappers that
  choose between \<open>std\<close> and \<open>loom\<close>), unused wrappers of \<open>atomic_type.rs\<close>, \<open>Debug\<close> and marker traits, tests, benchmarks and examples.
\<close>


section \<open>Reclamation\<close>

text \<open>C1: no use after free. A version of a box whose allocation the machine has handed back to the writer is
  not referenced by any thread.\<close>

theorem freed_versions_are_not_in_use:
  "reachable s \<Longrightarrow> (b, ts) \<in> freed s \<Longrightarrow> (b, ts) \<notin> held (thr s t)"
  by (rule calls.freed_not_held)

lemma freed_versions_are_not_in_use_witness:
  "\<exists>s :: (8, 8) rcu. reachable s \<and> (0, 0) \<in> freed s \<and> (0, 0) \<notin> held (thr s 0)"
proof -
  obtain s :: "(8, 8) rcu" where "reachable s" "freed s = {(0, 0)}"
    using outcome_reachable [OF run_reclaimed demo_start_reachable] by blast
  then show ?thesis
    using freed_versions_are_not_in_use [of s 0 0 0] by auto
qed

text \<open>C2: the contract of \<open>synchronize_rcu\<close>. When a call has returned, no thread holds a reference to a
  version that was replaced before the call.\<close>

theorem synchronize_rcu_waits_for_readers:
  "reachable s \<Longrightarrow> opc (ops s q) = OReturned \<Longrightarrow> ts < call_view (ops s q) (LPtr b) \<Longrightarrow>
     (b, ts) \<notin> held (thr s t)"
  by (rule calls.returned_not_held)

lemma synchronize_rcu_waits_for_readers_witness:
  "\<exists>s :: (8, 8) rcu. reachable s \<and> opc (ops s 0) = OReturned \<and> (0, 0) \<notin> held (thr s 0)"
proof -
  obtain s :: "(8, 8) rcu" where "reachable s" "opc (ops s 0) = OReturned" "call_view (ops s 0) (LPtr 0) = 1"
    using outcome_reachable [OF run_returned demo_start_reachable] by blast
  then show ?thesis
    using synchronize_rcu_waits_for_readers [of s 0 0 0 0] by auto
qed

text \<open>C3: the memory ordering of a grace period. Every access any thread ever made to a version replaced
  before the call happens before the return of \<open>synchronize_rcu\<close>: the returning thread's view contains it.\<close>

theorem accesses_happen_before_return:
  assumes "reachable s" and "opc (ops s q) = OReturned" and "attached (ops s q) = Some w"
    and "a \<in> accs s" and "a_ts a < call_view (ops s q) (LPtr (a_box a))"
  shows "a_clk a \<le> cur (mem s) w (LClk (a_tid a))"
  using calls.returned_happens_before [OF assms(1, 2, 4, 5)] assms(3) by (simp add: opview_def)

lemma accesses_happen_before_return_witness:
  "\<exists>s :: (8, 8) rcu. reachable s \<and> opc (ops s 0) = OReturned \<and> 1 \<le> cur (mem s) 0 (LClk 0)"
proof -
  obtain s :: "(8, 8) rcu" where s: "reachable s" "opc (ops s 0) = OReturned" "attached (ops s 0) = Some 0"
      "call_view (ops s 0) (LPtr 0) = 1"
      "accs s = {\<lparr>a_tid = 0, a_slot = 0, a_box = 0, a_ts = 0, a_clk = 1, a_idx = 2\<rparr>}"
    using outcome_reachable [OF run_returned demo_start_reachable] by blast
  then show ?thesis
    using accesses_happen_before_return [OF s(1-3), of "\<lparr>a_tid = 0, a_slot = 0, a_box = 0, a_ts = 0, a_clk = 1, a_idx = 2\<rparr>"]
    by auto
qed

text \<open>C4: refinement. Every step of the machine, seen as readers, retired and reclaimed versions, is a step
  of the specification, in which a version is reclaimed only when it is retired and no reader holds it.\<close>

theorem rcu_refines_specification:
  "reachable s \<Longrightarrow> step ev s = Some s' \<Longrightarrow> spec_step (abs_rcu s) (abs_rcu s')"
  by (rule abs_rcu_step)

lemma rcu_refines_specification_witness:
  "\<exists>s' :: (8, 8) rcu. spec_step (abs_rcu demo_start) (abs_rcu s')"
proof -
  obtain s' where "step (Hook BeforePoll 0 1) demo_start = Some s'"
    by (simp add: demo_start_def exec)
  then show ?thesis
    using rcu_refines_specification [OF demo_start_reachable] by blast
qed

text \<open>C5: a version of a box that has been replaced, so every one but the last, is with an old data object, in one
  pending \<open>wait\<close>, or reclaimed: in one of these places and in only one. The current version is in none of them. So no
  replaced version is lost, nothing is freed twice, and the current data never.\<close>

theorem versions_have_one_owner:
  "reachable s \<Longrightarrow> owned_once s \<and> (placed s (b, ts) \<longleftrightarrow> ts < last_ix (mem s) (LPtr b))"
  using owned.holds placed_iff by blast

lemma versions_have_one_owner_witness:
  "\<exists>s :: (8, 8) rcu. (0, 0) \<in> freed s \<and> owned_once s \<and> 0 < last_ix (mem s) (LPtr 0) \<and>
     \<not> placed s (0, last_ix (mem s) (LPtr 0))"
proof -
  obtain s :: "(8, 8) rcu" where s: "reachable s" "freed s = {(0, 0)}"
    using outcome_reachable [OF run_reclaimed demo_start_reachable] by blast
  then have "placed s (0, 0)"
    by (simp add: placed_def)
  with s(2) show ?thesis
    using versions_have_one_owner [OF s(1), of 0 0]
      versions_have_one_owner [OF s(1), of 0 "last_ix (mem s) (LPtr 0)"] by (intro exI [of _ s]) simp
qed

text \<open>C6: memory safety of programs. In any interleaving of threads that create, change, drop and swap boxes, read
  them under guards and wait for old data, and whatever address the allocator hands out again: nothing that is
  gone is used, no allocation gets a second owner, and what a thread holds a reference to is live, has the value
  it was swapped in with, and is owned by nobody who could change or drop it.\<close>

theorem programs_have_no_undefined_behaviour:
  assumes "prog_reachable c"
  shows "act a c \<noteq> UndefinedBehaviour \<and>
    (x \<in> held (thr (crate c) t) \<longrightarrow> version_ptr (crate c) x \<notin> boxes c \<and>
      heap c (version_ptr (crate c) x) = Some (content c x))"
proof -
  note r = prog_reachable_crate [OF assms] and inv = prog_reachable_inv [OF assms]
  show ?thesis
    using act_ok [OF inv r, of a] held_versions [OF r] prog_invD(2,3) [OF inv, of x] by blast
qed

lemma programs_have_no_undefined_behaviour_witness:
  "prog_reachable box_owner \<and> act (BoxWrite 1 71) box_owner \<noteq> UndefinedBehaviour"
  using programs_have_no_undefined_behaviour [OF box_owner_reachable] box_owner_reachable by blast

text \<open>C7: \<open>RcuBox::read\<close> after \<open>RcuBox::swap\<close>. Whatever happens after a box was swapped in, a load that returns the
  pointer of that swap gives a reference to the value the box had when it was swapped in.\<close>

theorem readers_see_the_value_swapped_in:
  assumes "prog_reachable c" and "act (Crate (Swap t b p)) c = Done (vs, c1)" and "acts as c1 = Some c2"
    and "act (Crate (Read u b (last_ix (mem (crate c1)) (LPtr b)))) c2 = Done (ws, c3)"
  shows "\<exists>v. heap c p = Some v \<and> ws = [v]"
  by (rule reads_swapped_value [OF assms])

lemma readers_see_the_value_swapped_in_witness:
  "\<exists>c c1 c3 :: (nat, 8 word, 8 word) prog. act (Crate (Swap 0 0 1)) c = Done ([], c1) \<and>
     act (Crate (Read 0 0 1)) c1 = Done ([70], c3)"
proof -
  obtain c c1 :: "(nat, 8 word, 8 word) prog" where c: "prog_reachable c" "heap c 1 = Some 70"
      "act (Crate (Swap 0 0 1)) c = Done ([], c1)" "prog_reachable c1" "last_ix (mem (crate c1)) (LPtr 0) = 1"
      "tslot (thr (crate c1) 0) = Some 0" "tpc (thr (crate c1) 0) = Polling"
    by (rule box_demo_swap)
  have "rcu_box_read 0 0 1 (crate c1) \<noteq> None"
    using newest_readable [OF prog_reachable_crate [OF c(4)], of 0 0] c(5-7) by (simp add: rcu_box_read_def Let_def)
  then obtain s where "run [Read 0 0 1] (crate c1) = Some s"
    by auto
  from acts_run [OF c(4) this] obtain c3 where "acts [Crate (Read 0 0 1)] c1 = Some c3"
    by auto
  then obtain ws where "act (Crate (Read 0 0 1)) c1 = Done (ws, c3)"
    by (auto split: result.splits)
  then have rd: "act (Crate (Read 0 0 (last_ix (mem (crate c1)) (LPtr 0)))) c1 = Done (ws, c3)"
    unfolding c(5) .
  have "ws = [70]"
    using readers_see_the_value_swapped_in [OF c(1,3) _ rd, of "[]"] c(2) by simp
  then show ?thesis
    using c(3) rd unfolding c(5) by blast
qed

text \<open>C8: \<open>swap\<close>, \<open>wait\<close>, \<open>into_output\<close>. When the version that a swap made is waited for, the caller gets the box that was
  swapped in: the same allocation, with the value it had then, which nobody owned in the meantime.\<close>

theorem swapped_boxes_come_back:
  assumes "prog_reachable c" and "act (Crate (Swap t b p)) c = Done (vs, c1)" and "acts as c1 = Some c2"
    and "act (Crate (WaitReturn q u)) c2 = Done (ws, c3)"
    and "(b, last_ix (mem (crate c1)) (LPtr b)) \<in> olds (ops (crate c2) q)"
  shows "p \<notin> boxes c2 \<and> p \<in> boxes c3 \<and> heap c3 p = heap c p \<and> heap c p \<noteq> None"
  using box_comes_back [OF assms] by blast

lemma swapped_boxes_come_back_witness:
  "\<exists>c3 :: (nat, 8 word, 8 word) prog. prog_reachable c3 \<and> 1 \<in> boxes c3 \<and> heap c3 1 = Some 70"
proof -
  obtain c c1 c2 c3 :: "(nat, 8 word, 8 word) prog" and ws where c: "prog_reachable c" "heap c 1 = Some 70"
      "act (Crate (Swap 0 0 1)) c = Done ([], c1)" "acts (map Crate box_run) c1 = Some c2"
      "act (Crate (WaitReturn 0 0)) c2 = Done (ws, c3)" "(0, last_ix (mem (crate c1)) (LPtr 0)) \<in> olds (ops (crate c2) 0)"
    by (rule box_demo_return)
  have "prog_reachable c3"
    using acts_later [OF prog_reachable.act [OF c(1,3)] c(4)] c(5) prog_reachable.act by blast
  then show ?thesis
    using swapped_boxes_come_back [OF c(1,3-6)] c(2) by auto
qed

text \<open>C9: the memory ordering of publication. All that happens before a swap, the initialization of the new data
  included, happens before any use of a reference to it: the view of the reading thread contains it.\<close>

theorem initialization_is_visible_to_readers:
  assumes "reachable s" and "step (Swap t b p) s = Some s1" and "run evs s1 = Some s2"
    and "step (Read u b (last_ix (mem s1) (LPtr b))) s2 = Some s3"
  shows "cur (mem s) t \<le> cur (mem s3) u"
  using published_before_read [OF assms(1) _ assms(3)] assms(2,4) by simp

lemma initialization_is_visible_to_readers_witness:
  "\<exists>(s :: (8, 8) rcu) (s3 :: (8, 8) rcu). cur (mem s) 0 LEpoch = 0 \<and> cur (mem s) 0 \<le> cur (mem s3) 0 \<and> cur (mem s3) 0 (LPtr 0) = 1"
proof -
  let ?pre = "hooks_of BeforePoll 0 [1, 0, 0, 1, 0, 0]"
  have "outcome (\<lambda>s. cur (mem s) 0 LEpoch = 0 \<and> (\<exists>s1 s3. step (Swap 0 0 1) s = Some s1 \<and>
      last_ix (mem s1) (LPtr 0) = 1 \<and> step (Read 0 0 1) s1 = Some s3 \<and> cur (mem s3) 0 (LPtr 0) = 1)) (run ?pre demo_start)"
    by (simp add: demo_start_def exec del: at_apply)
  from outcome_reachable [OF this demo_start_reachable] obtain s s1 s3 :: "(8, 8) rcu" where s: "reachable s"
      "cur (mem s) 0 LEpoch = 0" "step (Swap 0 0 1) s = Some s1" "last_ix (mem s1) (LPtr 0) = 1"
      "step (Read 0 0 1) s1 = Some s3" "cur (mem s3) 0 (LPtr 0) = 1"
    by blast
  have "cur (mem s) 0 \<le> cur (mem s3) 0"
    using initialization_is_visible_to_readers [OF s(1,3), of "[]" s1 0 s3] s(4,5) by simp
  then show ?thesis
    using s(2,6) by blast
qed

section \<open>Grace periods\<close>

text \<open>C10: at most one future works on a grace period, and the leader of a counter reset works alone.\<close>

theorem grace_periods_are_serialized:
  assumes "reachable s"
  shows "(holder (opc (ops s q)) \<and> holder (opc (ops s r)) \<longrightarrow> q = r) \<and>
    (resetting (opc (ops s q)) \<longrightarrow> \<not> reader (opc (ops s r)) \<and> (resetting (opc (ops s r)) \<longrightarrow> r = q))"
proof -
  have l: "locks_inv s"
    by (rule gp_invD(2) [OF gp.holds [OF assms]])
  have "holder (opc (ops s q)) \<Longrightarrow> holder (opc (ops s r)) \<Longrightarrow> q = r"
    using locksD(1) [OF l] by (metis option.inject)
  moreover have "resetting (opc (ops s q)) \<Longrightarrow> \<not> reader (opc (ops s r))"
    using writer_no_reader [OF l] l unfolding locks_inv_def by blast
  moreover have "resetting (opc (ops s q)) \<Longrightarrow> resetting (opc (ops s r)) \<Longrightarrow> r = q"
    using writer_no_reader [OF l] by (metis option.inject)
  ultimately show ?thesis
    by blast
qed

lemma grace_periods_are_serialized_witness:
  "\<exists>s :: (8, 8) rcu. holder (opc (ops s 0)) \<and> (\<forall>r. holder (opc (ops s r)) \<longrightarrow> r = 0)"
proof -
  obtain s :: "(8, 8) rcu" where "reachable s" "opc (ops s 0) = OTid"
    using outcome_reachable [OF run_sleeper demo_start_reachable] by blast
  then show ?thesis
    using grace_periods_are_serialized [of s] by (metis holder.simps serial.simps waiting.simps(4))
qed

text \<open>C11: two futures that wait for a grace period never have the same grace period id, over all resets of
  the counters, and an id never exceeds the started counter.\<close>

theorem grace_period_ids_are_unique:
  assumes "reachable s" and "counted (opc (ops s q))"
  shows "my_gp_counter (ops s q) \<le> started s \<and>
    (counted (opc (ops s r)) \<longrightarrow> my_gp_counter (ops s r) = my_gp_counter (ops s q) \<longrightarrow> r = q)"
  using assms ids.holds [OF assms(1)] counted_my_le [OF gp.holds thread.holds] by (auto simp: ids_inv_def)

lemma grace_period_ids_are_unique_witness:
  "\<exists>s :: (8, 8) rcu. reachable s \<and> my_gp_counter (ops s 0) \<le> started s"
proof -
  obtain s :: "(8, 8) rcu" where "reachable s" "opc (ops s 0) = OTid"
    using outcome_reachable [OF run_sleeper demo_start_reachable] by blast
  then show ?thesis
    using grace_period_ids_are_unique [of s 0] by auto
qed

text \<open>C12: the epoch id is even and not zero at every time, and the increment of \<open>synchronize_rcu\<close> never wraps:
  the overflow path is taken first.\<close>

theorem epoch_ids_never_wrap:
  fixes s :: "('w::len, 'g::len) rcu"
  assumes "reachable s" and "j < nepochs s"
  shows "valid_epoch (epoch_at s j) \<and> (opc (ops s q) = OSetEpoch e \<longrightarrow> e < e + 2)"
proof
  show "valid_epoch (epoch_at s j)"
    using thread_invD(4) [OF thread.holds [OF assms(1)]] assms(2) by (simp add: inv_epochs_def)
  show "opc (ops s q) = OSetEpoch e \<longrightarrow> e < e + 2"
  proof
    assume p: "opc (ops s q) = OSetEpoch e"
    note inv = thread.holds [OF assms(1)]
    have e: "epoch_at s (nepochs s - 1) = e" "e \<noteq> EPOCH_ID_MAX"
      using gp_invD(3) [OF gp.holds [OF assms(1)], of q] p by (auto simp: op_inv_defs epochs_ok_def)
    have "nepochs s - 1 < nepochs s"
      using nonempty(1) [OF inv] by simp
    then have "valid_epoch e"
      using thread_invD(4) [OF inv] e(1) unfolding inv_epochs_def by blast
    then show "e < e + 2"
      using plus_two_greater [OF _ e(2)] gp_invD(1) [OF gp.holds [OF assms(1)]] by simp
  qed
qed

lemma epoch_ids_never_wrap_witness: "valid_epoch (epoch_at demo_start 0)"
  using epoch_ids_never_wrap [OF demo_start_reachable, of 0] by (simp add: demo_start_def)



section \<open>Threads and hooks\<close>

text \<open>C14: a storage slot belongs to at most one thread, lies inside the slice, is not in the free list, and
  the slice never has more slots than its index type can name.\<close>

theorem slots_have_one_owner:
  assumes "reachable s" and "tslot (thr s t) = Some sl"
  shows "sl < slots_len s \<and> slots_len s \<le> max_slots \<and> sl \<notin> set (free_slots s) \<and>
    (tslot (thr s u) = Some sl \<longrightarrow> u = t)"
proof -
  note inv = thread.holds [OF assms(1)]
  have "tslot (thr s u) = Some sl \<Longrightarrow> u = t"
    using thread_invD(5) [OF inv] assms(2) unfolding inv_owner_def by blast
  then show ?thesis
    using owner_knows(5, 7) [OF inv assms(2)] slots_len_eq [OF inv] hooks_invD(2) [OF hooks.holds [OF assms(1)]] by simp
qed

lemma slots_have_one_owner_witness:
  "\<exists>s :: (8, 8) rcu. tslot (thr s 1) = Some 0 \<and> slots_len s \<le> max_slots"
proof -
  obtain s :: "(8, 8) rcu" where "reachable s" "tslot (thr s 1) = Some 0"
    using outcome_reachable [OF run_sleeper demo_start_reachable] by blast
  then show ?thesis
    using slots_have_one_owner by blast
qed

text \<open>C15: the published state of a thread is true. The last word of a slot says "busy" with a real epoch id
  while its owner polls or runs the scheduler, and "not busy" while it sleeps.\<close>

theorem state_word_tells_position:
  assumes "reachable s" and "tslot (thr s t) = Some sl"
  shows "(tpc (thr s t) = Polling \<or> tpc (thr s t) = Idle \<longrightarrow>
      word_busy (word_at s sl (last_ix (mem s) (LSlot sl))) \<and>
      word_seen (word_at s sl (last_ix (mem s) (LSlot sl))) \<noteq> 0) \<and>
    (tpc (thr s t) = Parked \<longrightarrow> \<not> word_busy (word_at s sl (last_ix (mem s) (LSlot sl))))"
proof -
  have "last_word_ok (tkind s t) (word_at s sl (last_ix (mem s) (LSlot sl)))"
    using thread_invD(7) [OF thread.holds [OF assms(1)]] assms(2) by (simp add: inv_last_def)
  then show ?thesis
    by (auto simp: last_word_ok_def)
qed

lemma state_word_tells_position_witness:
  "\<exists>s :: (8, 8) rcu. tpc (thr s 1) = Polling \<and> word_busy (word_at s 0 (last_ix (mem s) (LSlot 0)))"
proof -
  obtain s :: "(8, 8) rcu" where "reachable s" "tslot (thr s 1) = Some 0" "tpc (thr s 1) = Polling"
    using outcome_reachable [OF run_sleeper demo_start_reachable] by blast
  then show ?thesis
    using state_word_tells_position [of s 1 0] by blast
qed

text \<open>C16: hooks do not panic, with one exception. Every operation of a hook can be done, its call and the operations
  inside it, with every message its load may return: no index is out of bounds, no \<open>unwrap\<close> and no assertion fails.
  The exception is the first poll on a thread without a slot when all slots are in use. A thread that waits
  for another notifier to release the subscriber information goes on after that.\<close>

theorem hooks_panic_only_without_a_slot:
  "reachable s \<Longrightarrow> at_hook h t s \<Longrightarrow> \<not> awaits_info s t \<Longrightarrow> may_load h t i s \<Longrightarrow>
     run_hook h t i s = None \<longleftrightarrow> tpc (thr s t) = Idle \<and> h = BeforePoll \<and> \<not> slot_left t s"
  by (rule hook_steps_unless_out_of_slots)

lemma hooks_panic_only_without_a_slot_witness:
  "\<exists>s :: (8, 8) rcu. tpc (thr s 0) = StartStore BeforePoll 4 \<and> run_hook BeforePoll 0 1 s \<noteq> None"
proof -
  have "outcome (\<lambda>s. tpc (thr s 0) = StartStore BeforePoll 4 \<and> readable 0 LLen 1 (lk_acq 0 LkCurW (mem s)))
      (run (hooks_of BeforePoll 0 [1, 0, 0]) demo_start)"
    by (simp add: demo_start_def exec del: at_apply)
  then obtain s :: "(8, 8) rcu" where s: "reachable s" "tpc (thr s 0) = StartStore BeforePoll 4"
      "readable 0 LLen 1 (lk_acq 0 LkCurW (mem s))"
    using outcome_reachable demo_start_reachable by blast
  then have "at_hook BeforePoll 0 s" "\<not> awaits_info s 0" "may_load BeforePoll 0 1 s"
    by (simp_all add: at_hook_def awaits_info_def may_load_def hook_load_def)
  from hooks_panic_only_without_a_slot [OF s(1) this] show ?thesis
    using s(2) by auto
qed

text \<open>C17: the notifier that holds the subscriber information is inside a hook and its next step
  releases it, so the wait of the others ends.\<close>

theorem notifier_releases_subscriber_info:
  "reachable s \<Longrightarrow> info_writer s = Some u \<Longrightarrow>
     \<exists>h i s'. run_hook h u i s = Some s' \<and> info_writer s' = None"
  by (rule info_writer_enabled)

lemma notifier_releases_subscriber_info_witness:
  "\<exists>s s' :: (8, 8) rcu. info_writer s = Some 0 \<and> (\<exists>h i. run_hook h 0 i s = Some s' \<and> info_writer s' = None)"
proof -
  have "outcome (\<lambda>s. info_writer s = Some 0)
      (run (start_run @ wait_run @ hooks_of AfterPoll 0 [1, 1, 1, 0, 1, 0, 0, 0]) demo_start)"
    by (simp add: run_defs exec del: at_apply)
  then obtain s :: "(8, 8) rcu" where "reachable s" "info_writer s = Some 0"
    using outcome_reachable demo_start_reachable by blast
  then show ?thesis
    using notifier_releases_subscriber_info by blast
qed

text \<open>C18: a future that is polled and has not returned has a next step, unless it waits for one of the
  locks, for the leader of a reset, or for a notifier: no index of the scan is out of bounds, and
  \<open>this_thread_get_storage_slot_id\<close> never unwraps \<open>None\<close>.\<close>

theorem polled_futures_progress:
  "reachable s \<Longrightarrow> attached (ops s q) = Some t \<Longrightarrow> tpc (thr s t) = Polling \<Longrightarrow> live (opc (ops s q)) \<Longrightarrow>
     opc (ops s q) \<noteq> OReturned \<Longrightarrow> \<not> blocked s q (opc (ops s q)) \<Longrightarrow> \<exists>i s'. poll_op q t i wk s = Some s'"
  by (rule poll_enabled)

lemma polled_futures_progress_witness:
  "\<exists>s :: (8, 8) rcu. opc (ops s 0) = OReadLock \<and> (\<exists>i s'. poll_op 0 0 i 7 s = Some s')"
proof -
  have "outcome (\<lambda>s. opc (ops s 0) = OReadLock \<and> attached (ops s 0) = Some 0 \<and> tpc (thr s 0) = Polling \<and>
      rst_writer s = None) (run start_run demo_start)"
    by (simp add: run_defs exec del: at_apply)
  then obtain s :: "(8, 8) rcu" where "reachable s" "opc (ops s 0) = OReadLock" "attached (ops s 0) = Some 0"
      "tpc (thr s 0) = Polling" "rst_writer s = None"
    using outcome_reachable demo_start_reachable by blast
  then show ?thesis
    using polled_futures_progress [of s 0 0 7] by auto
qed

text \<open>C19: no wakeup is lost between the wait for the threads and the hooks. While a call sleeps with its waker \<open>w\<close>
  registered, some thread is busy and has not published the epoch id, or some thread is inside the notifier of a hook,
  and whatever it loads there it takes the registration and wakes \<open>w\<close> before the hook returns. The count of the
  notifications must not have gone round since the start.\<close>

theorem sleeping_calls_are_not_forgotten:
  "reachable s \<Longrightarrow> length (hist (mem s) LNum) \<le> 2 ^ 64 \<Longrightarrow> opc (ops s q) = OPend \<Longrightarrow> subscriber_info s = Some (w, u) \<Longrightarrow>
     \<exists>t. owes_notification s (wait_for (ops s q)) t \<or> delivers_notification s w t"
  by (rule sleeper_has_notifier)

lemma sleeping_calls_are_not_forgotten_witness:
  "\<exists>s :: (8, 8) rcu. opc (ops s 0) = OPend \<and> (\<exists>t. owes_notification s (wait_for (ops s 0)) t \<or> delivers_notification s 7 t)"
proof -
  have "outcome (\<lambda>s. opc (ops s 0) = OPend \<and> subscriber_info s = Some (7, 0) \<and> length (hist (mem s) LNum) \<le> 2 ^ 64)
      (run (start_run @ wait_run) demo_start)"
    by (simp add: run_defs exec del: at_apply)
  then obtain s :: "(8, 8) rcu" where "reachable s" "opc (ops s 0) = OPend" "subscriber_info s = Some (7, 0)"
      "length (hist (mem s) LNum) \<le> 2 ^ 64"
    using outcome_reachable demo_start_reachable by blast
  then show ?thesis
    using sleeping_calls_are_not_forgotten [of s 0 7 0] by blast
qed

text \<open>C20: hooks terminate. Every atomic operation of a hook lowers a rank of at most nine, the number of operations
  it still has to do, until the hook has returned; there is no loop in a hook that others could keep going.\<close>

theorem hooks_terminate:
  assumes "run_hook h t i s = Some s'" and "in_hook (tpc (thr s t)) = Some h"
  shows "hook_rank (tpc (thr s' t)) < hook_rank (tpc (thr s t)) \<and> hook_rank (tpc (thr s t)) \<le> 9 \<and>
     (in_hook (tpc (thr s' t)) = Some h \<or> tpc (thr s' t) = after_hook h)"
  using hook_goes_on_step [OF assms] hook_rank_le by (simp add: hook_goes_on_def)

lemma hooks_terminate_witness:
  "\<exists>(s :: (8, 8) rcu) s'. run_hook BeforePoll 0 0 s = Some s' \<and> tpc (thr s 0) = StartFence BeforePoll \<and>
     hook_rank (tpc (thr s' 0)) < 9"
proof -
  have "outcome (\<lambda>s. tpc (thr s 0) = StartFence BeforePoll) (run [Hook BeforePoll 0 1] demo_start)"
    by (simp add: demo_start_def exec)
  then obtain s :: "(8, 8) rcu" where s: "tpc (thr s 0) = StartFence BeforePoll"
    using outcome_reachable [OF _ demo_start_reachable] by blast
  then have "run_hook BeforePoll 0 0 s = Some (start_fence BeforePoll 0 s)"
    by simp
  then have "hook_rank (tpc (thr (start_fence BeforePoll 0 s) 0)) < hook_rank (tpc (thr s 0))"
    using hooks_terminate [of BeforePoll 0 0 s] s by simp
  then show ?thesis
    using \<open>run_hook BeforePoll 0 0 s = _\<close> s by (intro exI [of _ s] exI [of _ "start_fence BeforePoll 0 s"]) simp
qed

text \<open>C21: the root future. \<open>rcu_block_on\<close> calls hooks and polls the future inside, in an order. Whatever the future inside
  does when it is polled (it may read and swap boxes, and start, poll and await calls of \<open>synchronize_rcu\<close>), and whatever
  other threads do meanwhile, each of these acts can be done next, from its call to its return: the hooks find
  the thread where they expect it, and the future is polled while the thread is polling. At the end the thread has
  stopped if the future is ready, and is parked otherwise. The thread needs a slot or room for one.\<close>

theorem root_future_acts_like_a_worker:
  assumes "reachable s" and "tpc (thr s t) = Idle" and "held (thr s t) = {}" and "tops (thr s t) = {}"
    and "slot_left t s" and "rcu_block_on flavor inner_poll n f = Some (res, as)" and "0 < n"
  shows "(as = xs @ a # ys \<longrightarrow> performs_all t xs s s1 \<longrightarrow> (\<exists>s2. performs t a s1 s2)) \<and>
     (performs_all t as s s1 \<longrightarrow> tpc (thr s1 t) = (case res of Ready _ \<Rightarrow> Stopped | Pending \<Rightarrow> Parked)) \<and>
     (\<exists>s'. performs_all t as s s')"
proof -
  have b: "block_on inner_poll n (root_future_new f) = (res, as)"
    using assms(6) by (simp add: rcu_block_on_def split: if_splits)
  have "between_acts t s"
    using assms(1, 3-5) by (simp add: between_acts_def)
  then show ?thesis
    using root_future_goes_on [OF _ assms(2) b assms(7)] root_future_performs_all [OF _ assms(2) b assms(7)] by blast
qed

lemma root_future_acts_like_a_worker_witness:
  "\<exists>s' :: (8, 8) rcu. performs_all 0 [CallHook BeforePoll, PollInner, CallHook AfterPoll, CallHook Park, CallHook Unpark,
       CallHook BeforePoll, PollInner, CallHook AfterPoll, CallHook Stop] demo_start s' \<and> tpc (thr s' 0) = Stopped"
proof -
  have b: "rcu_block_on MultiThread (\<lambda>k. if k = 0 then (Ready (), 0) else (Pending, k - 1)) 2 (1 :: nat) =
      Some (Ready (), [CallHook BeforePoll, PollInner, CallHook AfterPoll, CallHook Park, CallHook Unpark,
       CallHook BeforePoll, PollInner, CallHook AfterPoll, CallHook Stop])"
    by (simp add: rcu_block_on_def numeral_2_eq_2 root_future_poll_def root_future_new_def)
  have s: "tpc (thr demo_start 0) = Idle" "held (thr demo_start 0) = {}" "tops (thr demo_start 0) = {}"
    "slot_left 0 demo_start"
    by (simp_all add: demo_start_def slot_left_def exec)
  show ?thesis
    using root_future_acts_like_a_worker [OF demo_start_reachable s b zero_less_numeral] unfolding poll_result.case by blast
qed

text \<open>C22: a round of \<open>wait_for_running_threads_to_see_epoch_id\<close> terminates. With any steps of other threads in
  between, the call makes at most \<open>max_slots + 15\<close> steps until the round decides or the future has to be woken.\<close>

theorem wait_rounds_terminate:
  "reachable s \<Longrightarrow> round_run q s n s' \<Longrightarrow> n \<le> max_slots + 15"
  by (rule round_run_bound)

lemma wait_rounds_terminate_witness:
  "\<exists>s s' :: (8, 8) rcu. opc (ops s 0) = OSub \<and> round_run 0 s 10 s' \<and> opc (ops s' 0) = OPend \<and> 10 \<le> max_slots + (15 :: nat)"
proof -
  let ?run = "run (start_run @ polls_of 0 0 [0, 0, 0, 0, 1, 0, 0]) demo_start"
  have "outcome (\<lambda>s. opc (ops s 0) = OSub) ?run"
    by (simp add: run_defs exec del: at_apply)
  then obtain s :: "(8, 8) rcu" where s: "?run = Some s" "opc (ops s 0) = OSub"
    using outcomeD by blast
  have r: "reachable s"
    by (rule reachable_run [OF demo_start_reachable s(1)])
  have "outcome (\<lambda>s'. opc (ops s' 0) = OPend) (Option.bind ?run (round_polls 0 0 7 [0, 0, 0, 0, 1, 1, 0, 0, 0, 0]))"
    by (simp add: run_defs round_end_def exec del: at_apply)
  then have "outcome (\<lambda>s'. opc (ops s' 0) = OPend) (round_polls 0 0 7 [0, 0, 0, 0, 1, 1, 0, 0, 0, 0] s)"
    unfolding s(1) Option.bind.simps .
  then obtain s' where s': "round_polls 0 0 7 [0, 0, 0, 0, 1, 1, 0, 0, 0, 0] s = Some s'" "opc (ops s' 0) = OPend"
    using outcomeD by blast
  have "0 + length [0, 0, 0, 0, 1, 1, 0, 0, 0, 0 :: nat] = 10"
    by simp
  then have "round_run 0 s 10 s'"
    using round_run_polls [OF round_run.begins s'(1)] by metis
  then show ?thesis
    using wait_rounds_terminate [OF r, of 0 10 s'] s(2) s'(2) by blast
qed

text \<open>C23: a wait ends once the threads have seen the epoch id. Take a round of
  \<open>wait_for_running_threads_to_see_epoch_id\<close> that starts when every busy thread has published the epoch id, and any
  steps of the call and of other threads after that, as long as this stays so (no thread that becomes busy has yet to
  publish the id), no thread is between publishing and the fence of its notifier before the call has done its own
  fence, and the call is not moved to another thread. Then the round does not sleep and does not start again, whatever
  older messages its loads may return, and from every point of it the call can go on by itself until the wait is over.\<close>

theorem published_rounds_succeed:
  "reachable s \<Longrightarrow> attached (ops s q) = Some t \<Longrightarrow> tpc (thr s t) = Polling \<Longrightarrow> opc (ops s q) = OSub \<Longrightarrow>
     published s q \<Longrightarrow> published_run q t s s' \<Longrightarrow>
     \<not> round_end (opc (ops s' q)) \<and> (\<exists>s''. wait_polls q t s' s'' \<and> opc (ops s'' q) = after_wait (wait_for (ops s q)))"
  using published_round_succeeds [of s q t s'] by (metis after_wait_out(2))

lemma published_rounds_succeed_witness:
  "\<exists>s s' s'' :: (8, 8) rcu. opc (ops s 0) = OSub \<and> published_run 0 0 s s' \<and> opc (ops s' 0) = OSnap \<and>
     wait_polls 0 0 s' s'' \<and> opc (ops s'' 0) = OPub"
proof -
  have "outcome (\<lambda>s. opc (ops s 0) = OSub \<and> attached (ops s 0) = Some 0 \<and> tpc (thr s 0) = Polling \<and>
      wait_for (ops s 0) = WNoOverflow 6 \<and> tslot (thr s 0) = Some 0 \<and>
      (\<forall>t. t \<noteq> 0 \<longrightarrow> tpc (thr s t) = Idle \<and> tslot (thr s t) = None) \<and> last_word s 0 = 7)
    (run (start_run @ wait_run @ quiescent_run @ take 6 finish_run) demo_start)"
    by (simp add: run_defs exec del: at_apply)
  then obtain s :: "(8, 8) rcu" where s: "reachable s" "attached (ops s 0) = Some 0" "tpc (thr s 0) = Polling" "opc (ops s 0) = OSub"
      "wait_for (ops s 0) = WNoOverflow 6" "tslot (thr s 0) = Some 0" "last_word s 0 = 7"
      "\<forall>t. t \<noteq> 0 \<longrightarrow> tpc (thr s t) = Idle \<and> tslot (thr s t) = None"
    using outcome_reachable demo_start_reachable by blast
  have "\<not> owes_notification s (WNoOverflow 6) t \<and> (\<forall>h. tpc (thr s t) \<noteq> NotifyFence h)" for t
    using s by (cases "t = 0") (auto simp: owes_notification_def slot_ok_def decode_def NONE_ENCODED_VALUE_def)
  then have p: "published s 0"
    by (simp add: published_def s(5))
  have st: "poll_op 0 0 0 7 s = Some (subscribe_flag 0 0 s)"
    using s(2-4) by (simp add: poll_op_def)
  have run: "published_run 0 0 s (subscribe_flag 0 0 s)"
    using published_run.mine [OF published_run.begins _ st] s(4) by simp
  moreover have "opc (ops (subscribe_flag 0 0 s) 0) = OSnap"
    by (simp add: subscribe_flag_def)
  ultimately show ?thesis
    using published_rounds_succeed [OF s(1-4) p run] s(4, 5) by auto
qed

text \<open>C24: a call yields at least once in the wait for a new epoch id. From before the store of the id on, whatever steps
  the threads take and whatever the loads of the call return, the call does not get past the wait for the id while it
  stays on the thread that polls it: it has to suspend, so that its own thread passes a quiescent state.\<close>

theorem waits_yield_to_the_calling_thread:
  "reachable s \<Longrightarrow> attached (ops s q) = Some t \<Longrightarrow> tpc (thr s t) = Polling \<Longrightarrow> wait_ahead (opc (ops s q)) \<Longrightarrow>
     one_poll q t s s' \<Longrightarrow> wait_ahead (opc (ops s' q)) \<or> waiting (opc (ops s' q))"
  by (rule wait_yields)

lemma waits_yield_to_the_calling_thread_witness:
  "\<exists>s s' :: (8, 8) rcu. opc (ops s 0) = OSetEpoch 4 \<and> one_poll 0 0 s s' \<and> \<not> wait_ahead (opc (ops s' 0)) \<and> waiting (opc (ops s' 0))"
proof -
  have "outcome (\<lambda>s. opc (ops s 0) = OSetEpoch 4 \<and> attached (ops s 0) = Some 0 \<and> tpc (thr s 0) = Polling \<and>
      outcome (\<lambda>s'. \<not> wait_ahead (opc (ops s' 0))) (run (polls_of 0 0 [0, 0, 0, 0, 0, 1, 1, 0, 0, 0, 0]) s))
    (run (start_run @ polls_of 0 0 [0, 0, 0, 0, 1, 0]) demo_start)"
    by (simp add: run_defs exec wait_ahead_def del: at_apply)
  then obtain s s' :: "(8, 8) rcu" where s: "reachable s" "attached (ops s 0) = Some 0" "tpc (thr s 0) = Polling"
      "opc (ops s 0) = OSetEpoch 4" and s': "run (polls_of 0 0 [0, 0, 0, 0, 0, 1, 1, 0, 0, 0, 0]) s = Some s'"
      "\<not> wait_ahead (opc (ops s' 0))"
    using outcome_reachable [OF _ demo_start_reachable] outcomeD by blast
  have "one_poll 0 0 s s'"
    by (rule one_poll_polls [OF one_poll.begins s(1, 2) s'(1)])
  then have "waiting (opc (ops s' 0))"
    using waits_yield_to_the_calling_thread [OF s(1-3), of s'] s(4) s'(2) by (simp add: wait_ahead_def)
  with s(4) s'(2) \<open>one_poll 0 0 s s'\<close> show ?thesis
    by blast
qed

section \<open>Storage slots\<close>

text \<open>C25: what \<open>alloc\<close> does to the buffer, for every vector that grows. It returns a slot that was vacant, stores
  the initial state in it, occupies it, and keeps the other slots, also when the buffer is replaced by a bigger
  one; or it panics, and then the vector is as long as its index type allows and no slot is free.\<close>

theorem slots_alloc_initializes_a_vacant_slot:
  assumes "slots_inv st" and "\<not> poisoned st" and "0 < lim" and "0 < cap" and "\<And>c. c < grow c"
  shows "(\<exists>i st'. slots_alloc grow lim cap x st = Inr (i, st') \<and> slots_inv st' \<and> i \<notin> occupied st \<and>
       occupied st' = insert i (occupied st) \<and> slice st' ! i = x \<and>
       (\<forall>j < length (slice st). j \<noteq> i \<longrightarrow> slice st' ! j = slice st ! j)) \<or>
     (\<exists>p st'. slots_alloc grow lim cap x st = Inl (p, st') \<and> p \<in> {TooManyConcurrentThreads, VecTooLong} \<and>
       free_ids st = [] \<and> lim \<le> length (slice st))"
  using slots_alloc_cases [OF assms(1-4), of grow x] assms(5) unfolding allocated_def by blast

lemma slots_alloc_initializes_a_vacant_slot_witness:
  "\<exists>i st'. slots_alloc doubling 65535 8 (5 :: nat) new_slots = Inr (i, st') \<and> occupied st' = {i} \<and> slice st' ! i = 5"
proof -
  have "occupied (new_slots :: nat slots) = {}" and "slice (new_slots :: nat slots) = []"
    and "\<not> poisoned (new_slots :: nat slots)"
    by (simp_all add: new_slots_def occupied_def slice_def)
  then show ?thesis
    using slots_alloc_initializes_a_vacant_slot [OF slots_inv_new _ _ _ doubling_grows, of 65535 8 "5 :: nat"] by auto
qed

text \<open>C26: \<open>dealloc\<close> undoes \<open>alloc\<close>. Deallocating an occupied slot succeeds, and the next allocation returns the
  same slot; the buffer and the free list are then as before, but for the value of the slot.\<close>

theorem freed_slots_are_reused:
  assumes "slots_inv st" and "\<not> poisoned st" and "i \<in> occupied st"
  shows "\<exists>st1 st2. slots_dealloc vacant i st = Inr ((), st1) \<and> occupied st1 = occupied st - {i} \<and>
     slots_alloc grow lim cap x st1 = Inr (i, st2) \<and> slice st2 = (slice st)[i := x] \<and> free_ids st2 = free_ids st"
proof -
  obtain st1 where st1: "slots_dealloc vacant i st = Inr ((), st1)" "occupied st1 = occupied st - {i}"
    by (rule slots_dealloc_occupied [OF assms])
  obtain st2 where "slots_alloc grow lim cap x st1 = Inr (i, st2)" "slice st2 = (slice st)[i := x]"
      "free_ids st2 = free_ids st"
    by (rule alloc_after_dealloc [OF assms st1(1)])
  with st1 show ?thesis
    by blast
qed

lemma freed_slots_are_reused_witness:
  "\<exists>st st1 st2. slots_alloc doubling 65535 8 (5 :: nat) new_slots = Inr (0, st) \<and> slots_dealloc 0 0 st = Inr ((), st1) \<and>
     slots_alloc doubling 65535 8 7 st1 = Inr (0, st2) \<and> slice st2 = [7]"
proof -
  obtain st where st: "slots_alloc doubling 65535 8 (5 :: nat) new_slots = Inr (0, st)" "slots_inv st" "slice st = [5]"
      "free_ids st = []" "\<not> poisoned st"
    by (rule alloc_first [OF slots_inv_new, of 65535 8 doubling "5 :: nat"])
      (auto simp: new_slots_def slots_alloc_def alloc_no_free_slot_ids_def)
  then have "0 \<in> occupied st"
    by (simp add: occupied_def)
  then show ?thesis
    using freed_slots_are_reused [OF st(2,5), of 0 0 doubling 65535 8 7] st(1,3) by auto
qed

text \<open>C27: \<open>OwnedThreadStorageSlot\<close>. Whatever the threads allocate and deallocate, also after calls that have panicked, no
  two threads own the same slot. As long as no call has panicked, the slots in use are exactly the owned ones, and a
  thread can always give back what it owns: \<open>dealloc\<close> does not panic. After a panic the write lock is poisoned, and
  \<open>dealloc\<close> panics at the lock, before it reads the buffer.\<close>

theorem threads_own_distinct_slots:
  assumes "slots_reachable grow lim cap vacant w" and "0 < lim" and "0 < cap" and "\<And>c. c < grow c"
  shows "(\<forall>t u i. this_thread_get_storage_slot_id t w = Some i \<longrightarrow>
       this_thread_get_storage_slot_id u w = Some i \<longrightarrow> t = u) \<and>
     (\<not> poisoned (snd w) \<longrightarrow> occupied (snd w) = {i. \<exists>t. this_thread_get_storage_slot_id t w = Some i} \<and>
        (\<exists>w'. this_thread_dealloc_storage_slot vacant t w = Inr (this_thread_does_have_allocated_storage_slot t w, w') \<and>
           this_thread_get_storage_slot_id t w' = None)) \<and>
     (poisoned (snd w) \<longrightarrow> this_thread_dealloc_storage_slot vacant t w =
        (if this_thread_does_have_allocated_storage_slot t w then Inl (PoisonedLock, snd w) else Inr (False, w)))"
proof (intro conjI impI)
  have vec: "typed_vec grow lim cap"
    using assms(2-4) by (simp add: typed_vec_def)
  show "\<forall>t u i. this_thread_get_storage_slot_id t w = Some i \<longrightarrow> this_thread_get_storage_slot_id u w = Some i \<longrightarrow> t = u"
    using typed_vec.reachable_owned_or_poisoned [OF vec assms(1)]
    by (simp add: owned_or_poisoned_def ids_distinct_def this_thread_get_storage_slot_id_def)
  show "\<exists>w'. this_thread_dealloc_storage_slot vacant t w = Inr (this_thread_does_have_allocated_storage_slot t w, w') \<and>
      this_thread_get_storage_slot_id t w' = None" if "\<not> poisoned (snd w)"
    using typed_vec.reachable_dealloc [OF vec assms(1) that, of t] by (simp add: this_thread_get_storage_slot_id_def)
  show "occupied (snd w) = {i. \<exists>t. this_thread_get_storage_slot_id t w = Some i}" if "\<not> poisoned (snd w)"
    using typed_vec.reachable_owned [OF vec assms(1) that]
    by (simp add: owned_inv_def owners_def ran_def this_thread_get_storage_slot_id_def)
qed (simp add: poisoned_calls(2) this_thread_does_have_allocated_storage_slot_def)

lemma threads_own_distinct_slots_witness:
  "\<exists>w w2. this_thread_get_storage_slot_id 3 w = Some 0 \<and> occupied (snd w) = {0} \<and>
     (\<exists>w'. this_thread_dealloc_storage_slot (0 :: nat) 3 w = Inr (True, w')) \<and>
     this_thread_alloc_storage_slot doubling 1 8 5 4 w = Inl (TooManyConcurrentThreads, snd w2) \<and>
     this_thread_dealloc_storage_slot 0 3 w2 = Inl (PoisonedLock, snd w2)"
proof -
  obtain i w where a: "this_thread_alloc_storage_slot doubling 1 8 (5 :: nat) 3 THREAD_STORAGE_SLOTS = Inr (i, w)"
      "fst w = [3 \<mapsto> 0]" "\<not> poisoned (snd w)"
      and b: "\<exists>st'. this_thread_alloc_storage_slot doubling 1 8 5 4 w = Inl (TooManyConcurrentThreads, st') \<and> poisoned st'"
    by (simp add: this_thread_alloc_storage_slot_def owned_alloc_def THREAD_STORAGE_SLOTS_def unallocated_def
        new_slots_def slots_op_defs unwind_def vec_drop_def dangling_def Let_def)
  obtain st' where st': "this_thread_alloc_storage_slot doubling 1 8 5 4 w = Inl (TooManyConcurrentThreads, st')" "poisoned st'"
    using b by blast
  have r: "slots_reachable doubling 1 8 0 w" "slots_reachable doubling 1 8 0 (fst w, st')"
    using reach_alloc [OF reach_init a(1)] reach_alloc_panic [OF _ st'(1)] by blast+
  have ids: "this_thread_get_storage_slot_id u w = (if u = 3 then Some 0 else None)"
      "this_thread_does_have_allocated_storage_slot 3 w" "this_thread_does_have_allocated_storage_slot 3 (fst w, st')" for u
    by (simp_all add: this_thread_get_storage_slot_id_def this_thread_does_have_allocated_storage_slot_def a(2))
  note own = threads_own_distinct_slots [OF r(1) zero_less_one zero_less_numeral doubling_grows, of 3,
      THEN conjunct2, THEN conjunct1, rule_format, OF a(3)]
  have "\<exists>w'. this_thread_dealloc_storage_slot 0 3 w = Inr (True, w')"
    using own ids(2) by auto
  moreover have "occupied (snd w) = {0}"
    unfolding own [THEN conjunct1] by (auto simp: ids(1))
  moreover have "this_thread_dealloc_storage_slot 0 3 (fst w, st') = Inl (PoisonedLock, st')"
    using threads_own_distinct_slots [OF r(2) zero_less_one zero_less_numeral doubling_grows, of 3,
      THEN conjunct2, THEN conjunct2] st'(2) ids(3) by simp
  ultimately show ?thesis
    using st'(1) ids(1) by (metis snd_conv)
qed

text \<open>C28: what the panic at the largest length leaves behind. The write lock is poisoned, and the raw parts that the
  readers use point at memory that the unwinding has freed.\<close>

theorem too_many_threads_free_the_published_buffer:
  assumes "slots_inv st" and "\<not> poisoned st" and "free_ids st = []" and "length (slice st) = lim" and "0 < lim"
  shows "\<exists>p st'. slots_alloc grow lim cap x st = Inl (p, st') \<and> poisoned st' \<and> cur_data st' = cur_data st \<and>
     cur_data_as_slice st' = None"
  using too_many_threads [OF assms(1-3)] assms(4,5) slots_invD(1) [OF assms(1)] by simp

lemma too_many_threads_free_the_published_buffer_witness:
  "\<exists>st p st'. slots_alloc doubling 1 8 (5 :: nat) new_slots = Inr (0, st) \<and>
     slots_alloc doubling 1 8 5 st = Inl (p, st') \<and> cur_data_as_slice st' = None"
proof -
  obtain st where st: "slots_alloc doubling 1 8 (5 :: nat) new_slots = Inr (0, st)" "slots_inv st" "slice st = [5]"
      "free_ids st = []" "\<not> poisoned st"
    by (rule alloc_first [OF slots_inv_new, of 1 8 doubling "5 :: nat"])
      (auto simp: new_slots_def slots_alloc_def alloc_no_free_slot_ids_def)
  then show ?thesis
    using too_many_threads_free_the_published_buffer [OF st(2,5,4), of 1 doubling 8 5] by auto
qed

text \<open>C29: the slots of the machine and the buffer are equivalent. As long as they match, the machine allocates
  exactly when the buffer does, and gets the same slot; a deallocation succeeds in both; and they match again.\<close>

theorem machine_slots_are_the_buffer:
  assumes "slots_match st s" and "0 < cap" and "\<And>c. c < grow c"
  shows "(alloc_slot t g a s = None \<longleftrightarrow> (\<exists>e. slots_alloc grow max_slots cap a st = Inl e)) \<and>
     (\<forall>s'. alloc_slot t g a s = Some s' \<longrightarrow> (\<exists>i st'. slots_alloc grow max_slots cap a st = Inr (i, st') \<and>
        tslot (thr s' t) = Some i \<and> slots_match st' s')) \<and>
     (\<forall>sl \<in> occupied st. \<exists>st'. slots_dealloc NONE_ENCODED_VALUE sl st = Inr ((), st') \<and>
        slots_match st' (dealloc_slot u sl s))"
proof -
  have vec: "typed_vec grow max_slots cap"
    using assms(2,3) by (simp add: typed_vec_def max_slots_def)
  show ?thesis
    using typed_vec.alloc_panics [OF vec assms(1) refl] typed_vec.alloc_matches [OF vec assms(1) _ refl]
      dealloc_matches [OF assms(1)] by (intro conjI allI impI ballI)
qed

lemma machine_slots_are_the_buffer_witness:
  "\<exists>s' st'. alloc_slot 0 True 5 demo_start = Some s' \<and> slots_alloc doubling max_slots 8 5 new_slots = Inr (0, st') \<and>
     slots_match st' s'"
proof -
  have m: "slots_match new_slots demo_start"
    by (rule new_matches) (simp_all add: demo_start_def exec)
  have "\<exists>s'. alloc_slot 0 True 5 demo_start = Some s' \<and> tslot (thr s' 0) = Some 0"
    by (simp add: demo_start_def exec)
  then obtain s' where s': "alloc_slot 0 True 5 demo_start = Some s'" "tslot (thr s' 0) = Some 0"
    by blast
  obtain i st' where "slots_alloc doubling max_slots 8 5 new_slots = Inr (i, st')" "tslot (thr s' 0) = Some i"
      "slots_match st' s'"
    using machine_slots_are_the_buffer [OF m _ doubling_grows, of 8 0 True 5 0] s'(1) by auto
  then show ?thesis
    using s' by auto
qed

section \<open>Notify\<close>

text \<open>C30: the contract of \<open>Notify\<close>. Every execution of registrations, polls, drops and calls of \<open>notify\<close> from any
  number of threads is an execution of the specification: a future says \<open>Ready\<close> only if it has been notified, and a
  call of \<open>notify\<close> does not return before every future that was registered when it began has been notified and,
  if it slept, woken. The counter of wakeups must not wrap around, as the source says.\<close>

theorem notify_refines_specification:
  fixes s :: "'w::len word notify_sys"
  assumes "notify_reachable s" and "notify_step s s'" and "total s' < 2 ^ LENGTH('w)"
  shows "notify_spec_reachable (abs_notify s) \<and> notify_spec_step (abs_notify s) (abs_notify s')"
proof -
  have b: "notify_bounded s"
    using assms notify_step_total [OF assms(2)] by (simp add: notify_bounded_def)
  then show ?thesis
    using notify.abs_reachable notify_abs_step [OF notify_bounded_inv [OF b] assms(2)] by (simp add: notify_bounded_def)
qed

lemma notify_refines_specification_witness:
  "\<exists>s s' :: 64 word notify_sys. notify_step s s' \<and> notify_spec_step (abs_notify s) (abs_notify s') \<and>
     sleeping (abs_notify s) = {0}"
proof -
  let ?s = "notify_outcome sleep_run"
  obtain s' where s': "notify_exec (NDrain 1) ?s = Some s'"
    using notify_returns [OF notify_bounded_inv [OF sleep_run_bounded]] sleep_run_eval(5) by auto
  have step: "notify_step ?s s'"
    by (rule notify_exec_step [OF s'])
  have "total s' = 1"
    using s' sleep_run_eval(2,5) by auto
  then have "notify_spec_step (abs_notify ?s) (abs_notify s')"
    using notify_refines_specification [OF _ step] sleep_run_bounded by (simp add: notify_bounded_def)
  moreover have "sleeping (abs_notify ?s) = {0}"
    using sleep_run_asleep by simp
  ultimately show ?thesis
    using step by blast
qed



text \<open>C32: the intrusive list. In every reachable state the critical sections return: the loop of \<open>notify\<close> ends, and
  neither \<open>poll\<close> nor \<open>drop\<close> nor \<open>notify\<close> follows a pointer to a future that is gone, and none of the debug
  assertions on the counter of active waiters and on the head of the list fails.\<close>

theorem notify_list_never_dangles:
  fixes s :: "'w::len word notify_sys"
  assumes "notify_reachable s" and "total s < 2 ^ LENGTH('w)"
  shows "notify_loop (nst s) \<noteq> None \<and> (fpc s a = FLock w \<longrightarrow> poll_locked a w (nst s) \<noteq> None) \<and>
     (futs (nst s) a \<noteq> None \<longrightarrow> drop_notified a (nst s) \<noteq> None)"
  using notify_returns poll_returns drop_returns notify_reachable_inv [OF assms] by blast

lemma notify_list_never_dangles_witness:
  "notify_loop (nst (notify_outcome sleep_run)) \<noteq> None \<and> drop_notified 0 (nst (notify_outcome sleep_run)) \<noteq> None"
proof -
  have "total (notify_outcome sleep_run) < 2 ^ LENGTH(64)"
    by (simp add: sleep_run_eval)
  then show ?thesis
    using notify_list_never_dangles [of "notify_outcome sleep_run" 0] sleep_run_bounded sleep_run_live
    unfolding notify_bounded_def by blast
qed

text \<open>C33: panics in user code. Whichever wakers panic while \<open>notify\<close> calls them, the loop ends or unwinds with the list in
  order: the next call of \<open>notify\<close> takes the futures that are left off the list, every waker that was in the list
  has then been called, and in between any future can be dropped.\<close>

theorem notify_survives_panicking_wakers:
  fixes s :: "'w::len word notify_sys"
  assumes "notify_reachable s" and "total s < 2 ^ LENGTH('w)"
  shows "\<exists>b st' st''. notify_unwind wake_panics (nst s) = Some (b, st') \<and> notify_loop st' = Some st'' \<and>
    (in_list (nst s) a \<longrightarrow> \<not> in_list st'' a \<and> woken_by st'' a = waker_of (nst s) a) \<and>
    (futs (nst s) a \<noteq> None \<longrightarrow> drop_notified a st' \<noteq> None)"
  using notify_survives_panics [OF notify_reachable_inv [OF assms]] by blast

lemma notify_survives_panicking_wakers_witness:
  "\<exists>b st' st''. notify_unwind (\<lambda>w. w = 7) (nst (notify_outcome sleep_run)) = Some (b, st') \<and> notify_loop st' = Some st'' \<and>
     drop_notified 0 st' \<noteq> None"
proof -
  have "total (notify_outcome sleep_run) < 2 ^ LENGTH(64)"
    by (simp add: sleep_run_eval)
  then show ?thesis
    using notify_survives_panicking_wakers [of "notify_outcome sleep_run" "\<lambda>w. w = 7" 0] sleep_run_bounded sleep_run_live
    unfolding notify_bounded_def by blast
qed

section \<open>Guards and waiting\<close>

text \<open>C34: \<open>rcu_read_lock\<close>. In a task on a runtime thread it never panics, and reading a box under it succeeds, whatever
  message the load returns: the address it yields is one of a version that has not been given back. The reference
  ends with the closure, and those of the guards around it stay and can be used. On a thread without a slot it
  panics.\<close>

theorem read_lock_panics_only_outside_tasks:
  assumes "reachable s"
  shows "(tpc (thr s t) = Polling \<and> readable t (LPtr b) i (mem s) \<longrightarrow> (b, i) \<in> versions s \<and>
       (\<exists>s'. rcu_read_lock t (read_closure t b i) s = Inr (Some (version_ptr s (b, i), s')) \<and>
          held (thr s' t) = held (thr s t) \<and> (\<forall>(c, j) \<in> held (thr s t). use_reference t c j s' \<noteq> None))) \<and>
    (tslot (thr s t) = None \<longrightarrow> rcu_read_lock t (read_closure t b i) s = Inl NotTracked)"
  using read_in_task [OF assms, of t b i] read_outside_panics [of s t "read_closure t b i"] by blast

lemma read_lock_panics_only_outside_tasks_witness:
  "\<exists>s s' :: (8, 8) rcu. held (thr s 0) = {(0, 0)} \<and> use_reference 0 0 0 s' \<noteq> None \<and>
     rcu_read_lock 0 (read_closure 0 1 0) s = Inr (Some (version_ptr s (1, 0), s')) \<and>
     rcu_read_lock 1 (read_closure 1 1 0) s = Inl NotTracked"
proof -
  have "outcome (\<lambda>s. tpc (thr s 0) = Polling \<and> readable 0 (LPtr 1) 0 (mem s) \<and> held (thr s 0) = {(0, 0)} \<and> tslot (thr s 1) = None)
      (run (hooks_of BeforePoll 0 [1, 0, 0, 1, 0, 0] @ [Read 0 0 0]) demo_start)"
    by (simp add: demo_start_def exec del: at_apply)
  then obtain s :: "(8, 8) rcu" where s: "reachable s" "tpc (thr s 0) = Polling" "readable 0 (LPtr 1) 0 (mem s)"
      "held (thr s 0) = {(0, 0)}" "tslot (thr s 1) = None"
    using outcome_reachable demo_start_reachable by blast
  then obtain s' where "rcu_read_lock 0 (read_closure 0 1 0) s = Inr (Some (version_ptr s (1, 0), s'))"
      "\<forall>(c, j) \<in> {(0, 0)}. use_reference 0 c j s' \<noteq> None"
    using read_lock_panics_only_outside_tasks [OF s(1), of 0 1 0, THEN conjunct1, rule_format] by metis
  moreover have "rcu_read_lock 1 (read_closure 1 1 0) s = Inl NotTracked"
    by (rule read_lock_panics_only_outside_tasks [OF s(1), THEN conjunct2, rule_format, OF s(5)])
  ultimately show ?thesis
    using s(4) by (intro exI [of _ s] exI [of _ s']) simp
qed

section \<open>Futures that are dropped\<close>

text \<open>C35: the contract of \<open>synchronize_rcu\<close> survives calls that are dropped at any \<open>await\<close> but the waits for the reset
  of the epoch id, and \<open>d\<close> of them while they wait for the threads, as long as the epoch id cannot have gone round. When
  another call returns, no thread holds a version replaced before it, and every access to one happens before the return.\<close>

theorem dropped_calls_keep_the_contract:
  fixes s :: "('w::len, 'g::len) rcu"
  assumes "dropping d s" and "2 * d + 6 < 2 ^ LENGTH('w)"
    and "opc (ops s q) = OReturned" and "attached (ops s q) = Some w" and "ts < call_view (ops s q) (LPtr b)"
  shows "(b, ts) \<notin> held (thr s t) \<and>
    (\<forall>a \<in> accs s. a_box a = b \<and> a_ts a = ts \<longrightarrow> a_clk a \<le> cur (mem s) w (LClk (a_tid a)))"
proof -
  have d: "dropping d s \<and> 2 * d + 6 < 2 ^ LENGTH('w)"
    using assms(1, 2) by simp
  have "a_clk a \<le> cur (mem s) w (LClk (a_tid a))" if "a \<in> accs s" "a_box a = b" "a_ts a = ts" for a
    using drops.returned_happens_before [OF d assms(3) that(1)] that(2, 3) assms(4, 5) by (simp add: opview_def)
  with drops.returned_not_held [OF d assms(3, 5)] show ?thesis
    by blast
qed

lemma dropped_calls_keep_the_contract_witness:
  "\<exists>s :: (8, 8) rcu. dropping 1 s \<and> opc (ops s 1) = OReturned \<and> (0, 0) \<notin> held (thr s 1) \<and> 1 \<le> cur (mem s) 0 (LClk 1)"
proof -
  let ?run = "cancel_run (map Step given_up_run @ Cancel 0 0 # map Step second_run) demo_start"
  obtain s where s: "?run = Some s" "opc (ops s 1) = OReturned" "attached (ops s 1) = Some 0"
      "call_view (ops s 1) (LPtr 0) = 1"
      "accs s = {\<lparr>a_tid = 1, a_slot = 0, a_box = 0, a_ts = 0, a_clk = 1, a_idx = 2\<rparr>}"
    using outcomeD [OF second_demo] by blast
  have "dropping 0 demo_start"
    unfolding demo_start_def by (rule dropping.start) (simp add: start_ok_def valid_epoch_def exec)
  from dropping_cancel_run [OF given_up_demo s(1) this] have "dropping 1 s"
    by simp
  then show ?thesis
    using dropped_calls_keep_the_contract [of 1 s 1 0 0 0 1] s by auto
qed

text \<open>C36: dropping a \<open>wait\<close> leaks what it was to return. Whatever else runs or is dropped, before and after, the
  versions of a dropped call are never handed out again: not as old data, not by another call, and not as reclaimed.\<close>

theorem dropped_waits_leak:
  assumes "start_ok e0" and "cancel_run evs (init_sys e0 addr) = Some s" and "cancel q t s = Some s'"
    and "x \<in> olds (ops s q)" and "cancel_run fs s' = Some s''"
  shows "x \<notin> old_data s'' \<and> x \<notin> freed s'' \<and> (\<forall>r. x \<notin> in_wait s'' r)"
proof -
  have a: "any_drops s"
    using any_drops_run [OF any_drops_init [OF assms(1)] assms(2)] by blast
  then have "leaked s' x"
    using owned_once_cancel(2) [OF _ _ assms(3, 4)] by (simp add: any_drops_def)
  moreover have "any_drops s'"
    using any_drops_step(1) [OF a, of "Cancel q t"] assms(3) by simp
  ultimately have "leaked s'' x"
    using any_drops_run [OF _ assms(5)] by blast
  then show ?thesis
    by (auto simp: leaked_def placed_def)
qed

lemma dropped_waits_leak_witness:
  "\<exists>s s'. run (start_run @ wait_run) demo_start = Some s \<and> cancel 0 0 s = Some s' \<and> (0, 0) \<in> olds (ops s 0) \<and>
     (\<forall>fs s''. cancel_run fs s' = Some s'' \<longrightarrow> (0, 0) \<notin> freed s'')"
proof -
  obtain s s' where s: "run (start_run @ wait_run) demo_start = Some s" "cancel 0 0 s = Some s'" "(0, 0) \<in> olds (ops s 0)"
    using dropped_wait_demo by blast
  have "cancel_run (map Step (start_run @ wait_run)) (init_sys initial_epoch (\<lambda>_. 0) :: (8, 8) rcu) = Some s"
    using s(1) unfolding demo_start_def cancel_run_Step .
  moreover have "start_ok (initial_epoch :: 8 word)"
    by (simp add: start_ok_def valid_epoch_def exec)
  ultimately show ?thesis
    using dropped_waits_leak [of initial_epoch _ _ s 0 0 s' "(0, 0)"] s by blast
qed

text \<open>C37: a counter reset needs its leader. When the started counter is at its maximum and the call that took it there has
  been dropped, no call that comes later, or has not got an id yet, ever returns, whatever the threads do.\<close>

theorem reset_without_leader_blocks_every_call:
  assumes "leaderless s" and "stuck s q" and "cancel_run evs s = Some s'"
  shows "opc (ops s' q) \<noteq> OReturned"
  using leaderless_run [OF assms] by (auto simp: stuck_def)

lemma reset_without_leader_blocks_every_call_witness:
  "\<exists>s :: (8, 2) rcu. cancel_run leader_run (init_sys initial_epoch (\<lambda>_. 0)) = Some s \<and>
     (\<forall>evs s'. cancel_run evs s = Some s' \<longrightarrow> opc (ops s' 3) \<noteq> OReturned)"
  using leader_run_leaderless reset_without_leader_blocks_every_call by metis

section \<open>Thread states\<close>

text \<open>C38: decoding is the inverse of encoding. A word decodes to a state that satisfies the debug assertions
  of \<open>encode\<close> exactly when it is the code of that state.\<close>

theorem thread_state_round_trip:
  assumes "encode_asserts st"
  shows "decode w = Some st \<longleftrightarrow> w = encode st"
  using decode_encode [OF assms] encode_decode by blast

lemma thread_state_round_trip_witness:
  "decode (5 :: 32 word) = Some \<lparr>last_seen_epoch_id = 4, is_busy = True\<rparr>"
  by (subst thread_state_round_trip) (simp_all add: encode_asserts_iff encode_def)

end
